(* ===== verification/Wisp_Prelude.thy ===== *)
theory Wisp_Prelude
  imports Main "HOL-Library.Word" "HOL-Library.Signed_Division"
begin

text \<open>
  What the components share: the machine types of the C code, the C string and conversion
  helpers, and fixed-size slot tables.  Three components (the rate limiter, the subscription
  manager and the connection table of the WebSocket server) keep their state in a C array of
  structs with an \<open>active\<close> flag, look a slot up by a linear scan, take the first
  inactive slot for a new entry and release a slot by clearing the flag.  The locale
  \<open>slot_table\<close> states what those scans and updates do to the finite map the array
  stands for; each component interprets it on its own struct.
\<close>

unbundle bit_operations_syntax

section \<open>Machine types\<close>

type_synonym u8 = "8 word"
type_synonym u16 = "16 word"
type_synonym u32 = "32 word"

text \<open>
  Signed C integers (\<open>int\<close>, \<open>int32_t\<close>, \<open>int64_t\<close>) are
  \<^typ>\<open>int\<close>; a conversion to an unsigned type is \<^const>\<open>word_of_int\<close>, which
  reduces modulo the width as the C conversion does.  C strings are \<^typ>\<open>string\<close>
  without the terminating NUL.
\<close>

lemma unat_inc:
  fixes a b :: "'a :: len word"
  assumes "a < b"
  shows "unat (a + 1) = unat a + 1"
proof -
  have "unat a + 1 \<le> unat b" using assms by (simp add: word_less_nat_alt)
  then have "unat a + 1 < 2 ^ LENGTH('a)" using unsigned_less [of b, where ?'a = nat] by linarith
  then show ?thesis by (simp add: unat_word_ariths)
qed

lemma inc_word_le: "a \<le> b \<Longrightarrow> a \<noteq> b \<Longrightarrow> a + 1 \<le> (b :: 'a :: len word)"
  by (rule inc_le) simp

named_theorems wisp_defs \<open>definitions that proofs unfold\<close>
named_theorems wisp_inv \<open>preservation of the component invariants\<close>

section \<open>C strings\<close>

text \<open>\<open>strncpy (dst, src, n); dst[n] = 0\<close> on a buffer of \<open>n + 1\<close> bytes.\<close>

definition strncpy_z :: "string \<Rightarrow> nat \<Rightarrow> string" where
  "strncpy_z s n = take n s"

lemma length_strncpy_z [simp]: "length (strncpy_z s n) = min (length s) n"
  by (simp add: strncpy_z_def)

lemma strncpy_z_id [simp]: "length s \<le> n \<Longrightarrow> strncpy_z s n = s"
  by (simp add: strncpy_z_def)

section \<open>Linear scans\<close>

text \<open>\<open>for (i = 0; i < N; i++) if (P (a[i])) return i;\<close>\<close>

fun find_slot :: "('a \<Rightarrow> bool) \<Rightarrow> 'a list \<Rightarrow> nat option" where
  "find_slot P [] = None"
| "find_slot P (x # xs) = (if P x then Some 0 else map_option Suc (find_slot P xs))"

text \<open>\<open>for (i = 0; i < N; i++) if (P (a[i])) n++;\<close>\<close>

definition count_slots :: "('a \<Rightarrow> bool) \<Rightarrow> 'a list \<Rightarrow> nat" where
  "count_slots P xs = length (filter P xs)"

lemma find_slot_None: "find_slot P xs = None \<longleftrightarrow> (\<forall>x \<in> set xs. \<not> P x)"
  by (induction xs) auto

lemma find_slot_Some:
  "find_slot P xs = Some i \<longleftrightarrow> i < length xs \<and> P (xs ! i) \<and> (\<forall>j < i. \<not> P (xs ! j))"
proof (induction xs arbitrary: i)
  case Nil
  then show ?case by simp
next
  case (Cons x xs)
  then show ?case
    by (cases i) (auto simp: All_less_Suc2)
qed

lemma find_slot_SomeD:
  assumes "find_slot P xs = Some i"
  shows "i < length xs" and "P (xs ! i)"
  using assms by (auto simp: find_slot_Some)

lemma find_slot_cong:
  "length xs = length ys \<Longrightarrow> (\<And>i. i < length xs \<Longrightarrow> P (xs ! i) = Q (ys ! i)) \<Longrightarrow>
    find_slot P xs = find_slot Q ys"
proof (induction xs ys rule: list_induct2)
  case Nil
  then show ?case by simp
next
  case (Cons x xs y ys)
  from Cons.prems [of 0] have "P x = Q y" by simp
  moreover have "find_slot P xs = find_slot Q ys"
    using Cons.prems [of "Suc _"] by (intro Cons.IH) auto
  ultimately show ?case by simp
qed

lemma count_slots_le: "count_slots P xs \<le> length xs"
  by (simp add: count_slots_def)

lemma count_slots_Cons: "count_slots P (x # xs) = (if P x then 1 else 0) + count_slots P xs"
  by (simp add: count_slots_def)

lemma count_slots_Nil [simp]: "count_slots P [] = 0"
  by (simp add: count_slots_def)

lemma count_slots_update:
  "i < length xs \<Longrightarrow>
    count_slots P (xs[i := y]) + (if P (xs ! i) then 1 else 0) =
    count_slots P xs + (if P y then 1 else 0)"
proof (induction xs arbitrary: i)
  case Nil
  then show ?case by simp
next
  case (Cons x xs)
  then show ?case by (cases i) (auto simp: count_slots_Cons)
qed

lemma count_slots_pos: "i < length xs \<Longrightarrow> P (xs ! i) \<Longrightarrow> 0 < count_slots P xs"
  by (auto simp: count_slots_def filter_empty_conv)

lemma count_slots_0: "count_slots P xs = 0 \<longleftrightarrow> (\<forall>x \<in> set xs. \<not> P x)"
  by (auto simp: count_slots_def filter_empty_conv)

lemma count_slots_full: "count_slots P xs < length xs \<longleftrightarrow> (\<exists>x \<in> set xs. \<not> P x)"
proof -
  have "count_slots P xs < length xs \<longleftrightarrow> 0 < length (filter (\<lambda>x. \<not> P x) xs)"
    using sum_length_filter_compl [of P xs] unfolding count_slots_def by linarith
  then show ?thesis by (auto simp: filter_empty_conv)
qed

lemma count_slots_mono:
  "(\<And>x. x \<in> set xs \<Longrightarrow> P x \<Longrightarrow> Q x) \<Longrightarrow> count_slots P xs \<le> count_slots Q xs"
  by (induction xs) (auto simp: count_slots_Cons)

lemma count_slots_map: "count_slots P (map f xs) = count_slots (\<lambda>x. P (f x)) xs"
  by (induction xs) (auto simp: count_slots_Cons)

lemma map_eqI: "(\<And>k v. f k = Some v \<longleftrightarrow> g k = Some v) \<Longrightarrow> f = g"
  by (rule ext) (metis option.exhaust)

text \<open>Taking one element out of the selected ones, when their keys are distinct.\<close>

lemma filter_update_out:
  assumes "distinct (map key (filter P xs))" and "i < length xs" and "P (xs ! i)" and "\<not> P y"
  shows "filter P (xs[i := y]) = filter (\<lambda>z. key z \<noteq> key (xs ! i)) (filter P xs)"
proof -
  let ?x = "xs ! i" and ?l = "take i xs" and ?r = "drop (Suc i) xs"
  have xs: "xs = ?l @ ?x # ?r" and upd: "xs[i := y] = ?l @ y # ?r"
    using assms(2) by (simp_all add: id_take_nth_drop upd_conv_take_nth_drop)
  have "distinct (map key (filter P (?l @ ?x # ?r)))" using assms(1) xs by simp
  then have "key ?x \<notin> key ` set (filter P ?l)" and "key ?x \<notin> key ` set (filter P ?r)"
    using assms(3) by auto
  then have "filter (\<lambda>z. key z \<noteq> key ?x) (filter P ?l) = filter P ?l"
    and "filter (\<lambda>z. key z \<noteq> key ?x) (filter P ?r) = filter P ?r"
    by (auto intro!: filter_cong simp: image_iff)
  moreover have "filter (\<lambda>z. key z \<noteq> key ?x) (filter P xs) =
      filter (\<lambda>z. key z \<noteq> key ?x) (filter P (?l @ ?x # ?r))"
    using xs by simp
  ultimately show ?thesis
    using assms(3,4) upd by simp
qed

lemma filter_unique:
  assumes "distinct (map f xs)" and "x \<in> set xs" and "P x"
    and "\<And>y. y \<in> set xs \<Longrightarrow> P y \<Longrightarrow> y = x"
  shows "filter P xs = [x]"
proof -
  have d: "distinct (filter P xs)" using assms(1) by (simp add: distinct_map)
  have e: "set (filter P xs) = {x}" using assms(2,3) by (auto dest: assms(4))
  show ?thesis
  proof (cases "filter P xs")
    case Nil
    with e show ?thesis by simp
  next
    case (Cons y zs)
    with e have "y = x" and "set zs \<subseteq> {x}" by auto
    with d Cons have "zs = []" by (cases zs) auto
    with Cons \<open>y = x\<close> show ?thesis by simp
  qed
qed

section \<open>Slot tables\<close>

text \<open>
  The finite map a slot array stands for: a key is bound to the first active slot that
  carries it.  \<open>slots_distinct\<close> says that no two active slots carry the same key, so
  that clearing a slot unbinds its key.
\<close>

definition slot_map :: "('a \<Rightarrow> bool) \<Rightarrow> ('a \<Rightarrow> 'k) \<Rightarrow> 'a list \<Rightarrow> 'k \<Rightarrow> 'a option" where
  "slot_map act key xs k = map_option ((!) xs) (find_slot (\<lambda>s. act s \<and> key s = k) xs)"

definition slots_distinct :: "('a \<Rightarrow> bool) \<Rightarrow> ('a \<Rightarrow> 'k) \<Rightarrow> 'a list \<Rightarrow> bool" where
  "slots_distinct act key xs \<longleftrightarrow>
     (\<forall>i < length xs. \<forall>j < length xs.
        act (xs ! i) \<and> act (xs ! j) \<and> key (xs ! i) = key (xs ! j) \<longrightarrow> i = j)"

locale slot_table =
  fixes act :: "'a \<Rightarrow> bool"
    and key :: "'a \<Rightarrow> 'k"
    and blank :: 'a
  assumes blank_inactive [simp]: "\<not> act blank"
begin

lemma map_None: "slot_map act key xs k = None \<longleftrightarrow> (\<forall>x \<in> set xs. act x \<longrightarrow> key x \<noteq> k)"
  by (auto simp: slot_map_def find_slot_None)

lemma map_SomeD:
  assumes "slot_map act key xs k = Some s"
  shows "s \<in> set xs" and "act s" and "key s = k"
  using assms by (auto simp: slot_map_def find_slot_Some)

lemma map_Some_iff:
  assumes "slots_distinct act key xs"
  shows "slot_map act key xs k = Some s \<longleftrightarrow> s \<in> set xs \<and> act s \<and> key s = k"
proof
  assume "slot_map act key xs k = Some s"
  then show "s \<in> set xs \<and> act s \<and> key s = k" by (blast dest: map_SomeD)
next
  assume s: "s \<in> set xs \<and> act s \<and> key s = k"
  then obtain t where t: "slot_map act key xs k = Some t"
    using map_None by (cases "slot_map act key xs k") blast+
  from s obtain i where i: "i < length xs" "s = xs ! i" by (auto simp: in_set_conv_nth)
  from map_SomeD(1) [OF t] obtain j where j: "j < length xs" "t = xs ! j"
    by (auto simp: in_set_conv_nth)
  have "i = j"
    using assms i j s map_SomeD(2,3) [OF t] unfolding slots_distinct_def by blast
  with t i j show "slot_map act key xs k = Some s" by simp
qed

lemma map_nth_iff:
  assumes "slots_distinct act key xs"
  shows "slot_map act key xs k = Some s \<longleftrightarrow>
    (\<exists>j < length xs. s = xs ! j \<and> act (xs ! j) \<and> key (xs ! j) = k)"
  unfolding map_Some_iff [OF assms] in_set_conv_nth by blast

lemma dom_map: "dom (slot_map act key xs) = key ` {s \<in> set xs. act s}"
proof (rule set_eqI)
  fix k
  have "k \<in> dom (slot_map act key xs) \<longleftrightarrow> \<not> (\<forall>x \<in> set xs. act x \<longrightarrow> key x \<noteq> k)"
    unfolding map_None [symmetric] by auto
  then show "k \<in> dom (slot_map act key xs) \<longleftrightarrow> k \<in> key ` {s \<in> set xs. act s}" by blast
qed

lemma scan_hit:
  "find_slot (\<lambda>s. act s \<and> key s = k) xs = Some i \<Longrightarrow> slot_map act key xs k = Some (xs ! i)"
  by (simp add: slot_map_def)

lemma scan_miss:
  "find_slot (\<lambda>s. act s \<and> key s = k) xs = None \<longleftrightarrow> slot_map act key xs k = None"
  by (simp add: slot_map_def)

lemma all_blank: "slot_map act key (replicate n blank) = Map.empty"
  by (rule ext) (simp add: map_None)

lemma distinct_blank: "slots_distinct act key (replicate n blank)"
  by (simp add: slots_distinct_def)

lemma distinct_update:
  assumes "slots_distinct act key xs" and "i < length xs"
    and "act y \<Longrightarrow> \<forall>j < length xs. j \<noteq> i \<and> act (xs ! j) \<longrightarrow> key (xs ! j) \<noteq> key y"
  shows "slots_distinct act key (xs[i := y])"
  using assms by (auto simp: slots_distinct_def nth_list_update)

lemma distinct_fresh:
  assumes "slots_distinct act key xs" and "i < length xs"
    and "slot_map act key xs (key y) = None"
  shows "slots_distinct act key (xs[i := y])"
  using assms by (intro distinct_update) (auto simp: map_None)

lemma distinct_same:
  assumes "slots_distinct act key xs" and "i < length xs"
    and "act (xs ! i)" and "key y = key (xs ! i)"
  shows "slots_distinct act key (xs[i := y])"
  using assms by (intro distinct_update) (auto simp: slots_distinct_def)

lemma distinct_clear:
  assumes "slots_distinct act key xs" and "i < length xs" and "\<not> act y"
  shows "slots_distinct act key (xs[i := y])"
  using assms by (intro distinct_update) auto

lemma map_update:
  assumes "slots_distinct act key (xs[i := y])" and "i < length xs"
  shows "slot_map act key (xs[i := y]) k = Some s \<longleftrightarrow>
    s = y \<and> act y \<and> key y = k \<or>
    (\<exists>j < length xs. j \<noteq> i \<and> s = xs ! j \<and> act (xs ! j) \<and> key (xs ! j) = k)"
  using assms(2) unfolding map_nth_iff [OF assms(1)] by (auto simp: nth_list_update)

text \<open>A new entry in an inactive slot binds its key.\<close>

lemma map_fresh:
  assumes d: "slots_distinct act key xs" and i: "i < length xs" "\<not> act (xs ! i)"
    and y: "act y" "slot_map act key xs (key y) = None"
  shows "slot_map act key (xs[i := y]) = (slot_map act key xs)(key y \<mapsto> y)"
proof (rule map_eqI)
  fix k s
  have none: "\<forall>j < length xs. act (xs ! j) \<longrightarrow> key (xs ! j) \<noteq> key y"
    using y(2) by (auto simp: map_None)
  show "slot_map act key (xs[i := y]) k = Some s \<longleftrightarrow>
      ((slot_map act key xs)(key y \<mapsto> y)) k = Some s"
    unfolding map_update [OF distinct_fresh [OF d i(1) y(2)] i(1)]
    using i y(1) none by (auto simp: map_nth_iff [OF d])
qed

text \<open>Writing to an active slot without changing its key rebinds the key.\<close>

lemma map_same:
  assumes d: "slots_distinct act key xs" and i: "i < length xs" "act (xs ! i)"
    and y: "act y" "key y = key (xs ! i)"
  shows "slot_map act key (xs[i := y]) = (slot_map act key xs)(key y \<mapsto> y)"
proof (rule map_eqI)
  fix k s
  have other: "\<forall>j < length xs. j \<noteq> i \<and> act (xs ! j) \<longrightarrow> key (xs ! j) \<noteq> key y"
    using d i y by (auto simp: slots_distinct_def)
  show "slot_map act key (xs[i := y]) k = Some s \<longleftrightarrow>
      ((slot_map act key xs)(key y \<mapsto> y)) k = Some s"
    unfolding map_update [OF distinct_same [OF d i y(2)] i(1)]
    using i y other by (auto simp: map_nth_iff [OF d])
qed

text \<open>Releasing an active slot unbinds its key.\<close>

lemma map_clear:
  assumes d: "slots_distinct act key xs" and i: "i < length xs" "act (xs ! i)"
    and y: "\<not> act y"
  shows "slot_map act key (xs[i := y]) = (slot_map act key xs)(key (xs ! i) := None)"
proof (rule map_eqI)
  fix k s
  have other: "\<forall>j < length xs. j \<noteq> i \<and> act (xs ! j) \<longrightarrow> key (xs ! j) \<noteq> key (xs ! i)"
    using d i y by (auto simp: slots_distinct_def)
  show "slot_map act key (xs[i := y]) k = Some s \<longleftrightarrow>
      ((slot_map act key xs)(key (xs ! i) := None)) k = Some s"
    unfolding map_update [OF distinct_clear [OF d i(1) y] i(1)]
    using i y other by (auto simp: map_nth_iff [OF d])
qed

lemma map_nth:
  "slots_distinct act key xs \<Longrightarrow> i < length xs \<Longrightarrow> act (xs ! i) \<Longrightarrow>
    slot_map act key xs (key (xs ! i)) = Some (xs ! i)"
  by (auto simp: map_nth_iff)

text \<open>Releasing every active slot whose key has a property.\<close>

lemma clear_all:
  fixes Q :: "'k \<Rightarrow> bool"
  assumes d: "slots_distinct act key xs"
  defines "ys \<equiv> map (\<lambda>s. if act s \<and> Q (key s) then blank else s) xs"
  shows "slots_distinct act key ys"
    and "slot_map act key ys = (\<lambda>k. if Q k then None else slot_map act key xs k)"
proof -
  show d': "slots_distinct act key ys"
    using d by (auto simp: slots_distinct_def ys_def split: if_splits)
  show "slot_map act key ys = (\<lambda>k. if Q k then None else slot_map act key xs k)"
  proof (rule map_eqI)
    fix k s
    show "slot_map act key ys k = Some s \<longleftrightarrow> (if Q k then None else slot_map act key xs k) = Some s"
      unfolding map_nth_iff [OF d'] by (auto simp: map_nth_iff [OF d] ys_def) blast
  qed
qed

text \<open>As many keys with a property are bound as there are active slots with it.\<close>

lemma card_dom_if:
  assumes "slots_distinct act key xs"
  shows "card {k \<in> dom (slot_map act key xs). Q k} = count_slots (\<lambda>s. act s \<and> Q (key s)) xs"
proof -
  let ?I = "{i. i < length xs \<and> act (xs ! i) \<and> Q (key (xs ! i))}"
  have "{k \<in> dom (slot_map act key xs). Q k} = (\<lambda>i. key (xs ! i)) ` ?I"
    unfolding dom_map by (auto simp: in_set_conv_nth image_iff)
  moreover have "inj_on (\<lambda>i. key (xs ! i)) ?I"
    using assms by (auto simp: inj_on_def slots_distinct_def)
  ultimately show ?thesis
    by (simp add: card_image count_slots_def length_filter_conv_card)
qed

lemma card_dom:
  "slots_distinct act key xs \<Longrightarrow> card (dom (slot_map act key xs)) = count_slots act xs"
  using card_dom_if [where Q = "\<lambda>_. True"] by simp

lemma finite_dom: "finite (dom (slot_map act key xs))"
  unfolding dom_map by simp

end

end
