(* ===== verification/Nostr_Interface.thy ===== *)
theory Nostr_Interface
  imports Wisp_Prelude
begin

text \<open>
  What the relay uses of libnostr-c (\<open>nostr_relay_protocol.h\<close>, \<open>nostr.h\<close>), which is
  not part of this repository.  The data types carry the fields the relay reads; every
  library function is a field of the record \<^term>\<open>nostr_lib\<close>, an argument of each
  definition that calls it.  Nothing is assumed of these functions here: a property that
  rests on one of them states what it needs as a hypothesis.
\<close>

section \<open>Library data\<close>

datatype nostr_relay_error =
    NOSTR_RELAY_OK
  | NOSTR_RELAY_ERR_MEMORY
  | NOSTR_RELAY_ERR_TOO_MANY_FILTERS
  | NOSTR_RELAY_ERR_INVALID_SUBSCRIPTION_ID
  | NOSTR_RELAY_ERR_MISSING_FIELD
  | NOSTR_RELAY_ERR_INVALID_ID
  | NOSTR_RELAY_ERR_INVALID_PUBKEY
  | NOSTR_RELAY_ERR_INVALID_CREATED_AT
  | NOSTR_RELAY_ERR_INVALID_KIND
  | NOSTR_RELAY_ERR_INVALID_TAGS
  | NOSTR_RELAY_ERR_INVALID_CONTENT
  | NOSTR_RELAY_ERR_ID_MISMATCH
  | NOSTR_RELAY_ERR_SIG_MISMATCH
  | NOSTR_RELAY_ERR_INVALID_SIG
  | NOSTR_RELAY_ERR_FUTURE_EVENT
  | NOSTR_RELAY_ERR_EXPIRED_EVENT
  | NOSTR_RELAY_ERR_INVALID_JSON
  | NOSTR_RELAY_ERR_STORAGE
  | NOSTR_RELAY_ERR_OTHER nat \<comment> \<open>codes the relay never names\<close>

text \<open>A tag is its list of values; \<open>tag->count\<close> is the length of the list.\<close>

record nostr_event =
  ev_id :: "u8 list"
  ev_pubkey :: "u8 list"
  ev_created_at :: int
  ev_kind :: u16
  ev_tags :: "string list list"
  ev_content :: string
  ev_sig :: "u8 list"

text \<open>
  A filter.  An array pointer together with its count is a list; the count is its length.
\<close>

record nostr_filter =
  f_ids :: "string list"
  f_authors :: "string list"
  f_kinds :: "int list"
  f_e_tags :: "string list"
  f_p_tags :: "string list"
  f_generic_tags :: "(char \<times> string list) list"
  f_since :: int
  f_until :: int
  f_limit :: int

text \<open>\<open>memset (f, 0, sizeof (nostr_filter_t))\<close>\<close>

definition zero_filter :: nostr_filter where
  "zero_filter = \<lparr>f_ids = [], f_authors = [], f_kinds = [], f_e_tags = [], f_p_tags = [],
     f_generic_tags = [], f_since = 0, f_until = 0, f_limit = 0\<rparr>"

record deletion_request =
  dr_pubkey :: string
  dr_event_ids :: "string list"
  dr_addresses :: "string list"

datatype client_msg =
    Client_Event nostr_event
  | Client_Req string "nostr_filter list"
  | Client_Close string
  | Client_Auth
  | Client_Unknown

datatype relay_msg =
    Relay_Notice string
  | Relay_Ok string bool string
  | Relay_Eose string
  | Relay_Closed string string
  | Relay_Event string nostr_event

section \<open>Library functions\<close>

text \<open>
  A function that returns an error code and fills an output buffer returns an option (or
  a sum where the relay looks at the code).  \<open>lib_hex_to_bytes s n m\<close> is
  \<open>nostr_hex_to_bytes (s, n, out, m)\<close>; \<open>lib_event_serialize e n\<close> and
  \<open>lib_relay_msg_serialize m n\<close> write into a buffer of \<open>n\<close> bytes;
  \<open>lib_event_validate_full e f now\<close> is \<open>nostr_event_validate_full\<close> with the
  future tolerance \<open>f\<close> when the clock reads \<open>now\<close>.  The last fields are the
  constants \<open>NOSTR_OK_PREFIX_*\<close> of its headers.
\<close>

record nostr_lib =
  lib_bytes_to_hex :: "u8 list \<Rightarrow> string"
  lib_hex_to_bytes :: "string \<Rightarrow> nat \<Rightarrow> nat \<Rightarrow> u8 list option"
  lib_event_serialize :: "nostr_event \<Rightarrow> nat \<Rightarrow> string option"
  lib_event_parse :: "string \<Rightarrow> nostr_event option"
  lib_event_get_expiration :: "nostr_event \<Rightarrow> int"
  lib_event_get_d_tag :: "nostr_event \<Rightarrow> string option"
  lib_event_get_id_hex :: "nostr_event \<Rightarrow> string"
  lib_filter_matches :: "nostr_filter \<Rightarrow> nostr_event \<Rightarrow> bool"
  lib_filters_match :: "nostr_filter list \<Rightarrow> nostr_event \<Rightarrow> bool"
  lib_filter_free :: "nostr_filter \<Rightarrow> nostr_filter"
  lib_event_validate_full :: "nostr_event \<Rightarrow> int \<Rightarrow> int \<Rightarrow> nostr_relay_error"
  lib_nip13_calculate_difficulty :: "u8 list \<Rightarrow> int"
  lib_kind_is_ephemeral :: "u16 \<Rightarrow> bool"
  lib_deletion_parse :: "nostr_event \<Rightarrow> deletion_request option"
  lib_deletion_authorized :: "deletion_request \<Rightarrow> nostr_event \<Rightarrow> bool"
  lib_client_msg_parse :: "string \<Rightarrow> nostr_relay_error + client_msg"
  lib_relay_msg_serialize :: "relay_msg \<Rightarrow> nat \<Rightarrow> string option"
  lib_PREFIX_INVALID :: string
  lib_PREFIX_ERROR :: string
  lib_PREFIX_DUPLICATE :: string
  lib_PREFIX_POW :: string
  lib_PREFIX_BLOCKED :: string

section \<open>Result codes of ESP-IDF\<close>

datatype esp_err = ESP_OK | ESP_FAIL | ESP_ERR_NO_MEM | ESP_ERR_INVALID_STATE | ESP_ERR_OTHER int

section \<open>Allocation\<close>

text \<open>
  A schedule of allocation outcomes: each \<open>malloc\<close>, \<open>calloc\<close> or \<open>strdup\<close> takes
  the next outcome; beyond the end of the schedule allocations succeed.  A property that
  holds for every schedule holds whichever allocations fail.
\<close>

type_synonym heap = "bool list"

fun malloc :: "heap \<Rightarrow> bool \<times> heap" where
  "malloc [] = (True, [])"
| "malloc (b # h) = (b, h)"

section \<open>Hexadecimal output\<close>

text \<open>The conversions \<open>%02x\<close> and \<open>%08x\<close> of \<open>snprintf\<close>.\<close>

definition hex_digit :: "nat \<Rightarrow> char" where
  "hex_digit n = ''0123456789abcdef'' ! (n mod 16)"

definition hex_byte :: "u8 \<Rightarrow> string" where
  "hex_byte b = [hex_digit (unat b div 16), hex_digit (unat b)]"

definition hex_u32 :: "u32 \<Rightarrow> string" where
  "hex_u32 w = map (\<lambda>i. hex_digit (unat w div 16 ^ i)) [7, 6, 5, 4, 3, 2, 1, 0]"

section \<open>A concrete library for the witnesses\<close>

text \<open>
  The witnesses instantiate the library with this record: hex coding as its name says, filters
  on ids, authors, kinds and times, deletion requests read from the \<open>e\<close> and \<open>a\<close> tags,
  and an event codec, a validator and a message parser that know the events of a given list by
  their ids: \<open>E\<close> and an id is an EVENT, \<open>R\<close> and a name a REQ for kind 1, anything else a
  CLOSE.  It models no code;
  it shows that the hypotheses about the library can hold together.
\<close>

definition unhex_digit :: "char \<Rightarrow> nat option" where
  "unhex_digit c = find_slot (\<lambda>d. d = c) ''0123456789abcdef''"

fun unhex :: "string \<Rightarrow> u8 list option" where
  "unhex [] = Some []"
| "unhex [c] = None"
| "unhex (c # d # cs) =
     (case (unhex_digit c, unhex_digit d, unhex cs) of
        (Some a, Some b, Some bs) \<Rightarrow> Some (of_nat (16 * a + b) # bs)
      | _ \<Rightarrow> None)"

definition demo_hex :: "u8 list \<Rightarrow> string" where
  "demo_hex bs = concat (map hex_byte bs)"

definition demo_match :: "nostr_filter \<Rightarrow> nostr_event \<Rightarrow> bool" where
  "demo_match f e \<longleftrightarrow>
     (f_ids f = [] \<or> demo_hex (ev_id e) \<in> set (f_ids f)) \<and>
     (f_authors f = [] \<or> demo_hex (ev_pubkey e) \<in> set (f_authors f)) \<and>
     (f_kinds f = [] \<or> uint (ev_kind e) \<in> set (f_kinds f)) \<and>
     (0 < f_since f \<longrightarrow> f_since f \<le> ev_created_at e) \<and>
     (0 < f_until f \<longrightarrow> ev_created_at e \<le> f_until f)"

definition demo_tag_values :: "string \<Rightarrow> nostr_event \<Rightarrow> string list" where
  "demo_tag_values name e = map (\<lambda>t. t ! 1) (filter (\<lambda>t. 2 \<le> length t \<and> hd t = name) (ev_tags e))"

definition demo_lib :: "nostr_event list \<Rightarrow> nostr_lib" where
  "demo_lib evs =
     \<lparr>lib_bytes_to_hex = demo_hex,
      lib_hex_to_bytes = (\<lambda>s n m. case unhex (take n s) of
          Some bs \<Rightarrow> if n \<le> length s \<and> length bs = m then Some bs else None
        | None \<Rightarrow> None),
      lib_event_serialize = (\<lambda>e n. Some (demo_hex (ev_id e))),
      lib_event_parse = (\<lambda>j. map_option ((!) evs) (find_slot (\<lambda>e. demo_hex (ev_id e) = j) evs)),
      lib_event_get_expiration = (\<lambda>e. 0),
      lib_event_get_d_tag = (\<lambda>e. case demo_tag_values ''d'' e of [] \<Rightarrow> None | d # _ \<Rightarrow> Some d),
      lib_event_get_id_hex = (\<lambda>e. demo_hex (ev_id e)),
      lib_filter_matches = demo_match,
      lib_filters_match = (\<lambda>fs e. list_ex (\<lambda>f. demo_match f e) fs),
      lib_filter_free = (\<lambda>f. zero_filter),
      lib_event_validate_full = (\<lambda>e f now.
        if \<not> list_ex (\<lambda>e'. e' = e) evs \<or> length (ev_id e) \<noteq> 32 then NOSTR_RELAY_ERR_INVALID_ID
        else if 0 < f \<and> now + f < ev_created_at e then NOSTR_RELAY_ERR_FUTURE_EVENT else NOSTR_RELAY_OK),
      lib_nip13_calculate_difficulty = (\<lambda>bs. if bs \<noteq> [] \<and> hd bs = 0 then 8 else 0),
      lib_kind_is_ephemeral = (\<lambda>k. 20000 \<le> k \<and> k < 30000),
      lib_deletion_parse = (\<lambda>e. Some \<lparr>dr_pubkey = demo_hex (ev_pubkey e),
          dr_event_ids = demo_tag_values ''e'' e, dr_addresses = demo_tag_values ''a'' e\<rparr>),
      lib_deletion_authorized = (\<lambda>r e. dr_pubkey r = demo_hex (ev_pubkey e)),
      lib_client_msg_parse = (\<lambda>s. case s of
          [] \<Rightarrow> Inl NOSTR_RELAY_ERR_INVALID_JSON
        | c # cs \<Rightarrow> Inr (if c = CHR ''E'' \<and> list_ex (\<lambda>e. demo_hex (ev_id e) = cs) evs
            then Client_Event (hd (filter (\<lambda>e. demo_hex (ev_id e) = cs) evs))
            else if c = CHR ''R'' then Client_Req cs [zero_filter\<lparr>f_kinds := [1]\<rparr>] else Client_Close cs)),
      lib_relay_msg_serialize = (\<lambda>m n. Some
        (case m of Relay_Notice s \<Rightarrow> ''NOTICE '' @ s | Relay_Ok i b s \<Rightarrow> ''OK '' @ i | Relay_Eose s \<Rightarrow> ''EOSE '' @ s
         | Relay_Closed s t \<Rightarrow> ''CLOSED '' @ s | Relay_Event s e \<Rightarrow> ''EVENT '' @ s)),
      lib_PREFIX_INVALID = ''invalid: '', lib_PREFIX_ERROR = ''error: '',
      lib_PREFIX_DUPLICATE = ''duplicate: '', lib_PREFIX_POW = ''pow: '', lib_PREFIX_BLOCKED = ''blocked: ''\<rparr>"

end
