(* ===== verification/Storage_Index.thy ===== *)
theory Storage_Index
  imports Nostr_Interface
begin

text \<open>
  The data of \<open>main/storage_engine.c\<close> and its pure helpers: index entries, the engine
  record, event file names, the scan for an id, the index filter that runs before an event is
  read from flash, and the expiry test.
\<close>

section \<open>Data\<close>

definition STORAGE_MAX_EVENT_SIZE :: nat where "STORAGE_MAX_EVENT_SIZE = 8192"
definition STORAGE_INDEX_ENTRIES :: nat where "STORAGE_INDEX_ENTRIES = 5000"
definition STORAGE_FLAG_DELETED :: u8 where "STORAGE_FLAG_DELETED = 1"
definition EVENTS_DIR :: string where "EVENTS_DIR = ''/littlefs/events''"

datatype storage_error =
    STORAGE_OK
  | STORAGE_ERR_NOT_INITIALIZED
  | STORAGE_ERR_FULL
  | STORAGE_ERR_DUPLICATE
  | STORAGE_ERR_NOT_FOUND
  | STORAGE_ERR_IO
  | STORAGE_ERR_NO_MEM
  | STORAGE_ERR_SERIALIZE

record storage_index_entry =
  ie_event_id :: "u8 list"
  ie_created_at :: u32
  ie_expires_at :: u32
  ie_file_index :: u32
  ie_kind :: u16
  ie_pubkey_prefix :: "u8 list"
  ie_flags :: u8
  ie_reserved :: u8

record storage_stats =
  total_events :: u32
  total_bytes :: u32
  free_bytes :: u32
  oldest_event_ts :: u32
  newest_event_ts :: u32

text \<open>
  The index array has \<open>max_index_entries\<close> slots of which the first \<open>index_count\<close> are
  in use; the empty list is the NULL pointer.
\<close>

record storage_engine =
  idx :: "storage_index_entry list"
  index_count :: u16
  max_index_entries :: u16
  next_file_index :: u32
  se_lock :: bool
  cleanup_task :: bool
  initialized :: bool
  cleanup_stop :: bool
  mount_point :: string
  default_ttl_sec :: u32

definition zero_entry :: storage_index_entry where
  "zero_entry = \<lparr>ie_event_id = replicate 32 0, ie_created_at = 0, ie_expires_at = 0,
     ie_file_index = 0, ie_kind = 0, ie_pubkey_prefix = replicate 4 0, ie_flags = 0,
     ie_reserved = 0\<rparr>"

text \<open>The entries in use.\<close>

definition used :: "storage_engine \<Rightarrow> storage_index_entry list" where
  "used en = take (unat (index_count en)) (idx en)"

section \<open>File names\<close>

text \<open>
  \<open>snprintf (path, len, EVENTS_DIR "/%02x/%s_%08x.bin", ...)\<close>: at most \<open>len - 1\<close>
  characters are stored.
\<close>

definition get_event_path :: "nostr_lib \<Rightarrow> u8 list \<Rightarrow> u32 \<Rightarrow> nat \<Rightarrow> string" where
  "get_event_path lib event_id file_index len =
     take (len - 1)
       (EVENTS_DIR @ ''/'' @ hex_byte (event_id ! 0) @ ''/'' @ lib_bytes_to_hex lib (take 16 event_id)
        @ ''_'' @ hex_u32 file_index @ ''.bin'')"

definition entry_path :: "nostr_lib \<Rightarrow> storage_index_entry \<Rightarrow> string" where
  "entry_path lib e = get_event_path lib (ie_event_id e) (ie_file_index e) 128"

text \<open>Documented behaviour of \<open>nostr_bytes_to_hex\<close>: two digits per byte.\<close>

definition hex_lengths :: "nostr_lib \<Rightarrow> bool" where
  "hex_lengths lib \<longleftrightarrow> (\<forall>bs. length (lib_bytes_to_hex lib bs) = 2 * length bs)"

lemma hex_digit_inj: "hex_digit m = hex_digit n \<Longrightarrow> m mod 16 = n mod 16"
proof -
  have d: "distinct ''0123456789abcdef''" by simp
  have l: "length ''0123456789abcdef'' = 16" by simp
  show "hex_digit m = hex_digit n \<Longrightarrow> m mod 16 = n mod 16"
    unfolding hex_digit_def using nth_eq_iff_index_eq [OF d] l
    by (metis mod_less_divisor zero_less_numeral)
qed

lemma digits16_inj:
  fixes m n :: nat
  assumes "m < 4294967296" and "n < 4294967296"
    and "\<forall>i \<in> set [0, 1, 2, 3, 4, 5, 6, 7]. (m div 16 ^ i) mod 16 = (n div 16 ^ i) mod 16"
  shows "m = n"
proof -
  have step: "m div 16 ^ i = n div 16 ^ i"
    if "m div 16 ^ Suc i = n div 16 ^ Suc i" "(m div 16 ^ i) mod 16 = (n div 16 ^ i) mod 16" for i
    using that div_mult_mod_eq [of "m div 16 ^ i" 16] div_mult_mod_eq [of "n div 16 ^ i" 16]
    by (simp add: div_mult2_eq [symmetric] mult.commute)
  have "m div 16 ^ 8 = n div 16 ^ 8" using assms(1,2) by simp
  then have "m div 16 ^ 7 = n div 16 ^ 7" using step [of 7] assms(3) by simp
  then have "m div 16 ^ 6 = n div 16 ^ 6" using step [of 6] assms(3) by simp
  then have "m div 16 ^ 5 = n div 16 ^ 5" using step [of 5] assms(3) by simp
  then have "m div 16 ^ 4 = n div 16 ^ 4" using step [of 4] assms(3) by simp
  then have "m div 16 ^ 3 = n div 16 ^ 3" using step [of 3] assms(3) by simp
  then have "m div 16 ^ 2 = n div 16 ^ 2" using step [of 2] assms(3) by simp
  then have "m div 16 ^ 1 = n div 16 ^ 1" using step [of 1] assms(3) by simp
  then have "m div 16 ^ 0 = n div 16 ^ 0" using step [of 0] assms(3) by simp
  then show ?thesis by simp
qed

lemma hex_u32_inj: "hex_u32 v = hex_u32 w \<Longrightarrow> v = w"
proof -
  assume "hex_u32 v = hex_u32 w"
  then have "\<forall>i \<in> set [0, 1, 2, 3, 4, 5, 6, 7].
      (unat v div 16 ^ i) mod 16 = (unat w div 16 ^ i) mod 16"
    by (auto simp: hex_u32_def dest!: hex_digit_inj)
  then have "unat v = unat w"
    using unsigned_less [of v] unsigned_less [of w] by (intro digits16_inj) auto
  then show "v = w" by (simp only: word_unat_eq_iff)
qed

lemma length_hex_u32 [simp]: "length (hex_u32 w) = 8"
  by (simp add: hex_u32_def)

lemma length_hex_byte [simp]: "length (hex_byte b) = 2"
  by (simp add: hex_byte_def)

text \<open>Two names agree only if their file indices do; the 128-byte buffer truncates neither.\<close>

lemma get_event_path_inj:
  assumes lib: "hex_lengths lib" and len: "length id1 = 32" "length id2 = 32"
    and eq: "get_event_path lib id1 i 128 = get_event_path lib id2 j 128"
  shows "i = j"
proof -
  have split: "get_event_path lib ident k 128 =
      (EVENTS_DIR @ ''/'' @ hex_byte (ident ! 0) @ ''/'' @ lib_bytes_to_hex lib (take 16 ident) @ ''_'')
       @ hex_u32 k @ ''.bin''"
    and front: "length (EVENTS_DIR @ ''/'' @ hex_byte (ident ! 0) @ ''/'' @
        lib_bytes_to_hex lib (take 16 ident) @ ''_'') = 53"
    if "length ident = 32" for ident k
    using lib that by (simp_all add: get_event_path_def hex_lengths_def EVENTS_DIR_def)
  have "hex_u32 i = hex_u32 j"
    using eq unfolding split [OF len(1)] split [OF len(2)]
    using front [OF len(1)] front [OF len(2)] by (metis append_eq_append_conv append_same_eq)
  then show ?thesis by (rule hex_u32_inj)
qed

lemma demo_hex_lengths: "hex_lengths (demo_lib evs)"
proof -
  have "length (demo_hex bs) = 2 * length bs" for bs
    by (induction bs) (auto simp: demo_hex_def)
  then show ?thesis by (simp add: hex_lengths_def demo_lib_def)
qed

section \<open>Scans and tests on entries\<close>

definition deleted :: "storage_index_entry \<Rightarrow> bool" where
  "deleted e \<longleftrightarrow> ie_flags e AND STORAGE_FLAG_DELETED \<noteq> 0"

definition set_deleted :: "storage_index_entry \<Rightarrow> storage_index_entry" where
  "set_deleted e = e\<lparr>ie_flags := ie_flags e OR STORAGE_FLAG_DELETED\<rparr>"

definition expired :: "u32 \<Rightarrow> storage_index_entry \<Rightarrow> bool" where
  "expired now e \<longleftrightarrow> 0 < ie_expires_at e \<and> ie_expires_at e < now"

definition find_index_entry :: "storage_engine \<Rightarrow> u8 list \<Rightarrow> nat option" where
  "find_index_entry en event_id =
     find_slot (\<lambda>e. ie_event_id e = event_id \<and> \<not> deleted e) (used en)"

definition index_matches_filter ::
    "nostr_lib \<Rightarrow> storage_index_entry \<Rightarrow> nostr_filter \<Rightarrow> bool" where
  "index_matches_filter lib e f =
     (if 0 < f_since f \<and> ie_created_at e < word_of_int (f_since f) then False
      else if 0 < f_until f \<and> word_of_int (f_until f) < ie_created_at e then False
      else if f_kinds f \<noteq> [] \<and> \<not> list_ex (\<lambda>k. k = uint (ie_kind e)) (f_kinds f) then False
      else if f_ids f \<noteq> [] \<and>
          \<not> list_ex (\<lambda>s. lib_hex_to_bytes lib s 64 32 = Some (ie_event_id e)) (f_ids f) then False
      else if f_authors f \<noteq> [] \<and>
          \<not> list_ex (\<lambda>a. 8 \<le> length a \<and> lib_hex_to_bytes lib a 8 4 = Some (ie_pubkey_prefix e))
             (f_authors f) then False
      else True)"

lemma deleted_set [simp]: "deleted (set_deleted e)"
  by (simp add: deleted_def set_deleted_def STORAGE_FLAG_DELETED_def bit_eq_iff bit_simps)
     (rule exI [of _ 0], simp add: bit_simps)

lemma set_deleted_frame [simp]:
  "ie_event_id (set_deleted e) = ie_event_id e" "ie_file_index (set_deleted e) = ie_file_index e"
  "ie_expires_at (set_deleted e) = ie_expires_at e" "entry_path lib (set_deleted e) = entry_path lib e"
  by (simp_all add: set_deleted_def entry_path_def)

lemma not_deleted_zero_flags [simp]: "ie_flags e = 0 \<Longrightarrow> \<not> deleted e"
  by (simp add: deleted_def)

end
