(* ===== verification/Storage_Nvs.thy ===== *)
theory Storage_Nvs
  imports Storage_Index
begin

text \<open>
  Persistence of the index (\<open>save_index_to_nvs\<close> and \<open>load_index_from_nvs\<close> of
  \<open>main/storage_engine.c\<close>).  The NVS namespace is a map from keys to typed values, or
  absent before the first write; a blob is the list of packed entries it holds.  A set or erase
  takes effect at once (NVS may write before the commit), so a save that fails half-way leaves
  the values written so far.  Which external calls fail is the environment's choice.
\<close>

section \<open>The environment of a storage call\<close>

text \<open>
  One record per call: the clock, and the outcome of each external call the operation makes
  (by file name or NVS key where an operation makes several).  \<open>env_written\<close> bounds the
  bytes \<open>fwrite\<close> stores; \<open>env_read\<close> stands for \<open>fopen\<close>, \<open>malloc\<close> and
  \<open>fread\<close> of an event file together, whose failures the code treats alike.
\<close>

record storage_env =
  env_time :: int
  env_malloc :: bool
  env_fopen1 :: bool
  env_fopen2 :: bool
  env_written :: nat
  env_read :: "string \<Rightarrow> bool"
  env_unlink :: "string \<Rightarrow> bool"
  env_nvs_open :: bool
  env_nvs_set :: "string \<Rightarrow> bool"
  env_nvs_get :: "string \<Rightarrow> bool"
  env_nvs_erase :: "string \<Rightarrow> bool"
  env_nvs_commit :: bool
  env_fs_total :: nat
  env_fs_used :: nat

text \<open>Everything succeeds; the clock reads \<open>t\<close>.\<close>

definition good_env :: "int \<Rightarrow> storage_env" where
  "good_env t = \<lparr>env_time = t, env_malloc = True, env_fopen1 = True, env_fopen2 = True,
     env_written = STORAGE_MAX_EVENT_SIZE, env_read = (\<lambda>_. True), env_unlink = (\<lambda>_. True),
     env_nvs_open = True, env_nvs_set = (\<lambda>_. True), env_nvs_get = (\<lambda>_. True),
     env_nvs_erase = (\<lambda>_. True), env_nvs_commit = True, env_fs_total = 6291456, env_fs_used = 0\<rparr>"

section \<open>Keys and values\<close>

datatype nvs_value =
    Nvs_u16 u16
  | Nvs_u32 u32
  | Nvs_blob "storage_index_entry list"

type_synonym nvs_map = "string \<Rightarrow> nvs_value option"

text \<open>The namespace; \<^const>\<open>None\<close> before it is first opened for writing.\<close>

type_synonym nvs = "nvs_map option"

fun dec :: "nat \<Rightarrow> string" where
  "dec n = (if n < 10 then [''0123456789'' ! n] else dec (n div 10) @ [''0123456789'' ! (n mod 10)])"

declare dec.simps [simp del]

text \<open>\<open>snprintf (key, sizeof (key), "idx_%u", c)\<close> into 16 bytes.\<close>

definition idx_key :: "nat \<Rightarrow> string" where
  "idx_key c = take 15 (''idx_'' @ dec c)"

definition CHUNK_SIZE :: nat where "CHUNK_SIZE = 50"

section \<open>Saving\<close>

text \<open>
  \<open>for (i = 0; i < index_count; i += chunk_size)\<close>: the list is what is left of the index,
  \<open>c\<close> is \<open>i / chunk_size\<close>.  The engine has at most 5000 entries, so the 16-bit \<open>i\<close>
  never wraps.
\<close>

fun set_chunks ::
    "storage_env \<Rightarrow> nat \<Rightarrow> storage_index_entry list \<Rightarrow> nvs_map \<Rightarrow> bool \<times> nvs_map" where
  "set_chunks env c es m =
     (if es = [] then (True, m)
      else if \<not> env_nvs_set env (idx_key c) then (False, m)
      else set_chunks env (Suc c) (drop 50 es) (m(idx_key c \<mapsto> Nvs_blob (take 50 es))))"

declare set_chunks.simps [simp del]

text \<open>The stale chunks: stop at the first missing key, go on over an erase that fails.\<close>

fun erase_chunks :: "storage_env \<Rightarrow> nat list \<Rightarrow> nvs_map \<Rightarrow> nvs_map" where
  "erase_chunks env [] m = m"
| "erase_chunks env (c # cs) m =
     (if m (idx_key c) = None then m
      else if env_nvs_erase env (idx_key c) then erase_chunks env cs (m(idx_key c := None))
      else erase_chunks env cs m)"

definition num_chunks :: "nat \<Rightarrow> nat" where
  "num_chunks n = (if n = 0 then 0 else (n + CHUNK_SIZE - 1) div CHUNK_SIZE)"

definition save_index_to_nvs ::
    "storage_env \<Rightarrow> storage_engine \<Rightarrow> nvs \<Rightarrow> storage_error \<times> nvs" where
  "save_index_to_nvs env en st =
     (if \<not> env_nvs_open env then (STORAGE_ERR_IO, st)
      else
        let m = (case st of None \<Rightarrow> Map.empty | Some m \<Rightarrow> m) in
        if \<not> env_nvs_set env ''count'' then (STORAGE_ERR_IO, Some m)
        else
          let m = m(''count'' \<mapsto> Nvs_u16 (index_count en)) in
          if \<not> env_nvs_set env ''next_idx'' then (STORAGE_ERR_IO, Some m)
          else
            let m = m(''next_idx'' \<mapsto> Nvs_u32 (next_file_index en)) in
            case set_chunks env 0 (used en) m of
              (False, m) \<Rightarrow> (STORAGE_ERR_IO, Some m)
            | (True, m) \<Rightarrow>
                let m = erase_chunks env [num_chunks (unat (index_count en)) ..< 100] m in
                if \<not> env_nvs_commit env then (STORAGE_ERR_IO, Some m) else (STORAGE_OK, Some m))"

section \<open>Loading\<close>

text \<open>Copying a blob into the array at index \<open>i\<close>.\<close>

definition blit :: "nat \<Rightarrow> 'a list \<Rightarrow> 'a list \<Rightarrow> 'a list" where
  "blit i es xs = take i xs @ es @ drop (i + length es) xs"

text \<open>
  \<open>nvs_get_blob\<close> refuses a value longer than the buffer; a shorter one is copied and then
  refused for its size.
\<close>

fun load_chunks ::
    "storage_env \<Rightarrow> nvs_map \<Rightarrow> nat \<Rightarrow> nat \<Rightarrow> storage_index_entry list \<Rightarrow>
     bool \<times> storage_index_entry list" where
  "load_chunks env m c n xs =
     (if n = 0 then (True, xs)
      else if \<not> env_nvs_get env (idx_key c) then (False, xs)
      else case m (idx_key c) of
          Some (Nvs_blob es) \<Rightarrow>
            if min n 50 < length es then (False, xs)
            else if length es \<noteq> min n 50 then (False, blit (50 * c) es xs)
            else load_chunks env m (Suc c) (n - min n 50) (blit (50 * c) es xs)
        | _ \<Rightarrow> (False, xs))"

declare load_chunks.simps [simp del]

definition load_index_from_nvs ::
    "storage_env \<Rightarrow> nvs \<Rightarrow> storage_engine \<Rightarrow> storage_error \<times> storage_engine" where
  "load_index_from_nvs env st en =
     (if \<not> env_nvs_open env then (STORAGE_ERR_IO, en)
      else case st of
        None \<Rightarrow> (STORAGE_OK, en)
      | Some m \<Rightarrow>
          (case (env_nvs_get env ''count'', m ''count'') of
             (True, Some (Nvs_u16 c)) \<Rightarrow>
               let c' = (if max_index_entries en < c then max_index_entries en else c);
                   en = en\<lparr>index_count := c'\<rparr> in
               (case (env_nvs_get env ''next_idx'', m ''next_idx'') of
                  (True, Some (Nvs_u32 k)) \<Rightarrow>
                    let en = en\<lparr>next_file_index := k\<rparr> in
                    (case load_chunks env m 0 (unat c') (idx en) of
                       (False, xs) \<Rightarrow> (STORAGE_ERR_IO, en\<lparr>idx := xs\<rparr>)
                     | (True, xs) \<Rightarrow> (STORAGE_OK, en\<lparr>idx := xs\<rparr>))
                | _ \<Rightarrow> (STORAGE_ERR_IO, en))
           | _ \<Rightarrow> (STORAGE_ERR_IO, en)))"

section \<open>Keys are distinct\<close>

lemma digit_inj: "i < 10 \<Longrightarrow> j < 10 \<Longrightarrow> ''0123456789'' ! i = ''0123456789'' ! j \<Longrightarrow> i = j"
  using nth_eq_iff_index_eq [of "''0123456789''" i j] by simp

lemma dec_nonempty: "dec n \<noteq> []"
  by (subst dec.simps) simp

lemma dec_inj: "dec m = dec n \<Longrightarrow> m = n"
proof (induction m arbitrary: n rule: dec.induct)
  case (1 m)
  show ?case
  proof (cases "m < 10")
    case True
    then have "dec n = [''0123456789'' ! m]" using "1.prems" dec.simps [of m] by simp
    then have "length (dec n) = 1" by simp
    then have "n < 10"
      by (cases "n < 10") (auto simp: dec.simps [of n] dec_nonempty)
    with True "1.prems" show ?thesis by (auto simp: dec.simps [of m] dec.simps [of n] intro: digit_inj)
  next
    case False
    then have "length (dec m) \<noteq> 1" by (simp add: dec.simps [of m] dec_nonempty)
    then have n: "\<not> n < 10" using "1.prems" by (auto simp: dec.simps [of n])
    from False n "1.prems" have "dec (m div 10) = dec (n div 10)"
        "''0123456789'' ! (m mod 10) = ''0123456789'' ! (n mod 10)"
      by (simp_all add: dec.simps [of m] dec.simps [of n])
    with "1.IH" False have "m div 10 = n div 10" "m mod 10 = n mod 10"
      by (auto intro: digit_inj)
    then show ?thesis by (metis div_mult_mod_eq)
  qed
qed

lemma length_dec: "n < 10 ^ k \<Longrightarrow> 0 < k \<Longrightarrow> length (dec n) \<le> k"
proof (induction k arbitrary: n)
  case 0
  then show ?case by simp
next
  case (Suc k)
  show ?case
  proof (cases "n < 10")
    case True
    then show ?thesis by (simp add: dec.simps [of n])
  next
    case False
    then have "n div 10 < 10 ^ k" "0 < k" using Suc.prems by (auto intro!: Nat.gr0I)
    then have "length (dec (n div 10)) \<le> k" by (rule Suc.IH)
    then show ?thesis using False by (simp add: dec.simps [of n])
  qed
qed

text \<open>Numbers of up to five digits print in full.\<close>

lemma idx_key_eq: "c < 100000 \<Longrightarrow> idx_key c = ''idx_'' @ dec c"
  using length_dec [of c 5] by (simp add: idx_key_def)

lemma idx_key_inj: "c < 100000 \<Longrightarrow> d < 100000 \<Longrightarrow> idx_key c = idx_key d \<Longrightarrow> c = d"
  by (simp add: idx_key_eq dec_inj)

lemma idx_key_other [simp]:
  "idx_key c \<noteq> ''count''" "idx_key c \<noteq> ''next_idx''" "''count'' \<noteq> idx_key c" "''next_idx'' \<noteq> idx_key c"
  by (simp_all add: idx_key_def)

section \<open>What a save leaves in NVS\<close>

lemma set_chunks_other:
  "set_chunks env c es m = (b, m') \<Longrightarrow> \<forall>d. c \<le> d \<and> d < c + length es \<longrightarrow> k \<noteq> idx_key d \<Longrightarrow>
    m' k = m k"
proof (induction env c es m arbitrary: b m' rule: set_chunks.induct)
  case (1 env c es m)
  show ?case
  proof (cases "es = [] \<or> \<not> env_nvs_set env (idx_key c)")
    case True
    with "1.prems"(1) show ?thesis by (auto simp: set_chunks.simps [of env c] split: if_splits)
  next
    case False
    then have rest: "set_chunks env (Suc c) (drop 50 es) (m(idx_key c \<mapsto> Nvs_blob (take 50 es))) = (b, m')"
      using "1.prems"(1) by (simp add: set_chunks.simps [of env c])
    have "\<forall>d. Suc c \<le> d \<and> d < Suc c + length (drop 50 es) \<longrightarrow> k \<noteq> idx_key d"
    proof (intro allI impI)
      fix d
      assume "Suc c \<le> d \<and> d < Suc c + length (drop 50 es)"
      then have "c \<le> d \<and> d < c + length es" by auto
      with "1.prems"(2) show "k \<noteq> idx_key d" by blast
    qed
    then have "m' k = (m(idx_key c \<mapsto> Nvs_blob (take 50 es))) k"
      using False by (intro "1.IH" [OF _ _ rest]) auto
    then show ?thesis using False "1.prems"(2) by auto
  qed
qed

lemma set_chunks_stored:
  "set_chunks env c es m = (True, m') \<Longrightarrow> c + length es < 100000 \<Longrightarrow> 50 * k < length es \<Longrightarrow>
    m' (idx_key (c + k)) = Some (Nvs_blob (take 50 (drop (50 * k) es)))"
proof (induction env c es m arbitrary: m' k rule: set_chunks.induct)
  case (1 env c es m)
  then have es: "es \<noteq> []" and set: "env_nvs_set env (idx_key c)"
    and rest: "set_chunks env (Suc c) (drop 50 es) (m(idx_key c \<mapsto> Nvs_blob (take 50 es))) = (True, m')"
    by (auto simp: set_chunks.simps [of env c] split: if_splits)
  show ?case
  proof (cases k)
    case 0
    have "m' (idx_key c) = (m(idx_key c \<mapsto> Nvs_blob (take 50 es))) (idx_key c)"
      using "1.prems"(2) by (intro set_chunks_other [OF rest]) (auto dest: idx_key_inj [rotated 2])
    then show ?thesis using 0 by simp
  next
    case (Suc j)
    have "m' (idx_key (Suc c + j)) = Some (Nvs_blob (take 50 (drop (50 * j) (drop 50 es))))"
      using "1.prems" Suc es by (intro "1.IH" [OF es _ rest]) (auto simp: set)
    with Suc show ?thesis by (simp add: add.commute)
  qed
qed

lemma erase_chunks_other:
  "\<forall>d \<in> set cs. k \<noteq> idx_key d \<Longrightarrow> erase_chunks env cs m k = m k"
  by (induction cs arbitrary: m) auto

text \<open>The contents of NVS after a successful save.\<close>

definition holds_index :: "nvs_map \<Rightarrow> storage_engine \<Rightarrow> bool" where
  "holds_index m en \<longleftrightarrow>
     m ''count'' = Some (Nvs_u16 (index_count en)) \<and>
     m ''next_idx'' = Some (Nvs_u32 (next_file_index en)) \<and>
     (\<forall>k. 50 * k < length (used en) \<longrightarrow>
        m (idx_key k) = Some (Nvs_blob (take 50 (drop (50 * k) (used en)))))"

lemma length_used_le: "length (used en) \<le> unat (index_count en)"
  by (simp add: used_def)

lemma unat_u16_lt: "unat (w :: u16) < 65536"
  using unsigned_less [of w] by simp

lemma save_holds_index:
  assumes "save_index_to_nvs env en st = (STORAGE_OK, st')"
  shows "\<exists>m. st' = Some m \<and> holds_index m en"
proof -
  define m0 where "m0 = (case st of None \<Rightarrow> Map.empty | Some m \<Rightarrow> m)
    (''count'' \<mapsto> Nvs_u16 (index_count en), ''next_idx'' \<mapsto> Nvs_u32 (next_file_index en))"
  obtain m1 where set: "set_chunks env 0 (used en) m0 = (True, m1)"
    and st': "st' = Some (erase_chunks env [num_chunks (unat (index_count en)) ..< 100] m1)"
    using assms unfolding m0_def
    by (auto simp: save_index_to_nvs_def Let_def split: if_splits prod.splits bool.splits)
  let ?m = "erase_chunks env [num_chunks (unat (index_count en)) ..< 100] m1"
  have len: "length (used en) < 65536"
    using length_used_le [of en] unat_u16_lt [of "index_count en"] by linarith
  have keep: "?m (idx_key k) = m1 (idx_key k)" if k: "50 * k < length (used en)" for k
  proof (rule erase_chunks_other, rule ballI)
    fix d assume d: "d \<in> set [num_chunks (unat (index_count en)) ..< 100]"
    then have "k < d"
      using k length_used_le [of en] by (auto simp: num_chunks_def CHUNK_SIZE_def split: if_splits)
    with d show "idx_key k \<noteq> idx_key d" by (auto dest: idx_key_inj [rotated 2])
  qed
  have fixed: "?m k = m0 k" if "\<And>d. k \<noteq> idx_key d" for k
    using that set_chunks_other [OF set] erase_chunks_other by metis
  have "holds_index ?m en"
    unfolding holds_index_def
    using set_chunks_stored [OF set] len fixed keep by (auto simp: m0_def)
  with st' show ?thesis by blast
qed

section \<open>Loading it back\<close>

lemma length_blit [simp]: "i + length es \<le> length xs \<Longrightarrow> length (blit i es xs) = length xs"
  by (simp add: blit_def)

lemma blit_Nil [simp]: "blit i [] xs = xs"
  by (simp add: blit_def)

lemma blit_blit:
  "i + length es + length fs \<le> length xs \<Longrightarrow>
    blit (i + length es) fs (blit i es xs) = blit i (es @ fs) xs"
  by (simp add: blit_def ac_simps)

lemma load_chunks_stored:
  "n = length es \<Longrightarrow> n = 0 \<or> 50 * c + n \<le> length xs \<Longrightarrow> \<forall>k. env_nvs_get env (idx_key k) \<Longrightarrow>
    \<forall>k. 50 * k < n \<longrightarrow> m (idx_key (c + k)) = Some (Nvs_blob (take 50 (drop (50 * k) es))) \<Longrightarrow>
    load_chunks env m c n xs = (True, blit (50 * c) es xs)"
proof (induction env m c n xs arbitrary: es rule: load_chunks.induct)
  case (1 env m c n xs)
  show ?case
  proof (cases "n = 0")
    case True
    with "1.prems"(1) show ?thesis by (simp add: load_chunks.simps [of env m c] blit_def)
  next
    case False
    let ?hd = "take 50 es" and ?tl = "drop 50 es"
    have m: "m (idx_key c) = Some (Nvs_blob ?hd)" using "1.prems"(4) [rule_format, of 0] False by simp
    have hd: "length ?hd = min n 50" using "1.prems"(1) by simp
    have "load_chunks env m (Suc c) (n - min n 50) (blit (50 * c) ?hd xs) =
        (True, blit (50 * Suc c) ?tl (blit (50 * c) ?hd xs))"
    proof (rule "1.IH" [OF False _ m])
      show "\<forall>k. 50 * k < n - min n 50 \<longrightarrow>
          m (idx_key (Suc c + k)) = Some (Nvs_blob (take 50 (drop (50 * k) ?tl)))"
      proof (intro allI impI)
        fix k
        assume "50 * k < n - min n 50"
        then have "50 * Suc k < n" by (auto simp: min_def split: if_splits)
        with "1.prems"(4) have "m (idx_key (c + Suc k)) =
            Some (Nvs_blob (take 50 (drop (50 * Suc k) es)))" by blast
        then show "m (idx_key (Suc c + k)) = Some (Nvs_blob (take 50 (drop (50 * k) ?tl)))"
          by (simp add: add.commute)
      qed
    qed (use "1.prems" False hd in \<open>auto simp: min_def\<close>)
    also have "blit (50 * Suc c) ?tl (blit (50 * c) ?hd xs) = blit (50 * c) es xs"
    proof (cases "n \<le> 50")
      case True
      then show ?thesis using "1.prems" by simp
    next
      case False
      then show ?thesis
        using blit_blit [of "50 * c" ?hd ?tl xs] "1.prems" by (auto simp: algebra_simps)
    qed
    finally show ?thesis
      using False m hd "1.prems"(3) by (simp add: load_chunks.simps [of env m c n])
  qed
qed

lemma load_holds_index:
  assumes m: "holds_index m en" and opn: "env_nvs_open env" and get: "\<forall>k. env_nvs_get env k"
    and src: "unat (index_count en) \<le> length (idx en)"
    and dst: "index_count en \<le> max_index_entries new"
      "length (idx new) = unat (max_index_entries new)"
  shows "load_index_from_nvs env (Some m) new =
    (STORAGE_OK, new\<lparr>index_count := index_count en, next_file_index := next_file_index en,
       idx := blit 0 (used en) (idx new)\<rparr>)"
proof -
  have n: "unat (index_count en) = length (used en)" using src by (simp add: used_def)
  have "load_chunks env m 0 (unat (index_count en)) (idx new) = (True, blit (50 * 0) (used en) (idx new))"
    using m get dst n by (intro load_chunks_stored) (auto simp: holds_index_def word_le_nat_alt)
  moreover have "\<not> max_index_entries new < index_count en" using dst(1) by simp
  ultimately show ?thesis
    using m opn get by (simp add: load_index_from_nvs_def holds_index_def Let_def)
qed

text \<open>
  Chunks of a shorter index do not pass the size check of a longer one, unless the shorter
  one ends at a chunk boundary.
\<close>

lemma load_chunks_torn:
  "length es < n \<Longrightarrow> length es mod 50 \<noteq> 0 \<Longrightarrow>
    \<forall>k. 50 * k < length es \<longrightarrow> m (idx_key (c + k)) = Some (Nvs_blob (take 50 (drop (50 * k) es))) \<Longrightarrow>
    \<not> fst (load_chunks env m c n xs)"
proof (induction env m c n xs arbitrary: es rule: load_chunks.induct)
  case (1 env m c n xs)
  have m: "m (idx_key c) = Some (Nvs_blob (take 50 es))"
    using "1.prems"(2) "1.prems"(3) [rule_format, of 0] by (cases es) auto
  have n: "n \<noteq> 0" using "1.prems"(1) by simp
  show ?case
  proof (cases "length es < 50 \<or> \<not> env_nvs_get env (idx_key c)")
    case True
    with m n "1.prems"(1) show ?thesis by (auto simp: load_chunks.simps [of env m c n])
  next
    case False
    then have len: "length (take 50 es) = min n 50" and get: "env_nvs_get env (idx_key c)"
      using "1.prems"(1) by auto
    have "\<not> fst (load_chunks env m (Suc c) (n - min n 50) (blit (50 * c) (take 50 es) xs))"
    proof (rule "1.IH" [OF n _ m, where es = "drop 50 es"])
      show "length (drop 50 es) mod 50 \<noteq> 0"
        using False "1.prems"(2) by (simp add: le_mod_geq)
      show "\<forall>k. 50 * k < length (drop 50 es) \<longrightarrow>
          m (idx_key (Suc c + k)) = Some (Nvs_blob (take 50 (drop (50 * k) (drop 50 es))))"
      proof (intro allI impI)
        fix k
        assume "50 * k < length (drop 50 es)"
        then have "50 * Suc k < length es" by auto
        with "1.prems"(3) have "m (idx_key (c + Suc k)) =
            Some (Nvs_blob (take 50 (drop (50 * Suc k) es)))" by blast
        then show "m (idx_key (Suc c + k)) = Some (Nvs_blob (take 50 (drop (50 * k) (drop 50 es))))"
          by (simp add: add.commute)
      qed
    qed (use "1.prems"(1) False len get in auto)
    with m n len get show ?thesis by (simp add: load_chunks.simps [of env m c n])
  qed
qed

section \<open>Round trip\<close>

text \<open>
  The index survives a reboot: what a successful save wrote, a load whose reads
  succeed gives back (the entries in use in their order, the count and the next file index) into
  any engine with room for it, whatever stale chunks an earlier and longer index left behind.
\<close>

lemma index_round_trip:
  assumes "save_index_to_nvs env en st = (STORAGE_OK, st')"
    and "unat (index_count en) \<le> length (idx en)"
    and "env_nvs_open env'" and "\<forall>k. env_nvs_get env' k"
    and "index_count en \<le> max_index_entries new"
    and "length (idx new) = unat (max_index_entries new)"
  shows "\<exists>new'. load_index_from_nvs env' st' new = (STORAGE_OK, new') \<and>
    used new' = used en \<and> index_count new' = index_count en \<and>
    next_file_index new' = next_file_index en"
proof -
  obtain m where st': "st' = Some m" and m: "holds_index m en"
    using save_holds_index [OF assms(1)] by blast
  have "length (used en) = unat (index_count en)" using assms(2) by (simp add: used_def)
  then show ?thesis
    unfolding st' using load_holds_index [OF m assms(3,4,2,5,6)] by (simp add: used_def blit_def)
qed

definition demo_entry :: "nat \<Rightarrow> storage_index_entry" where
  "demo_entry n = zero_entry\<lparr>ie_event_id := replicate 32 (of_nat n), ie_file_index := of_nat n\<rparr>"

text \<open>An engine with \<open>n\<close> entries in an array of 150.\<close>

definition demo_engine :: "nat \<Rightarrow> storage_engine" where
  "demo_engine n = \<lparr>idx = map demo_entry [0 ..< n] @ replicate (150 - n) zero_entry,
     index_count = of_nat n, max_index_entries = 150, next_file_index = of_nat n, se_lock = True,
     cleanup_task = False, initialized = True, cleanup_stop = False, mount_point = ''/littlefs'',
     default_ttl_sec = 1814400\<rparr>"

lemma good_save:
  "\<exists>st'. save_index_to_nvs (good_env t) en st = (STORAGE_OK, st')"
proof -
  have "fst (set_chunks (good_env t) c es m)" for c es m
    by (induction "good_env t" c es m rule: set_chunks.induct)
       (subst set_chunks.simps, simp add: good_env_def)
  then show ?thesis
    by (auto simp: save_index_to_nvs_def good_env_def Let_def split: prod.splits bool.splits option.splits)
       (metis fst_conv)+
qed

end
