(* ===== verification/Storage_Engine.thy ===== *)
theory Storage_Engine
  imports Storage_Nvs
begin

text \<open>
  The operations of \<open>main/storage_engine.c\<close>.  The state is the engine, the event files of
  the flash file system (a map from names to contents) and the NVS namespace.  Each operation
  takes the mutex for its whole body, so a call is one atomic step; its environment record says
  which external calls fail.
\<close>

section \<open>State\<close>

record storage_sys =
  eng :: storage_engine
  files :: "string \<Rightarrow> string option"
  nvs_store :: nvs

text \<open>\<open>uint32_t now = (uint32_t)time (NULL)\<close>\<close>

definition now_of :: "storage_env \<Rightarrow> u32" where
  "now_of env = word_of_int (env_time env)"

definition set_entry :: "nat \<Rightarrow> storage_index_entry \<Rightarrow> storage_sys \<Rightarrow> storage_sys" where
  "set_entry i e s = s\<lparr>eng := (eng s)\<lparr>idx := (idx (eng s))[i := e]\<rparr>\<rparr>"

text \<open>The result of \<open>unlink\<close> is ignored; when it fails the file stays.\<close>

definition unlink_file :: "storage_env \<Rightarrow> string \<Rightarrow> storage_sys \<Rightarrow> storage_sys" where
  "unlink_file env path s = (if env_unlink env path then s\<lparr>files := (files s)(path := None)\<rparr> else s)"

text \<open>The callers ignore the result of \<open>save_index_to_nvs\<close>.\<close>

definition persist :: "storage_env \<Rightarrow> storage_sys \<Rightarrow> storage_sys" where
  "persist env s = s\<lparr>nvs_store := snd (save_index_to_nvs env (eng s) (nvs_store s))\<rparr>"

section \<open>Initialisation\<close>

record init_env =
  in_mutex :: bool
  in_psram :: bool
  in_calloc :: bool
  in_mount :: esp_err

text \<open>The directories that \<open>mkdir\<close> creates are not modelled: file names are flat.\<close>

definition fresh_engine :: "u32 \<Rightarrow> nat \<Rightarrow> storage_engine" where
  "fresh_engine ttl n = \<lparr>idx = replicate n zero_entry, index_count = 0,
     max_index_entries = of_nat n, next_file_index = 0, se_lock = True, cleanup_task = False,
     initialized = False, cleanup_stop = False, mount_point = ''/littlefs'', default_ttl_sec = ttl\<rparr>"

definition storage_init ::
    "init_env \<Rightarrow> storage_env \<Rightarrow> u32 \<Rightarrow> storage_sys \<Rightarrow> esp_err \<times> storage_sys" where
  "storage_init ienv env ttl s =
     (if \<not> in_mutex ienv then (ESP_ERR_NO_MEM, s\<lparr>eng := (fresh_engine ttl 0)\<lparr>se_lock := False\<rparr>\<rparr>)
      else if \<not> in_psram ienv \<and> \<not> in_calloc ienv then
        (ESP_ERR_NO_MEM, s\<lparr>eng := (fresh_engine ttl 0)\<lparr>max_index_entries := 1000\<rparr>\<rparr>)
      else
        let en = fresh_engine ttl (if in_psram ienv then STORAGE_INDEX_ENTRIES else 1000) in
        if in_mount ienv \<noteq> ESP_OK then (in_mount ienv, s\<lparr>eng := en\<rparr>)
        else
          let (err, en) = load_index_from_nvs env (nvs_store s) en;
              en = (if err \<noteq> STORAGE_OK then en\<lparr>index_count := 0, next_file_index := 0\<rparr> else en)
          in (ESP_OK, s\<lparr>eng := en\<lparr>initialized := True\<rparr>\<rparr>))"

text \<open>The wait for the cleanup task to clear its handle is over when the rest runs.\<close>

definition storage_destroy :: "storage_env \<Rightarrow> storage_sys \<Rightarrow> storage_sys" where
  "storage_destroy env s =
     (if \<not> initialized (eng s) then s
      else
        let s = (if cleanup_task (eng s)
                 then s\<lparr>eng := (eng s)\<lparr>cleanup_stop := True, cleanup_task := False\<rparr>\<rparr> else s);
            s = persist env s
        in s\<lparr>eng := (eng s)\<lparr>idx := [], se_lock := False, initialized := False\<rparr>\<rparr>)"

section \<open>Saving an event\<close>

text \<open>
  The expiry time: now plus the default lifetime in 32-bit arithmetic, or an earlier NIP-40
  expiration, which is a signed 64-bit number cut to 32 bits.
\<close>

definition entry_expiry :: "u32 \<Rightarrow> u32 \<Rightarrow> int \<Rightarrow> u32" where
  "entry_expiry now ttl nip40 =
     (let exp = now + ttl in if 0 < nip40 \<and> word_of_int nip40 < exp then word_of_int nip40 else exp)"

definition entry_for ::
    "nostr_lib \<Rightarrow> storage_env \<Rightarrow> storage_engine \<Rightarrow> nostr_event \<Rightarrow> storage_index_entry \<Rightarrow> storage_index_entry" where
  "entry_for lib env en ev e =
     e\<lparr>ie_event_id := ev_id ev, ie_created_at := word_of_int (ev_created_at ev),
       ie_kind := ev_kind ev, ie_pubkey_prefix := take 4 (ev_pubkey ev),
       ie_file_index := next_file_index en, ie_flags := 0,
       ie_expires_at := entry_expiry (now_of env) (default_ttl_sec en) (lib_event_get_expiration lib ev)\<rparr>"

definition storage_save_event ::
    "nostr_lib \<Rightarrow> storage_env \<Rightarrow> nostr_event \<Rightarrow> storage_sys \<Rightarrow> storage_error \<times> storage_sys" where
  "storage_save_event lib env ev s =
     (let en = eng s in
      if \<not> initialized en then (STORAGE_ERR_NOT_INITIALIZED, s)
      else if find_index_entry en (ev_id ev) \<noteq> None then (STORAGE_ERR_DUPLICATE, s)
      else if max_index_entries en \<le> index_count en then (STORAGE_ERR_FULL, s)
      else if \<not> env_malloc env then (STORAGE_ERR_NO_MEM, s)
      else case lib_event_serialize lib ev STORAGE_MAX_EVENT_SIZE of
          None \<Rightarrow> (STORAGE_ERR_SERIALIZE, s)
        | Some json \<Rightarrow>
            let path = get_event_path lib (ev_id ev) (next_file_index en) 128 in
            if \<not> env_fopen1 env \<and> \<not> env_fopen2 env then (STORAGE_ERR_IO, s)
            else
              let written = min (env_written env) (length json);
                  s = s\<lparr>files := (files s)(path \<mapsto> take written json)\<rparr> in
              if written \<noteq> length json then (STORAGE_ERR_IO, unlink_file env path s)
              else
                let i = unat (index_count en);
                    s = set_entry i (entry_for lib env en ev (idx en ! i)) s;
                    s = s\<lparr>eng := (eng s)\<lparr>index_count := index_count en + 1,
                                        next_file_index := next_file_index en + 1\<rparr>\<rparr>;
                    s = (if index_count (eng s) mod 10 = 0 then persist env s else s)
                in (STORAGE_OK, s))"

section \<open>Lookup\<close>

definition storage_event_exists :: "storage_sys \<Rightarrow> u8 list \<Rightarrow> bool" where
  "storage_event_exists s event_id =
     (if \<not> initialized (eng s) then False else find_index_entry (eng s) event_id \<noteq> None)"

text \<open>What a readable file parses to; the size check comes before the read.\<close>

definition parse_file :: "nostr_lib \<Rightarrow> string option \<Rightarrow> nostr_event option" where
  "parse_file lib content =
     (case content of
        None \<Rightarrow> None
      | Some json \<Rightarrow>
          if length json = 0 \<or> STORAGE_MAX_EVENT_SIZE < length json then None
          else lib_event_parse lib json)"

definition load_event_from_file ::
    "nostr_lib \<Rightarrow> storage_env \<Rightarrow> string \<Rightarrow> storage_sys \<Rightarrow> nostr_event option" where
  "load_event_from_file lib env path s =
     (if env_read env path then parse_file lib (files s path) else None)"

definition storage_get_event ::
    "nostr_lib \<Rightarrow> storage_env \<Rightarrow> u8 list \<Rightarrow> storage_sys \<Rightarrow> nostr_event option" where
  "storage_get_event lib env event_id s =
     (if \<not> initialized (eng s) then None
      else case find_index_entry (eng s) event_id of
          None \<Rightarrow> None
        | Some i \<Rightarrow> load_event_from_file lib env (entry_path lib (idx (eng s) ! i)) s)"

section \<open>Expiry, deletion, compaction\<close>

definition mark_entry_expired :: "nostr_lib \<Rightarrow> storage_env \<Rightarrow> nat \<Rightarrow> storage_sys \<Rightarrow> storage_sys" where
  "mark_entry_expired lib env i s =
     (let e = idx (eng s) ! i
      in set_entry i (set_deleted e) (unlink_file env (entry_path lib e) s))"

definition storage_delete_event ::
    "nostr_lib \<Rightarrow> storage_env \<Rightarrow> u8 list \<Rightarrow> storage_sys \<Rightarrow> storage_error \<times> storage_sys" where
  "storage_delete_event lib env event_id s =
     (if \<not> initialized (eng s) then (STORAGE_ERR_NOT_INITIALIZED, s)
      else case find_index_entry (eng s) event_id of
          None \<Rightarrow> (STORAGE_ERR_NOT_FOUND, s)
        | Some i \<Rightarrow>
            let e = idx (eng s) ! i;
                s = unlink_file env (entry_path lib e) s;
                s = set_entry i (set_deleted e) s
            in (STORAGE_OK, persist env s))"

fun purge_loop ::
    "nostr_lib \<Rightarrow> storage_env \<Rightarrow> u32 \<Rightarrow> nat list \<Rightarrow> storage_sys \<Rightarrow> int \<Rightarrow> storage_sys \<times> int" where
  "purge_loop lib env now [] s purged = (s, purged)"
| "purge_loop lib env now (i # is) s purged =
     (let e = idx (eng s) ! i in
      if deleted e then purge_loop lib env now is s purged
      else if expired now e then purge_loop lib env now is (mark_entry_expired lib env i s) (purged + 1)
      else purge_loop lib env now is s purged)"

definition storage_purge_expired ::
    "nostr_lib \<Rightarrow> storage_env \<Rightarrow> storage_sys \<Rightarrow> int \<times> storage_sys" where
  "storage_purge_expired lib env s =
     (if \<not> initialized (eng s) then (0, s)
      else
        let (s, purged) = purge_loop lib env (now_of env) [0 ..< unat (index_count (eng s))] s 0;
            s = (if 0 < purged then persist env s else s)
        in (purged, s))"

text \<open>In place: the entry at the read index moves down to the write index.\<close>

fun compact_loop ::
    "nat list \<Rightarrow> storage_index_entry list \<Rightarrow> nat \<Rightarrow> int \<Rightarrow> storage_index_entry list \<times> nat \<times> int" where
  "compact_loop [] xs w compacted = (xs, w, compacted)"
| "compact_loop (r # rs) xs w compacted =
     (if \<not> deleted (xs ! r)
      then compact_loop rs (if w \<noteq> r then xs[w := xs ! r] else xs) (w + 1) compacted
      else compact_loop rs xs w (compacted + 1))"

definition storage_compact_index :: "storage_env \<Rightarrow> storage_sys \<Rightarrow> int \<times> storage_sys" where
  "storage_compact_index env s =
     (if \<not> initialized (eng s) then (0, s)
      else
        let (xs, w, compacted) = compact_loop [0 ..< unat (index_count (eng s))] (idx (eng s)) 0 0;
            s = s\<lparr>eng := (eng s)\<lparr>idx := xs\<rparr>\<rparr>;
            s = (if 0 < compacted
                 then persist env (s\<lparr>eng := (eng s)\<lparr>index_count := of_nat w\<rparr>\<rparr>) else s)
        in (compacted, s))"

section \<open>Queries\<close>

text \<open>
  \<open>for (i = index_count - 1; i >= 0 && *count < limit; i--)\<close>: the first argument is
  \<open>i + 1\<close>, the list is the result array so far.
\<close>

fun query_loop ::
    "nostr_lib \<Rightarrow> storage_env \<Rightarrow> nostr_filter \<Rightarrow> nat \<Rightarrow> u32 \<Rightarrow> nat \<Rightarrow> storage_sys \<Rightarrow> nostr_event list \<Rightarrow>
     nostr_event list \<times> storage_sys" where
  "query_loop lib env f limit now 0 s acc = (acc, s)"
| "query_loop lib env f limit now (Suc i) s acc =
     (if \<not> length acc < limit then (acc, s)
      else
        let e = idx (eng s) ! i in
        if deleted e then query_loop lib env f limit now i s acc
        else if expired now e then query_loop lib env f limit now i (mark_entry_expired lib env i s) acc
        else if \<not> index_matches_filter lib e f then query_loop lib env f limit now i s acc
        else case load_event_from_file lib env (entry_path lib e) s of
            None \<Rightarrow> query_loop lib env f limit now i s acc
          | Some ev \<Rightarrow>
              if lib_filter_matches lib f ev then query_loop lib env f limit now i s (acc @ [ev])
              else query_loop lib env f limit now i s acc)"

definition storage_query_events ::
    "nostr_lib \<Rightarrow> storage_env \<Rightarrow> nostr_filter \<Rightarrow> u16 \<Rightarrow> storage_sys \<Rightarrow>
     (storage_error \<times> nostr_event list) \<times> storage_sys" where
  "storage_query_events lib env f limit s =
     (if \<not> initialized (eng s) then ((STORAGE_ERR_NOT_INITIALIZED, []), s)
      else
        let limit = (if 500 < limit then 500 else limit) in
        if \<not> env_malloc env then ((STORAGE_ERR_NO_MEM, []), s)
        else
          let (evs, s) = query_loop lib env f (unat limit) (now_of env) (unat (index_count (eng s))) s []
          in ((STORAGE_OK, evs), s))"

section \<open>Statistics\<close>

fun stats_loop :: "u32 \<Rightarrow> storage_index_entry list \<Rightarrow> storage_stats \<Rightarrow> storage_stats" where
  "stats_loop now [] st = st"
| "stats_loop now (e # es) st =
     (if deleted e then stats_loop now es st
      else if expired now e then stats_loop now es st
      else
        let st = st\<lparr>total_events := total_events st + 1\<rparr>;
            st = (if ie_created_at e < oldest_event_ts st
                  then st\<lparr>oldest_event_ts := ie_created_at e\<rparr> else st);
            st = (if newest_event_ts st < ie_created_at e
                  then st\<lparr>newest_event_ts := ie_created_at e\<rparr> else st)
        in stats_loop now es st)"

definition storage_get_stats :: "storage_env \<Rightarrow> storage_sys \<Rightarrow> storage_stats" where
  "storage_get_stats env s =
     (let st = \<lparr>total_events = 0, total_bytes = 0, free_bytes = 0, oldest_event_ts = 0,
                newest_event_ts = 0\<rparr> in
      if \<not> initialized (eng s) then st
      else
        let st = stats_loop (now_of env) (used (eng s)) (st\<lparr>oldest_event_ts := -1\<rparr>);
            st = (if total_events st = 0 then st\<lparr>oldest_event_ts := 0\<rparr> else st)
        in st\<lparr>total_bytes := of_nat (env_fs_total env),
              free_bytes := of_nat (env_fs_total env) - of_nat (env_fs_used env)\<rparr>)"

section \<open>The cleanup task\<close>

text \<open>
  One round of \<open>storage_cleanup_task\<close> after its minute of waiting: the argument and the
  result carry \<open>cycles_since_compact\<close>; two environments, one per storage call.
\<close>

definition cleanup_cycle ::
    "nostr_lib \<Rightarrow> storage_env \<Rightarrow> storage_env \<Rightarrow> int \<times> storage_sys \<Rightarrow> int \<times> storage_sys" where
  "cleanup_cycle lib env1 env2 st =
     (let (cycles, s) = st in
      if cleanup_stop (eng s) then (cycles, s)
      else
        let s = snd (storage_purge_expired lib env1 s); cycles = cycles + 1 in
        if 10 \<le> cycles then (0, snd (storage_compact_index env2 s)) else (cycles, s))"

definition storage_start_cleanup_task :: "bool \<Rightarrow> storage_sys \<Rightarrow> esp_err \<times> storage_sys" where
  "storage_start_cleanup_task created s =
     (let s = s\<lparr>eng := (eng s)\<lparr>cleanup_stop := False\<rparr>\<rparr> in
      if \<not> created then (ESP_ERR_NO_MEM, s\<lparr>eng := (eng s)\<lparr>cleanup_task := False\<rparr>\<rparr>)
      else (ESP_OK, s\<lparr>eng := (eng s)\<lparr>cleanup_task := True\<rparr>\<rparr>))"

end
