(* ===== verification/Storage_Spec.thy ===== *)
theory Storage_Spec
  imports Storage_Engine
begin

text \<open>
  The storage engine as a log.  The abstract state is the list of stored events in the order
  they were saved, each with its index entry and with what its file parses to: saving appends,
  deleting and expiring filter, compaction changes nothing, a query reads the log from the
  newest end.  This theory proves that every operation implements the log and keeps the
  invariant that ties index and files together.
\<close>

section \<open>The log and the invariant\<close>

definition live :: "storage_engine \<Rightarrow> storage_index_entry list" where
  "live en = filter (\<lambda>e. \<not> deleted e) (used en)"

definition file_event :: "nostr_lib \<Rightarrow> storage_sys \<Rightarrow> storage_index_entry \<Rightarrow> nostr_event option" where
  "file_event lib s e = parse_file lib (files s (entry_path lib e))"

type_synonym log = "(storage_index_entry \<times> nostr_event option) list"

definition stored :: "nostr_lib \<Rightarrow> storage_sys \<Rightarrow> log" where
  "stored lib s = map (\<lambda>e. (e, file_event lib s e)) (live (eng s))"

abbreviation log_id :: "storage_index_entry \<times> nostr_event option \<Rightarrow> u8 list" where
  "log_id x \<equiv> ie_event_id (fst x)"

text \<open>An index entry describes an event.\<close>

definition describes :: "storage_index_entry \<Rightarrow> nostr_event \<Rightarrow> bool" where
  "describes e ev \<longleftrightarrow>
     ie_event_id e = ev_id ev \<and> ie_created_at e = word_of_int (ev_created_at ev) \<and>
     ie_kind e = ev_kind ev \<and> ie_pubkey_prefix e = take 4 (ev_pubkey ev)"

definition st_inv :: "nostr_lib \<Rightarrow> storage_sys \<Rightarrow> bool" where
  "st_inv lib s \<longleftrightarrow>
     length (idx (eng s)) = unat (max_index_entries (eng s)) \<and>
     index_count (eng s) \<le> max_index_entries (eng s) \<and>
     sorted_wrt (<) (map ie_file_index (used (eng s))) \<and>
     (\<forall>e \<in> set (used (eng s)). ie_file_index e < next_file_index (eng s) \<and> length (ie_event_id e) = 32) \<and>
     distinct (map ie_event_id (live (eng s))) \<and>
     (\<forall>e \<in> set (live (eng s)). \<forall>ev. file_event lib s e = Some ev \<longrightarrow> describes e ev)"

lemma inv_count:
  "st_inv lib s \<Longrightarrow> unat (index_count (eng s)) \<le> length (idx (eng s))"
  "st_inv lib s \<Longrightarrow> length (used (eng s)) = unat (index_count (eng s))"
  by (simp_all add: st_inv_def used_def word_le_nat_alt)

lemma nth_used: "i < unat (index_count en) \<Longrightarrow> used en ! i = idx en ! i"
  by (simp add: used_def)

lemma inv_log_distinct: "st_inv lib s \<Longrightarrow> distinct (map log_id (stored lib s))"
  by (simp add: st_inv_def stored_def comp_def)

text \<open>Different entries in use have different files.\<close>

lemma inv_paths:
  assumes inv: "st_inv lib s" and lib: "hex_lengths lib"
    and ij: "i < length (used (eng s))" "j < length (used (eng s))" "i \<noteq> j"
  shows "entry_path lib (used (eng s) ! i) \<noteq> entry_path lib (used (eng s) ! j)"
proof -
  have "ie_file_index (used (eng s) ! i) \<noteq> ie_file_index (used (eng s) ! j)"
    using inv ij sorted_wrt_nth_less [of "(<)" "map ie_file_index (used (eng s))"]
    by (auto simp: st_inv_def neq_iff)
  moreover have "length (ie_event_id (used (eng s) ! k)) = 32" if "k < length (used (eng s))" for k
    using inv that by (simp add: st_inv_def)
  ultimately show ?thesis
    using get_event_path_inj [OF lib] ij unfolding entry_path_def by blast
qed

section \<open>Finding an entry\<close>

lemma find_SomeD:
  assumes "find_index_entry (eng s) event_id = Some i" and "st_inv lib s"
  shows "i < unat (index_count (eng s))" and "\<not> deleted (idx (eng s) ! i)"
    and "ie_event_id (idx (eng s) ! i) = event_id"
  using find_slot_SomeD [OF assms(1) [unfolded find_index_entry_def]] inv_count [OF assms(2)]
  by (auto simp: nth_used)

lemma find_None_iff:
  "find_index_entry (eng s) event_id = None \<longleftrightarrow> event_id \<notin> log_id ` set (stored lib s)"
  by (auto simp: find_index_entry_def find_slot_None stored_def live_def image_iff)

section \<open>Marking an entry deleted\<close>

lemma used_set_entry:
  "used (eng (set_entry i e s)) = (used (eng s))[i := e]"
  by (simp add: set_entry_def used_def take_update_swap)

lemma eng_unlink [simp]: "eng (unlink_file env p s) = eng s"
  by (simp add: unlink_file_def)

lemma nvs_unlink [simp]: "nvs_store (unlink_file env p s) = nvs_store s"
  by (simp add: unlink_file_def)

lemma files_unlink_other: "p \<noteq> q \<Longrightarrow> files (unlink_file env p s) q = files s q"
  by (simp add: unlink_file_def)

lemma files_set_entry [simp]: "files (set_entry i e s) = files s"
  by (simp add: set_entry_def)

lemma mark_eng:
  "eng (mark_entry_expired lib env i s) =
    (eng s)\<lparr>idx := (idx (eng s))[i := set_deleted (idx (eng s) ! i)]\<rparr>"
  by (simp add: mark_entry_expired_def Let_def set_entry_def)

lemma mark_file_other:
  "entry_path lib e \<noteq> entry_path lib (idx (eng s) ! i) \<Longrightarrow>
    files (mark_entry_expired lib env i s) (entry_path lib e) = files s (entry_path lib e)"
  by (simp add: mark_entry_expired_def Let_def files_unlink_other)

lemma mark_step:
  fixes env :: storage_env
  assumes inv: "st_inv lib s" and lib: "hex_lengths lib"
    and i: "i < unat (index_count (eng s))" "\<not> deleted (idx (eng s) ! i)"
  defines "s' \<equiv> mark_entry_expired lib env i s"
  shows "st_inv lib s' \<and>
    stored lib s' = filter (\<lambda>x. log_id x \<noteq> ie_event_id (idx (eng s) ! i)) (stored lib s)"
proof -
  let ?e = "idx (eng s) ! i"
  have len: "i < length (used (eng s))" and e: "used (eng s) ! i = ?e"
    using inv_count [OF inv] i(1) by (auto simp: nth_used)
  have used': "used (eng s') = (used (eng s))[i := set_deleted ?e]"
    unfolding s'_def mark_entry_expired_def Let_def used_set_entry by simp
  have dist: "distinct (map ie_event_id (filter (\<lambda>e. \<not> deleted e) (used (eng s))))"
    using inv by (simp add: st_inv_def live_def)
  have live': "live (eng s') = filter (\<lambda>e'. ie_event_id e' \<noteq> ie_event_id ?e) (live (eng s))"
    using filter_update_out [OF dist len, of "set_deleted ?e"] i e by (simp add: live_def used')
  have other: "file_event lib s' e' = file_event lib s e'" if live: "e' \<in> set (live (eng s'))" for e'
  proof -
    from live [unfolded live'] have e': "e' \<in> set (used (eng s))" "ie_event_id e' \<noteq> ie_event_id ?e"
      by (auto simp: live_def)
    then obtain j where "j < length (used (eng s))" "used (eng s) ! j = e'" "j \<noteq> i"
      using e by (metis in_set_conv_nth)
    then have "entry_path lib e' \<noteq> entry_path lib ?e"
      using inv_paths [OF inv lib _ len] e by metis
    then show ?thesis by (simp add: file_event_def s'_def mark_file_other)
  qed
  have files: "map ie_file_index (used (eng s')) = map ie_file_index (used (eng s))"
    using len e by (simp add: used' map_update list_update_same_conv)
  have "set (used (eng s')) \<subseteq> insert (set_deleted ?e) (set (used (eng s)))"
    unfolding used' by (rule set_update_subset_insert)
  moreover have "?e \<in> set (used (eng s))" using len e by (metis nth_mem)
  ultimately have "\<forall>e \<in> set (used (eng s')). ie_file_index e < next_file_index (eng s') \<and>
      length (ie_event_id e) = 32"
    using inv by (auto simp: st_inv_def s'_def mark_eng)
  moreover have "distinct (map ie_event_id (live (eng s')))"
    using inv unfolding live' by (auto simp: st_inv_def distinct_map inj_on_def)
  moreover have "\<forall>e \<in> set (live (eng s')). \<forall>ev. file_event lib s' e = Some ev \<longrightarrow> describes e ev"
    using inv other by (auto simp: live' st_inv_def)
  moreover have "length (idx (eng s')) = unat (max_index_entries (eng s')) \<and>
      index_count (eng s') \<le> max_index_entries (eng s')"
    using inv by (auto simp: s'_def mark_eng st_inv_def)
  moreover have "stored lib s' = filter (\<lambda>x. log_id x \<noteq> ie_event_id ?e) (stored lib s)"
    using other by (simp add: stored_def live' filter_map comp_def)
  ultimately show ?thesis using inv files by (simp add: st_inv_def)
qed

section \<open>Persisting changes nothing in the log\<close>

lemma persist_frame [simp]:
  "eng (persist env s) = eng s" "files (persist env s) = files s"
  by (simp_all add: persist_def)

lemma persist_step [simp]:
  "st_inv lib (persist env s) = st_inv lib s" "stored lib (persist env s) = stored lib s"
  by (simp_all add: st_inv_def stored_def file_event_def)

section \<open>Deletion\<close>

lemma delete_step:
  assumes inv: "st_inv lib s" and lib: "hex_lengths lib" and ini: "initialized (eng s)"
    and del: "storage_delete_event lib env event_id s = (r, s')"
  shows "st_inv lib s' \<and> initialized (eng s') \<and>
    stored lib s' = filter (\<lambda>x. log_id x \<noteq> event_id) (stored lib s) \<and>
    r = (if event_id \<in> log_id ` set (stored lib s) then STORAGE_OK else STORAGE_ERR_NOT_FOUND)"
proof (cases "find_index_entry (eng s) event_id")
  case None
  then have "event_id \<notin> log_id ` set (stored lib s)" by (simp add: find_None_iff [of _ _ lib])
  then have "filter (\<lambda>x. log_id x \<noteq> event_id) (stored lib s) = stored lib s"
    by (auto intro!: filter_True)
  with None del inv ini \<open>event_id \<notin> _\<close> show ?thesis by (simp add: storage_delete_event_def)
next
  case (Some i)
  note i = find_SomeD [OF Some inv]
  have in_log: "event_id \<in> log_id ` set (stored lib s)"
    using Some find_None_iff [of s event_id lib] by auto
  have "s' = persist env (mark_entry_expired lib env i s)" "r = STORAGE_OK"
    using del Some ini by (auto simp: storage_delete_event_def mark_entry_expired_def Let_def)
  with mark_step [OF inv lib i(1,2), of env] i(3) in_log ini show ?thesis
    by (simp add: mark_eng)
qed

section \<open>Saving\<close>

text \<open>Documented behaviour of the event codec, for one event: what is written parses back.\<close>

definition codec_ok :: "nostr_lib \<Rightarrow> nostr_event \<Rightarrow> bool" where
  "codec_ok lib ev \<longleftrightarrow>
     (case lib_event_serialize lib ev STORAGE_MAX_EVENT_SIZE of
        None \<Rightarrow> True
      | Some json \<Rightarrow> json \<noteq> [] \<and> length json \<le> STORAGE_MAX_EVENT_SIZE \<and> lib_event_parse lib json = Some ev)"

text \<open>Files outside the index may change freely.\<close>

lemma files_step:
  assumes inv: "st_inv lib s"
    and same: "\<And>e. e \<in> set (live (eng s)) \<Longrightarrow> fs (entry_path lib e) = files s (entry_path lib e)"
  shows "st_inv lib (s\<lparr>files := fs\<rparr>) \<and> stored lib (s\<lparr>files := fs\<rparr>) = stored lib s"
proof -
  have "file_event lib (s\<lparr>files := fs\<rparr>) e = file_event lib s e" if "e \<in> set (live (eng s))" for e
    using same [OF that] by (simp add: file_event_def)
  with inv show ?thesis by (auto simp: st_inv_def stored_def)
qed

lemma new_path:
  assumes inv: "st_inv lib s" and lib: "hex_lengths lib" and ident: "length ident = 32"
    and e: "e \<in> set (live (eng s))"
  shows "entry_path lib e \<noteq> get_event_path lib ident (next_file_index (eng s)) 128"
proof
  assume eq: "entry_path lib e = get_event_path lib ident (next_file_index (eng s)) 128"
  have "ie_file_index e < next_file_index (eng s)" "length (ie_event_id e) = 32"
    using inv e by (auto simp: st_inv_def live_def)
  with get_event_path_inj [OF lib _ ident eq [unfolded entry_path_def]] show False by simp
qed

text \<open>The entry of a new event goes to the first unused slot.\<close>

definition push_entry :: "storage_index_entry \<Rightarrow> storage_sys \<Rightarrow> storage_sys" where
  "push_entry e s =
     (let s' = set_entry (unat (index_count (eng s))) e s
      in s'\<lparr>eng := (eng s')\<lparr>index_count := index_count (eng s) + 1,
                            next_file_index := next_file_index (eng s) + 1\<rparr>\<rparr>)"

lemma push_used:
  assumes "st_inv lib s" and "index_count (eng s) < max_index_entries (eng s)"
  shows "used (eng (push_entry e s)) = used (eng s) @ [e]"
proof -
  have "unat (index_count (eng s)) < length (idx (eng s))"
    using assms by (simp add: st_inv_def word_less_nat_alt)
  then show ?thesis
    using unat_inc [OF assms(2)]
    by (simp add: push_entry_def Let_def set_entry_def used_def take_Suc_conv_app_nth)
qed

lemma push_step:
  assumes inv: "st_inv lib s" and room: "index_count (eng s) < max_index_entries (eng s)"
    and fresh: "ie_event_id e \<notin> log_id ` set (stored lib s)"
    and e: "\<not> deleted e" "ie_file_index e = next_file_index (eng s)" "length (ie_event_id e) = 32"
      "file_event lib s e = Some ev" "describes e ev"
    and nowrap: "next_file_index (eng s) \<noteq> -1"
  shows "st_inv lib (push_entry e s) \<and> stored lib (push_entry e s) = stored lib s @ [(e, Some ev)]"
proof -
  let ?s = "push_entry e s"
  have used: "used (eng ?s) = used (eng s) @ [e]" using inv room by (rule push_used)
  then have live: "live (eng ?s) = live (eng s) @ [e]" using e(1) by (simp add: live_def)
  have files: "file_event lib ?s = file_event lib s"
    by (auto simp: file_event_def push_entry_def Let_def)
  have "next_file_index (eng s) < -1" using nowrap by (simp add: order.not_eq_order_implies_strict)
  then have nxt: "next_file_index (eng s) < next_file_index (eng s) + 1"
    using unat_inc by (metis less_add_one word_less_nat_alt)
  have eng: "length (idx (eng ?s)) = length (idx (eng s))"
      "max_index_entries (eng ?s) = max_index_entries (eng s)"
      "index_count (eng ?s) = index_count (eng s) + 1" "next_file_index (eng ?s) = next_file_index (eng s) + 1"
    by (simp_all add: push_entry_def Let_def set_entry_def)
  have "index_count (eng ?s) \<le> max_index_entries (eng ?s)"
    using room by (simp add: eng inc_le)
  moreover have "\<forall>x \<in> set (used (eng ?s)). ie_file_index x < next_file_index (eng ?s) \<and> length (ie_event_id x) = 32"
    using inv e nxt unfolding used eng by (auto simp: st_inv_def intro: less_trans)
  moreover have "sorted_wrt (<) (map ie_file_index (used (eng ?s)))"
    using inv e unfolding used by (auto simp: st_inv_def sorted_wrt_append)
  moreover have "distinct (map ie_event_id (live (eng ?s)))"
    using inv fresh by (auto simp: live st_inv_def stored_def image_iff)
  moreover have "\<forall>x \<in> set (live (eng ?s)). \<forall>ev. file_event lib ?s x = Some ev \<longrightarrow> describes x ev"
    using inv e unfolding live files by (auto simp: st_inv_def)
  ultimately show ?thesis
    using inv e(4) by (simp add: st_inv_def stored_def live files eng)
qed

text \<open>What a call of \<open>storage_save_event\<close> does to the state, by its result.\<close>

lemma save_failed:
  assumes "storage_save_event lib env ev s = (r, s')" and "r \<noteq> STORAGE_OK"
  obtains fs where "s' = s\<lparr>files := fs\<rparr>"
    and "\<forall>q. q \<noteq> get_event_path lib (ev_id ev) (next_file_index (eng s)) 128 \<longrightarrow> fs q = files s q"
proof -
  let ?p = "get_event_path lib (ev_id ev) (next_file_index (eng s)) 128"
  have "\<exists>fs. s' = s\<lparr>files := fs\<rparr> \<and> (\<forall>q. q \<noteq> ?p \<longrightarrow> fs q = files s q)"
    using assms
    by (auto simp: storage_save_event_def Let_def unlink_file_def split: if_splits option.splits
          intro: exI [of _ "files s"])
  then show thesis using that by blast
qed

lemma save_stored:
  assumes "storage_save_event lib env ev s = (STORAGE_OK, s')"
  obtains json where "lib_event_serialize lib ev STORAGE_MAX_EVENT_SIZE = Some json"
    and "find_index_entry (eng s) (ev_id ev) = None"
    and "index_count (eng s) < max_index_entries (eng s)"
    and "s' = (let t = push_entry (entry_for lib env (eng s) ev (idx (eng s) ! unat (index_count (eng s))))
            (s\<lparr>files := (files s)(get_event_path lib (ev_id ev) (next_file_index (eng s)) 128 \<mapsto> json)\<rparr>)
          in if index_count (eng t) mod 10 = 0 then persist env t else t)"
  using assms
  by (auto simp: storage_save_event_def push_entry_def set_entry_def Let_def min_def not_le
        split: if_splits option.splits)

lemma save_step:
  assumes inv: "st_inv lib s" and lib: "hex_lengths lib" and ini: "initialized (eng s)"
    and codec: "codec_ok lib ev" and ident: "length (ev_id ev) = 32"
    and nowrap: "next_file_index (eng s) \<noteq> -1"
    and save: "storage_save_event lib env ev s = (r, s')"
  shows "st_inv lib s' \<and> initialized (eng s') \<and>
    stored lib s' = stored lib s @
      (if r = STORAGE_OK then [(entry_for lib env (eng s) ev (idx (eng s) ! unat (index_count (eng s))), Some ev)]
       else [])"
proof (cases "r = STORAGE_OK")
  case False
  let ?p = "get_event_path lib (ev_id ev) (next_file_index (eng s)) 128"
  obtain fs where "s' = s\<lparr>files := fs\<rparr>" "\<forall>q. q \<noteq> ?p \<longrightarrow> fs q = files s q"
    using save_failed [OF save False] .
  with files_step [OF inv, of fs] new_path [OF inv lib ident] ini False show ?thesis by auto
next
  case True
  let ?e = "entry_for lib env (eng s) ev (idx (eng s) ! unat (index_count (eng s)))"
  let ?p = "get_event_path lib (ev_id ev) (next_file_index (eng s)) 128"
  obtain json where json: "lib_event_serialize lib ev STORAGE_MAX_EVENT_SIZE = Some json"
    and new: "find_index_entry (eng s) (ev_id ev) = None"
    and room: "index_count (eng s) < max_index_entries (eng s)"
    and s': "s' = (let t = push_entry ?e (s\<lparr>files := (files s)(?p \<mapsto> json)\<rparr>)
                   in if index_count (eng t) mod 10 = 0 then persist env t else t)"
    using save_stored [OF save [unfolded True]] .
  let ?s1 = "s\<lparr>files := (files s)(?p \<mapsto> json)\<rparr>"
  have s1: "st_inv lib ?s1 \<and> stored lib ?s1 = stored lib s"
    using new_path [OF inv lib ident] by (intro files_step [OF inv]) simp
  have path: "entry_path lib ?e = ?p" by (simp add: entry_path_def entry_for_def)
  have "file_event lib ?s1 ?e = Some ev"
    using codec json by (simp add: file_event_def path parse_file_def codec_ok_def)
  then have "st_inv lib (push_entry ?e ?s1) \<and> stored lib (push_entry ?e ?s1) = stored lib s @ [(?e, Some ev)]"
    using s1 room new ident nowrap push_step [of lib ?s1 ?e ev]
    by (simp add: find_None_iff [of _ _ lib] entry_for_def describes_def)
  then show ?thesis
    using True ini by (simp add: s' Let_def push_entry_def set_entry_def)
qed

section \<open>Expiry\<close>

text \<open>The live, expired entries at the given positions.\<close>

definition expired_at :: "u32 \<Rightarrow> nat list \<Rightarrow> storage_engine \<Rightarrow> storage_index_entry set" where
  "expired_at now is en = {e. \<exists>i \<in> set is. idx en ! i = e \<and> \<not> deleted e \<and> expired now e}"

lemma log_distinct_eq:
  assumes "st_inv lib s" and "x \<in> set (stored lib s)" and "y \<in> set (stored lib s)" and "log_id x = log_id y"
  shows "x = y"
  using inv_log_distinct [OF assms(1)] assms(2-4) by (auto simp: distinct_map inj_on_def)

lemma live_in_log:
  assumes "st_inv lib s" and "i < unat (index_count (eng s))" and "\<not> deleted (idx (eng s) ! i)"
  shows "(idx (eng s) ! i, file_event lib s (idx (eng s) ! i)) \<in> set (stored lib s)"
proof -
  have "used (eng s) ! i \<in> set (used (eng s))"
    using assms(2) inv_count [OF assms(1)] by simp
  then show ?thesis using assms(2,3) by (auto simp: stored_def live_def nth_used)
qed

lemma expired_at_mark:
  assumes "i \<notin> set is"
  shows "expired_at now is (eng (mark_entry_expired lib env i s)) = expired_at now is (eng s)"
proof -
  have "\<forall>j \<in> set is. idx (eng (mark_entry_expired lib env i s)) ! j = idx (eng s) ! j"
    using assms by (auto simp: mark_eng intro!: nth_list_update_neq)
  then show ?thesis by (auto simp: expired_at_def)
qed

text \<open>Marking one expired entry and then filtering the others.\<close>

lemma mark_filter:
  assumes inv: "st_inv lib s" and lib: "hex_lengths lib"
    and i: "i < unat (index_count (eng s))" "\<not> deleted (idx (eng s) ! i)"
  shows "filter (\<lambda>x. fst x \<notin> X) (stored lib (mark_entry_expired lib env i s)) =
    filter (\<lambda>x. fst x \<notin> insert (idx (eng s) ! i) X) (stored lib s)"
proof -
  have "filter (\<lambda>x. log_id x \<noteq> ie_event_id (idx (eng s) ! i)) (stored lib s) =
      filter (\<lambda>x. fst x \<noteq> idx (eng s) ! i) (stored lib s)"
  proof (rule filter_cong [OF refl])
    fix x assume x: "x \<in> set (stored lib s)"
    show "(log_id x \<noteq> ie_event_id (idx (eng s) ! i)) = (fst x \<noteq> idx (eng s) ! i)"
      using log_distinct_eq [OF inv x live_in_log [OF inv i]] by auto
  qed
  then show ?thesis
    using mark_step [OF inv lib i, of env] by (simp add: conj_commute)
qed

lemma mark_frame [simp]:
  "index_count (eng (mark_entry_expired lib env i s)) = index_count (eng s)"
  "max_index_entries (eng (mark_entry_expired lib env i s)) = max_index_entries (eng s)"
  "next_file_index (eng (mark_entry_expired lib env i s)) = next_file_index (eng s)"
  "initialized (eng (mark_entry_expired lib env i s)) = initialized (eng s)"
  by (simp_all add: mark_eng)

lemma purge_loop_step:
  assumes "st_inv lib s" and "hex_lengths lib" and "distinct is"
    and "\<forall>i \<in> set is. i < unat (index_count (eng s))"
    and "purge_loop lib env now is s p = (s', p')"
  shows "st_inv lib s' \<and> initialized (eng s') = initialized (eng s) \<and>
    stored lib s' = filter (\<lambda>x. fst x \<notin> expired_at now is (eng s)) (stored lib s) \<and>
    p' = p + int (length (stored lib s)) - int (length (stored lib s'))"
  using assms
proof (induction "is" arbitrary: s p)
  case Nil
  then show ?case by (simp add: expired_at_def)
next
  case (Cons i "is")
  let ?e = "idx (eng s) ! i"
  show ?case
  proof (cases "deleted ?e \<or> \<not> expired now ?e")
    case True
    then have "expired_at now (i # is) (eng s) = expired_at now is (eng s)"
      by (auto simp: expired_at_def)
    moreover have loop: "purge_loop lib env now is s p = (s', p')"
      using Cons.prems(5) True by (auto simp: Let_def split: if_splits)
    ultimately show ?thesis using Cons.IH [OF Cons.prems(1,2) _ _ loop] Cons.prems(3,4) by simp
  next
    case False
    let ?s1 = "mark_entry_expired lib env i s"
    have i: "i < unat (index_count (eng s))" "\<not> deleted ?e" using Cons.prems False by auto
    have loop: "purge_loop lib env now is ?s1 (p + 1) = (s', p')"
      using Cons.prems(5) False by (simp add: Let_def)
    note m = mark_step [OF Cons.prems(1,2) i, of env]
    have IH: "st_inv lib s' \<and> initialized (eng s') = initialized (eng s) \<and>
        stored lib s' = filter (\<lambda>x. fst x \<notin> expired_at now is (eng s)) (stored lib ?s1) \<and>
        p' = p + 1 + int (length (stored lib ?s1)) - int (length (stored lib s'))"
      using Cons.IH [OF _ Cons.prems(2) _ _ loop] m Cons.prems by (simp add: expired_at_mark)
    have "insert ?e (expired_at now is (eng s)) = expired_at now (i # is) (eng s)"
      using False by (auto simp: expired_at_def)
    then have log: "stored lib s' = filter (\<lambda>x. fst x \<notin> expired_at now (i # is) (eng s)) (stored lib s)"
      using IH mark_filter [OF Cons.prems(1,2) i] by simp
    have "length (stored lib ?s1) + 1 = length (stored lib s)"
    proof -
      have "length (filter (\<lambda>x. log_id x = ie_event_id ?e) (stored lib s)) = 1"
      proof -
        have "filter (\<lambda>x. log_id x = ie_event_id ?e) (stored lib s) = [(?e, file_event lib s ?e)]"
          using inv_log_distinct [OF Cons.prems(1)] live_in_log [OF Cons.prems(1) i] log_distinct_eq [OF Cons.prems(1)]
          by (intro filter_unique) auto
        then show ?thesis by simp
      qed
      then show ?thesis
        using m sum_length_filter_compl [of "\<lambda>x. log_id x = ie_event_id ?e" "stored lib s"] by simp
    qed
    with IH log show ?thesis by auto
  qed
qed

lemma expired_at_all:
  assumes "st_inv lib s"
  shows "filter (\<lambda>x. fst x \<notin> expired_at now [0 ..< unat (index_count (eng s))] (eng s)) (stored lib s) =
    filter (\<lambda>x. \<not> expired now (fst x)) (stored lib s)"
proof (rule filter_cong [OF refl])
  fix x assume "x \<in> set (stored lib s)"
  then have x: "fst x \<in> set (used (eng s))" "\<not> deleted (fst x)" by (auto simp: stored_def live_def)
  then obtain i where "i < unat (index_count (eng s))" "idx (eng s) ! i = fst x"
    using inv_count [OF assms] by (metis in_set_conv_nth nth_used)
  with x show "(fst x \<notin> expired_at now [0 ..< unat (index_count (eng s))] (eng s)) = (\<not> expired now (fst x))"
    by (auto simp: expired_at_def)
qed

lemma purge_step:
  assumes inv: "st_inv lib s" and lib: "hex_lengths lib" and ini: "initialized (eng s)"
    and purge: "storage_purge_expired lib env s = (n, s')"
  shows "st_inv lib s' \<and> initialized (eng s') \<and>
    stored lib s' = filter (\<lambda>x. \<not> expired (now_of env) (fst x)) (stored lib s) \<and>
    n = int (length (filter (\<lambda>x. expired (now_of env) (fst x)) (stored lib s)))"
proof -
  obtain s1 where loop: "purge_loop lib env (now_of env) [0 ..< unat (index_count (eng s))] s 0 = (s1, n)"
    and s': "s' = (if 0 < n then persist env s1 else s1)"
    using purge ini by (auto simp: storage_purge_expired_def Let_def split: prod.splits)
  note p = purge_loop_step [OF inv lib _ _ loop]
  have "stored lib s1 = filter (\<lambda>x. \<not> expired (now_of env) (fst x)) (stored lib s)"
    using p expired_at_all [OF inv] by simp
  moreover from this have "n = int (length (filter (\<lambda>x. expired (now_of env) (fst x)) (stored lib s)))"
    using p sum_length_filter_compl [of "\<lambda>x. expired (now_of env) (fst x)" "stored lib s"] by simp
  ultimately show ?thesis using p ini by (simp add: s')
qed

section \<open>Compaction\<close>

text \<open>
  The in-place loop: what is kept moves to the front in order, entries above the read index
  are untouched.
\<close>

lemma compact_loop_eq:
  "compact_loop [r ..< n] xs w c = (xs', w', c') \<Longrightarrow> w \<le> r \<Longrightarrow> r \<le> n \<Longrightarrow> n \<le> length xs \<Longrightarrow>
    length xs' = length xs \<and> w' \<le> n \<and>
    take w' xs' = take w xs @ filter (\<lambda>e. \<not> deleted e) (drop r (take n xs)) \<and>
    c' = c + int (n - r) - int (w' - w) \<and> w \<le> w'"
proof (induction "n - r" arbitrary: r xs w c)
  case 0
  then show ?case by auto
next
  case (Suc k)
  then have r: "r < n" "r < length xs" and up: "[r ..< n] = r # [Suc r ..< n]"
    by (auto simp: upt_conv_Cons)
  have head: "drop r (take n xs) = xs ! r # drop (Suc r) (take n xs)"
    using r by (simp add: Cons_nth_drop_Suc [symmetric])
  show ?case
  proof (cases "deleted (xs ! r)")
    case True
    then have "compact_loop [Suc r ..< n] xs w (c + 1) = (xs', w', c')"
      using Suc.prems(1) by (simp add: up)
    from Suc.hyps(1) [OF _ this] Suc.hyps(2) Suc.prems(2-4) r True show ?thesis
      by (auto simp: head)
  next
    case False
    let ?ys = "if w \<noteq> r then xs[w := xs ! r] else xs"
    have loop: "compact_loop [Suc r ..< n] ?ys (Suc w) c = (xs', w', c')"
      using Suc.prems(1) False by (simp add: up split: if_splits)
    have ys: "length ?ys = length xs" "take (Suc w) ?ys = take w xs @ [xs ! r]"
        "drop (Suc r) (take n ?ys) = drop (Suc r) (take n xs)"
      using Suc.prems(2) r by (auto simp: take_Suc_conv_app_nth drop_update_cancel take_update_swap list_update_beyond)
    have "length xs' = length ?ys \<and> w' \<le> n \<and>
      take w' xs' = take (Suc w) ?ys @ filter (\<lambda>e. \<not> deleted e) (drop (Suc r) (take n ?ys)) \<and>
      c' = c + int (n - Suc r) - int (w' - Suc w) \<and> Suc w \<le> w'"
      using Suc.hyps(2) Suc.prems(2-4) r ys(1) by (intro Suc.hyps(1) [OF _ loop]) auto
    then show ?thesis unfolding ys using False r by (auto simp: head)
  qed
qed

lemma compact_step:
  assumes inv: "st_inv lib s" and ini: "initialized (eng s)"
    and comp: "storage_compact_index env s = (n, s')"
  shows "st_inv lib s' \<and> initialized (eng s') \<and> stored lib s' = stored lib s \<and>
    used (eng s') = live (eng s) \<and> n = int (length (used (eng s))) - int (length (live (eng s)))"
proof -
  let ?n = "unat (index_count (eng s))"
  obtain xs w where loop: "compact_loop [0 ..< ?n] (idx (eng s)) 0 0 = (xs, w, n)"
    and s': "s' = (let t = s\<lparr>eng := (eng s)\<lparr>idx := xs\<rparr>\<rparr>
        in if 0 < n then persist env (t\<lparr>eng := (eng t)\<lparr>index_count := of_nat w\<rparr>\<rparr>) else t)"
    using comp ini by (auto simp: storage_compact_index_def Let_def split: prod.splits)
  have l: "length xs = length (idx (eng s))" "w \<le> ?n" "take w xs = live (eng s)" "n = int ?n - int w"
    using compact_loop_eq [OF loop] inv_count(1) [OF inv] by (auto simp: live_def used_def)
  have w: "unat (of_nat w :: u16) = w"
    using l(2) unat_u16_lt [of "index_count (eng s)"] by (simp add: unat_of_nat)
  have used: "used (eng s') = live (eng s)"
  proof (cases "0 < n")
    case True
    then show ?thesis using l w by (simp add: s' Let_def used_def)
  next
    case False
    then have "w = ?n" using l(2,4) by linarith
    from l(3) [unfolded this] have "take ?n xs = live (eng s)" .
    then show ?thesis using False by (simp add: s' Let_def used_def)
  qed
  have live: "live (eng s') = live (eng s)" by (simp add: live_def used)
  have fl: "file_event lib s' = file_event lib s"
    by (auto simp: file_event_def s' Let_def)
  have sub: "sorted_wrt (<) (map ie_file_index (live (eng s)))"
    using inv unfolding live_def by (auto simp: st_inv_def sorted_wrt_map intro: sorted_wrt_filter)
  have "length (idx (eng s')) = unat (max_index_entries (eng s')) \<and>
      index_count (eng s') \<le> max_index_entries (eng s') \<and> next_file_index (eng s') = next_file_index (eng s)"
    using inv l w by (auto simp: s' Let_def st_inv_def word_le_nat_alt)
  moreover have "\<forall>e \<in> set (live (eng s)). e \<in> set (used (eng s))" by (simp add: live_def)
  ultimately have "st_inv lib s'"
    using inv sub by (simp add: st_inv_def used live fl)
  moreover have "stored lib s' = stored lib s" by (simp add: stored_def live fl)
  moreover have "w = length (live (eng s))"
    using l inv_count(1) [OF inv] by (metis length_take min.absorb2 order_trans)
  ultimately show ?thesis
    using ini l(4) used inv_count(2) [OF inv] by (simp add: s' Let_def)
qed

section \<open>Queries\<close>

text \<open>What a query returns of a logged event.\<close>

definition visible ::
    "nostr_lib \<Rightarrow> storage_env \<Rightarrow> nostr_filter \<Rightarrow> u32 \<Rightarrow> storage_index_entry \<times> nostr_event option \<Rightarrow> nostr_event option" where
  "visible lib env f now x =
     (if expired now (fst x) \<or> \<not> index_matches_filter lib (fst x) f \<or> \<not> env_read env (entry_path lib (fst x))
      then None
      else case snd x of
          None \<Rightarrow> None
        | Some ev \<Rightarrow> if lib_filter_matches lib f ev then Some ev else None)"

definition candidate ::
    "nostr_lib \<Rightarrow> storage_env \<Rightarrow> nostr_filter \<Rightarrow> u32 \<Rightarrow> storage_sys \<Rightarrow> storage_index_entry \<Rightarrow> nostr_event option" where
  "candidate lib env f now s e =
     (if deleted e then None else visible lib env f now (e, file_event lib s e))"

lemma map_filter_append: "List.map_filter f (xs @ ys) = List.map_filter f xs @ List.map_filter f ys"
  by (simp add: List.map_filter_def)

lemma map_filter_Cons:
  "List.map_filter f (x # xs) = (case f x of None \<Rightarrow> [] | Some y \<Rightarrow> [y]) @ List.map_filter f xs"
  by (auto simp: List.map_filter_def split: option.splits)

lemma length_map_filter: "length (List.map_filter f xs) \<le> length xs"
  by (simp add: List.map_filter_def)

lemma map_filter_cong:
  "(\<And>x. x \<in> set xs \<Longrightarrow> f x = g x) \<Longrightarrow> List.map_filter f xs = List.map_filter g xs"
  by (induction xs) (auto simp: map_filter_Cons List.map_filter_def split: option.splits)

text \<open>Marking position \<open>i\<close> changes no candidate below it.\<close>

lemma candidates_below:
  fixes env :: storage_env
  assumes inv: "st_inv lib s" and lib: "hex_lengths lib" and i: "i < unat (index_count (eng s))"
  defines "s1 \<equiv> mark_entry_expired lib env i s"
  shows "List.map_filter (candidate lib env f now s1) (rev (take i (idx (eng s1)))) =
    List.map_filter (candidate lib env f now s) (rev (take i (idx (eng s))))"
proof -
  have same: "take i (idx (eng s1)) = take i (idx (eng s))"
    by (simp add: s1_def mark_eng)
  have "candidate lib env f now s1 e = candidate lib env f now s e" if "e \<in> set (take i (idx (eng s)))" for e
  proof -
    from that obtain j where j: "j < i" "e = idx (eng s) ! j"
      by (auto simp: in_set_conv_nth)
    then have "entry_path lib e \<noteq> entry_path lib (idx (eng s) ! i)"
      using inv_paths [OF inv lib, of j i] inv_count [OF inv] i by (simp add: nth_used)
    then show ?thesis by (simp add: candidate_def file_event_def s1_def mark_file_other)
  qed
  then show ?thesis unfolding same by (intro map_filter_cong) auto
qed

lemma query_loop_visit:
  assumes "length acc < limit" and "\<not> (\<not> deleted (idx (eng s) ! i) \<and> expired now (idx (eng s) ! i))"
  shows "query_loop lib env f limit now (Suc i) s acc =
    query_loop lib env f limit now i s
      (acc @ (case candidate lib env f now s (idx (eng s) ! i) of None \<Rightarrow> [] | Some ev \<Rightarrow> [ev]))"
proof (cases "deleted (idx (eng s) ! i)")
  case True
  then show ?thesis using assms(1) by (simp add: Let_def candidate_def)
next
  case False
  with assms(2) have "\<not> expired now (idx (eng s) ! i)" by simp
  with False assms(1) show ?thesis
    by (simp add: Let_def candidate_def visible_def load_event_from_file_def file_event_def split: option.split)
qed

lemma take_room:
  assumes "length acc < limit"
  shows "acc @ take (limit - length acc) ((case c of None \<Rightarrow> [] | Some ev \<Rightarrow> [ev]) @ rest) =
    (acc @ (case c of None \<Rightarrow> [] | Some ev \<Rightarrow> [ev])) @
      take (limit - length (acc @ (case c of None \<Rightarrow> [] | Some ev \<Rightarrow> [ev]))) rest"
  using assms by (cases c) (simp_all add: take_Cons' Suc_diff_Suc [symmetric])

lemma drops_none: "\<exists>X \<subseteq> A. xs = filter (\<lambda>x. fst x \<notin> X) xs"
  by (rule exI [of _ "{}"]) simp

lemma query_loop_step:
  assumes "st_inv lib s" and "hex_lengths lib" and "i \<le> unat (index_count (eng s))"
    and "query_loop lib env f limit now i s acc = (acc', s')"
  shows "st_inv lib s' \<and> initialized (eng s') = initialized (eng s) \<and>
    acc' = acc @ take (limit - length acc) (List.map_filter (candidate lib env f now s) (rev (take i (idx (eng s))))) \<and>
    (\<exists>X \<subseteq> expired_at now [0 ..< i] (eng s). stored lib s' = filter (\<lambda>x. fst x \<notin> X) (stored lib s))"
  using assms
proof (induction i arbitrary: s acc)
  case 0
  then have "acc' = acc" "s' = s" by simp_all
  with 0(1) drops_none show ?case by (simp add: List.map_filter_def)
next
  case (Suc i)
  let ?e = "idx (eng s) ! i" and ?c = "candidate lib env f now s"
  have i: "i < unat (index_count (eng s))" and i': "i \<le> unat (index_count (eng s))" using Suc.prems(3) by simp_all
  have tl: "rev (take (Suc i) (idx (eng s))) = ?e # rev (take i (idx (eng s)))"
    using i inv_count(1) [OF Suc.prems(1)] by (simp add: take_Suc_conv_app_nth)
  have mono: "expired_at now [0 ..< i] (eng s) \<subseteq> expired_at now [0 ..< Suc i] (eng s)"
    by (auto simp: expired_at_def)
  show ?case
  proof (cases "length acc < limit")
    case False
    then have "acc' = acc" "s' = s" using Suc.prems(4) by simp_all
    moreover have "limit - length acc = 0" using False by simp
    ultimately show ?thesis using Suc.prems(1) drops_none by simp
  next
    case room: True
    show ?thesis
    proof (cases "\<not> deleted ?e \<and> expired now ?e")
      case True
      let ?s1 = "mark_entry_expired lib env i s"
      have loop: "query_loop lib env f limit now i ?s1 acc = (acc', s')"
        using Suc.prems(4) True room by (simp add: Let_def)
      have none: "?c ?e = None" using True by (simp add: candidate_def visible_def)
      note m = mark_step [OF Suc.prems(1,2) i, of env]
      have IH: "st_inv lib s' \<and> initialized (eng s') = initialized (eng s) \<and>
          acc' = acc @ take (limit - length acc) (List.map_filter ?c (rev (take i (idx (eng s))))) \<and>
          (\<exists>X \<subseteq> expired_at now [0 ..< i] (eng s). stored lib s' = filter (\<lambda>x. fst x \<notin> X) (stored lib ?s1))"
        using Suc.IH [OF _ Suc.prems(2) _ loop] m True i
          candidates_below [OF Suc.prems(1,2) i, of env f now] by (simp add: expired_at_mark)
      then obtain X where X: "X \<subseteq> expired_at now [0 ..< i] (eng s)"
          "stored lib s' = filter (\<lambda>x. fst x \<notin> insert ?e X) (stored lib s)"
        using mark_filter [OF Suc.prems(1,2) i] True by auto
      have "insert ?e X \<subseteq> expired_at now [0 ..< Suc i] (eng s)"
        using X(1) mono True by (auto simp: expired_at_def)
      with X(2) have ex: "\<exists>X \<subseteq> expired_at now [0 ..< Suc i] (eng s).
          stored lib s' = filter (\<lambda>x. fst x \<notin> X) (stored lib s)" by blast
      show ?thesis using IH ex none by (simp only: tl map_filter_Cons option.case append_Nil)
    next
      case False
      define acc1 where "acc1 = acc @ (case ?c ?e of None \<Rightarrow> [] | Some ev \<Rightarrow> [ev])"
      have loop: "query_loop lib env f limit now i s acc1 = (acc', s')"
        using Suc.prems(4) unfolding query_loop_visit [OF room False] acc1_def .
      note IH = Suc.IH [OF Suc.prems(1,2) i' loop]
      have "acc' = acc1 @ take (limit - length acc1) (List.map_filter ?c (rev (take i (idx (eng s)))))"
        using IH by blast
      also have "\<dots> = acc @ take (limit - length acc) (List.map_filter ?c (rev (take (Suc i) (idx (eng s)))))"
        unfolding tl map_filter_Cons take_room [OF room] acc1_def ..
      finally show ?thesis using IH mono by blast
    qed
  qed
qed

end
