(* ===== verification/Storage_Contracts.thy ===== *)
theory Storage_Contracts
  imports Storage_Spec
begin

text \<open>
  What the rest of the relay relies on: the exact result of each storage operation over the
  log of \<open>Storage_Spec\<close>, the interface through which the deletion handler uses the
  engine (a locale, interpreted on the engine), and the properties of the component.
\<close>

section \<open>Queries over the log\<close>

lemma map_filter_map: "List.map_filter f (map g xs) = List.map_filter (f \<circ> g) xs"
  by (simp add: List.map_filter_def filter_map comp_def)

lemma map_filter_filter:
  "(\<And>x. x \<in> set xs \<Longrightarrow> \<not> P x \<Longrightarrow> f x = None) \<Longrightarrow> List.map_filter f (filter P xs) = List.map_filter f xs"
  by (induction xs) (auto simp: map_filter_Cons split: option.split)

lemma candidates_visible:
  "List.map_filter (candidate lib env f now s) (rev (used (eng s))) =
    List.map_filter (visible lib env f now) (rev (stored lib s))"
proof -
  have "List.map_filter (visible lib env f now) (rev (stored lib s)) =
      List.map_filter (\<lambda>e. visible lib env f now (e, file_event lib s e)) (rev (live (eng s)))"
    by (simp add: stored_def rev_map map_filter_map comp_def)
  also have "\<dots> = List.map_filter (candidate lib env f now s) (rev (live (eng s)))"
    by (intro map_filter_cong) (simp add: candidate_def live_def)
  also have "\<dots> = List.map_filter (candidate lib env f now s) (rev (used (eng s)))"
    unfolding live_def rev_filter by (intro map_filter_filter) (simp add: candidate_def)
  finally show ?thesis ..
qed

text \<open>The cap of 500 on the limit.\<close>

definition capped :: "u16 \<Rightarrow> nat" where
  "capped limit = min (unat limit) 500"

lemma capped_eq: "unat (if 500 < limit then 500 else (limit :: u16)) = capped limit"
  by (auto simp: capped_def word_less_nat_alt not_less)

lemma query_step:
  assumes inv: "st_inv lib s" and lib: "hex_lengths lib" and ini: "initialized (eng s)"
    and q: "storage_query_events lib env f limit s = ((r, evs), s')"
  shows "st_inv lib s' \<and> initialized (eng s') \<and>
    (r, evs) = (if env_malloc env
      then (STORAGE_OK, take (capped limit) (List.map_filter (visible lib env f (now_of env)) (rev (stored lib s))))
      else (STORAGE_ERR_NO_MEM, [])) \<and>
    (\<exists>X. (\<forall>e \<in> X. expired (now_of env) e) \<and> stored lib s' = filter (\<lambda>x. fst x \<notin> X) (stored lib s))"
proof (cases "env_malloc env")
  case False
  then have "s' = s" "r = STORAGE_ERR_NO_MEM" "evs = []"
    using q ini by (simp_all add: storage_query_events_def Let_def)
  with False inv ini show ?thesis by (auto intro!: exI [of _ "{}"])
next
  case True
  let ?n = "unat (index_count (eng s))"
  have loop: "query_loop lib env f (capped limit) (now_of env) ?n s [] = (evs, s')" and r: "r = STORAGE_OK"
    using q ini True by (auto simp: storage_query_events_def Let_def capped_eq split: prod.splits)
  note l = query_loop_step [OF inv lib order.refl loop]
  from l obtain X where X: "X \<subseteq> expired_at (now_of env) [0 ..< ?n] (eng s)"
      "stored lib s' = filter (\<lambda>x. fst x \<notin> X) (stored lib s)" by blast
  have "rev (take ?n (idx (eng s))) = rev (used (eng s))" by (simp add: used_def)
  then have "evs = take (capped limit) (List.map_filter (visible lib env f (now_of env)) (rev (stored lib s)))"
    using l candidates_visible by simp
  moreover have "\<forall>e \<in> X. expired (now_of env) e" using X(1) by (auto simp: expired_at_def)
  ultimately show ?thesis using l r True ini X(2) by auto
qed

section \<open>Lookup over the log\<close>

lemma find_event:
  assumes "st_inv lib s" and "find_index_entry (eng s) event_id = Some i"
  shows "(idx (eng s) ! i, file_event lib s (idx (eng s) ! i)) \<in> set (stored lib s)"
  using live_in_log [OF assms(1) find_SomeD(1,2) [OF assms(2,1)]] .

lemma get_step:
  assumes inv: "st_inv lib s" and ini: "initialized (eng s)"
  shows "storage_get_event lib env event_id s = Some ev \<longleftrightarrow>
    (\<exists>e. (e, Some ev) \<in> set (stored lib s) \<and> ie_event_id e = event_id \<and> env_read env (entry_path lib e))"
proof (cases "find_index_entry (eng s) event_id")
  case None
  then have "event_id \<notin> log_id ` set (stored lib s)" by (simp add: find_None_iff [of _ _ lib])
  with None ini show ?thesis by (force simp: storage_get_event_def)
next
  case (Some i)
  let ?e = "idx (eng s) ! i"
  have log: "(?e, file_event lib s ?e) \<in> set (stored lib s)" using inv Some by (rule find_event)
  have id: "ie_event_id ?e = event_id" using find_SomeD(3) [OF Some inv] .
  have get: "storage_get_event lib env event_id s =
      (if env_read env (entry_path lib ?e) then file_event lib s ?e else None)"
    using Some ini by (simp add: storage_get_event_def load_event_from_file_def file_event_def)
  show ?thesis
  proof
    assume "storage_get_event lib env event_id s = Some ev"
    then have "file_event lib s ?e = Some ev" "env_read env (entry_path lib ?e)"
      by (auto simp: get split: if_splits)
    then show "\<exists>e. (e, Some ev) \<in> set (stored lib s) \<and> ie_event_id e = event_id \<and> env_read env (entry_path lib e)"
      using log id by metis
  next
    assume "\<exists>e. (e, Some ev) \<in> set (stored lib s) \<and> ie_event_id e = event_id \<and> env_read env (entry_path lib e)"
    then obtain e where e: "(e, Some ev) \<in> set (stored lib s)" "ie_event_id e = event_id"
        "env_read env (entry_path lib e)" by blast
    have "(e, Some ev) = (?e, file_event lib s ?e)"
      using log_distinct_eq [OF inv e(1) log] e(2) id by simp
    with e(3) show "storage_get_event lib env event_id s = Some ev" by (simp add: get)
  qed
qed

lemma exists_step:
  "initialized (eng s) \<Longrightarrow> storage_event_exists s event_id \<longleftrightarrow> event_id \<in> log_id ` set (stored lib s)"
  using find_None_iff [of s event_id lib] by (simp add: storage_event_exists_def)

lemma logged_describes:
  "st_inv lib s \<Longrightarrow> (e, Some ev) \<in> set (stored lib s) \<Longrightarrow> describes e ev"
  by (auto simp: st_inv_def stored_def)

section \<open>The results of a save\<close>

definition save_result :: "nostr_lib \<Rightarrow> storage_env \<Rightarrow> nostr_event \<Rightarrow> storage_sys \<Rightarrow> storage_error" where
  "save_result lib env ev s =
     (if ev_id ev \<in> log_id ` set (stored lib s) then STORAGE_ERR_DUPLICATE
      else if max_index_entries (eng s) \<le> index_count (eng s) then STORAGE_ERR_FULL
      else if \<not> env_malloc env then STORAGE_ERR_NO_MEM
      else case lib_event_serialize lib ev STORAGE_MAX_EVENT_SIZE of
          None \<Rightarrow> STORAGE_ERR_SERIALIZE
        | Some json \<Rightarrow>
            if (env_fopen1 env \<or> env_fopen2 env) \<and> length json \<le> env_written env
            then STORAGE_OK else STORAGE_ERR_IO)"

lemma save_result_eq:
  assumes "initialized (eng s)"
  shows "fst (storage_save_event lib env ev s) = save_result lib env ev s"
proof (cases "lib_event_serialize lib ev STORAGE_MAX_EVENT_SIZE")
  case None
  then show ?thesis
    using assms find_None_iff [of s "ev_id ev" lib]
    by (simp add: storage_save_event_def save_result_def Let_def)
next
  case (Some json)
  then show ?thesis
    using assms find_None_iff [of s "ev_id ev" lib]
    by (simp add: storage_save_event_def save_result_def Let_def min_def)
qed

lemma save_frame:
  assumes "storage_save_event lib env ev s = (STORAGE_OK, s')"
  shows "index_count (eng s') = index_count (eng s) + 1"
    "next_file_index (eng s') = next_file_index (eng s) + 1"
    "max_index_entries (eng s') = max_index_entries (eng s)"
    "default_ttl_sec (eng s') = default_ttl_sec (eng s)"
    "idx (eng s') = (idx (eng s))[unat (index_count (eng s)) :=
       entry_for lib env (eng s) ev (idx (eng s) ! unat (index_count (eng s)))]"
  using assms
  by (auto simp: storage_save_event_def set_entry_def Let_def split: if_splits option.splits)

text \<open>Only a save advances the file index.\<close>

lemma query_loop_next_file:
  "next_file_index (eng (snd (query_loop lib env f limit now i s acc))) = next_file_index (eng s)"
  by (induction i arbitrary: s acc) (simp_all add: Let_def split: option.split)

lemma query_next_file:
  "storage_query_events lib env f limit s = (r, s') \<Longrightarrow> next_file_index (eng s') = next_file_index (eng s)"
  using query_loop_next_file [of lib env f "capped limit" "now_of env" "unat (index_count (eng s))" s "[]"]
  by (auto simp: storage_query_events_def Let_def capped_eq split: if_splits prod.splits)

lemma delete_next_file:
  "storage_delete_event lib env i s = (r, s') \<Longrightarrow> next_file_index (eng s') = next_file_index (eng s)"
  by (auto simp: storage_delete_event_def Let_def set_entry_def split: if_splits option.splits)

section \<open>The event store interface\<close>

text \<open>
  What the deletion handler needs of a store: a log of entries with distinct ids, a lookup and
  a query that only report logged events, and a deletion that takes out exactly one id.
  \<open>reduces\<close> is the frame the handler's proofs carry from call to call: the log only
  shrinks, and what left it was either in the set \<open>A\<close> or expired at one of the clock
  readings \<open>T\<close>.
\<close>

definition reduces ::
    "('s \<Rightarrow> bool) \<Rightarrow> ('s \<Rightarrow> log) \<Rightarrow> u32 set \<Rightarrow> (storage_index_entry \<times> nostr_event option) set \<Rightarrow> 's \<Rightarrow> 's \<Rightarrow> bool" where
  "reduces ok log T A s s' \<longleftrightarrow>
     ok s' \<and> (\<exists>K. log s' = filter K (log s) \<and>
       (\<forall>x \<in> set (log s). \<not> K x \<longrightarrow> x \<in> A \<or> (\<exists>t \<in> T. expired t (fst x))))"

locale event_store =
  fixes ok :: "'s \<Rightarrow> bool"
    and log :: "'s \<Rightarrow> log"
    and get :: "storage_env \<Rightarrow> u8 list \<Rightarrow> 's \<Rightarrow> nostr_event option"
    and del :: "storage_env \<Rightarrow> u8 list \<Rightarrow> 's \<Rightarrow> storage_error \<times> 's"
    and query :: "storage_env \<Rightarrow> nostr_filter \<Rightarrow> u16 \<Rightarrow> 's \<Rightarrow> (storage_error \<times> nostr_event list) \<times> 's"
    and matches :: "nostr_filter \<Rightarrow> nostr_event \<Rightarrow> bool"
  assumes get_logged: "ok s \<Longrightarrow> get env i s = Some ev \<Longrightarrow>
      \<exists>e. (e, Some ev) \<in> set (log s) \<and> ie_event_id e = i"
    and log_unique: "ok s \<Longrightarrow> x \<in> set (log s) \<Longrightarrow> y \<in> set (log s) \<Longrightarrow> log_id x = log_id y \<Longrightarrow> x = y"
    and logged_id: "ok s \<Longrightarrow> (e, Some ev) \<in> set (log s) \<Longrightarrow> ie_event_id e = ev_id ev"
    and del_log: "ok s \<Longrightarrow> del env i s = (r, s') \<Longrightarrow>
      ok s' \<and> log s' = filter (\<lambda>x. log_id x \<noteq> i) (log s)"
    and query_log: "ok s \<Longrightarrow> query env f l s = ((r, evs), s') \<Longrightarrow>
      ok s' \<and> (\<exists>X. (\<forall>e \<in> X. expired (now_of env) e) \<and> log s' = filter (\<lambda>x. fst x \<notin> X) (log s)) \<and>
      (\<forall>ev \<in> set evs. matches f ev \<and> (\<exists>e. (e, Some ev) \<in> set (log s)))"
begin

lemma reduces_refl: "ok s \<Longrightarrow> reduces ok log T A s s"
  unfolding reduces_def by (intro conjI exI [of _ "\<lambda>_. True"]) simp_all

lemma reduces_inv: "reduces ok log T A s s' \<Longrightarrow> ok s'"
  by (simp add: reduces_def)

lemma reduces_subset: "reduces ok log T A s s' \<Longrightarrow> set (log s') \<subseteq> set (log s)"
  by (auto simp: reduces_def)

lemma reduces_length: "reduces ok log T A s s' \<Longrightarrow> length (log s') \<le> length (log s)"
  unfolding reduces_def by (metis length_filter_le)

lemma reduces_trans:
  assumes "reduces ok log T A s s'" and "reduces ok log T A s' s''"
  shows "reduces ok log T A s s''"
proof -
  from assms obtain K K' where
    K: "log s' = filter K (log s)" "\<forall>x \<in> set (log s). \<not> K x \<longrightarrow> x \<in> A \<or> (\<exists>t \<in> T. expired t (fst x))"
    and K': "ok s''" "log s'' = filter K' (log s')"
      "\<forall>x \<in> set (log s'). \<not> K' x \<longrightarrow> x \<in> A \<or> (\<exists>t \<in> T. expired t (fst x))"
    unfolding reduces_def by blast
  have "log s'' = filter (\<lambda>x. K x \<and> K' x) (log s)" using K(1) K'(2) by (simp add: conj_commute)
  moreover have "\<forall>x \<in> set (log s). \<not> (K x \<and> K' x) \<longrightarrow> x \<in> A \<or> (\<exists>t \<in> T. expired t (fst x))"
    using K(2) K'(3) unfolding K(1) set_filter mem_Collect_eq by blast
  ultimately show ?thesis unfolding reduces_def using K'(1) by blast
qed

lemma reduces_mono: "reduces ok log T A s s' \<Longrightarrow> A \<subseteq> B \<Longrightarrow> reduces ok log T B s s'"
  unfolding reduces_def by blast

lemma reduces_del:
  assumes "ok s" and "del env i s = (r, s')" and "\<And>x. x \<in> set (log s) \<Longrightarrow> log_id x = i \<Longrightarrow> x \<in> A"
  shows "reduces ok log T A s s'"
  unfolding reduces_def using del_log [OF assms(1,2)] assms(3)
  by (intro conjI exI [of _ "\<lambda>x. log_id x \<noteq> i"]) auto

lemma reduces_query:
  assumes "ok s" and "query env f l s = ((r, evs), s')" and "now_of env \<in> T"
  shows "reduces ok log T A s s'"
proof -
  obtain X where "\<forall>e \<in> X. expired (now_of env) e" "log s' = filter (\<lambda>x. fst x \<notin> X) (log s)"
    using query_log [OF assms(1,2)] by blast
  then show ?thesis
    unfolding reduces_def using query_log [OF assms(1,2)] assms(3)
    by (intro conjI exI [of _ "\<lambda>x. fst x \<notin> X"]) auto
qed

text \<open>A found event is the only entry of its id.\<close>

lemma get_unique:
  assumes "ok s" and "get env i s = Some ev" and "x \<in> set (log s)" and "log_id x = i"
  shows "snd x = Some ev \<and> ev_id ev = i"
  using get_logged [OF assms(1,2)] log_unique [OF assms(1,3)] logged_id [OF assms(1)] assms(4)
  by (metis fst_conv snd_conv)

lemma logged_unique:
  assumes "ok s" and "(e, Some ev) \<in> set (log s)" and "x \<in> set (log s)" and "log_id x = ev_id ev"
  shows "x = (e, Some ev)"
  using log_unique [OF assms(1,3,2)] logged_id [OF assms(1,2)] assms(4) by simp

text \<open>Deleting an event that an earlier state of the log reported.\<close>

lemma reduces_del_found:
  assumes "ok s1" and "(e, Some ev) \<in> set (log s1)" and "(e, Some ev) \<in> A"
    and "set (log s) \<subseteq> set (log s1)" and "ok s" and "del env (ev_id ev) s = (r, s')"
  shows "reduces ok log T A s s' \<and> ev_id ev \<notin> log_id ` set (log s')"
proof
  show "reduces ok log T A s s'"
    using assms logged_unique [OF assms(1,2)] by (intro reduces_del [OF assms(5,6)]) blast
  show "ev_id ev \<notin> log_id ` set (log s')"
    using del_log [OF assms(5,6)] by auto
qed

end

text \<open>The storage engine is an event store.\<close>

definition store_inv :: "nostr_lib \<Rightarrow> storage_sys \<Rightarrow> bool" where
  "store_inv lib s \<longleftrightarrow> st_inv lib s \<and> initialized (eng s) \<and> hex_lengths lib"

lemma visible_SomeD:
  assumes "visible lib env f now x = Some ev"
  shows "snd x = Some ev \<and> lib_filter_matches lib f ev \<and> \<not> expired now (fst x)"
  using assms by (auto simp: visible_def split: if_splits option.splits)

lemma set_map_filter: "y \<in> set (List.map_filter f xs) \<longleftrightarrow> (\<exists>x \<in> set xs. f x = Some y)"
  by (induction xs) (auto simp: map_filter_Cons List.map_filter_def split: option.splits)

lemma query_results:
  assumes inv: "st_inv lib s" and lib: "hex_lengths lib" and ini: "initialized (eng s)"
    and q: "storage_query_events lib env f limit s = ((r, evs), s')" and ev: "ev \<in> set evs"
  shows "lib_filter_matches lib f ev \<and>
    (\<exists>e. (e, Some ev) \<in> set (stored lib s) \<and> \<not> expired (now_of env) e)"
proof -
  have "ev \<in> set (List.map_filter (visible lib env f (now_of env)) (rev (stored lib s)))"
    using query_step [OF inv lib ini q] ev by (auto split: if_splits dest: in_set_takeD)
  then obtain x where "x \<in> set (stored lib s)" "visible lib env f (now_of env) x = Some ev"
    by (auto simp: set_map_filter)
  then show ?thesis using visible_SomeD by (metis prod.collapse)
qed

interpretation engine: event_store "store_inv lib" "stored lib" "storage_get_event lib"
  "storage_delete_event lib" "storage_query_events lib" "lib_filter_matches lib" for lib
proof unfold_locales
  fix s :: storage_sys and env :: storage_env
  assume s: "store_inv lib s"
  note I = s [unfolded store_inv_def, THEN conjunct1] and ini = s [unfolded store_inv_def, THEN conjunct2, THEN conjunct1]
    and lib = s [unfolded store_inv_def, THEN conjunct2, THEN conjunct2]
  show "\<exists>e. (e, Some ev) \<in> set (stored lib s) \<and> ie_event_id e = i"
    if "storage_get_event lib env i s = Some ev" for i ev
    using that get_step [OF I ini] by blast
  show "x = y" if "x \<in> set (stored lib s)" "y \<in> set (stored lib s)" "log_id x = log_id y" for x y
    using log_distinct_eq [OF I that] .
  show "ie_event_id e = ev_id ev" if "(e, Some ev) \<in> set (stored lib s)" for e ev
    using logged_describes [OF I that] by (simp add: describes_def)
  show "store_inv lib s' \<and> stored lib s' = filter (\<lambda>x. log_id x \<noteq> i) (stored lib s)"
    if "storage_delete_event lib env i s = (r, s')" for i r s'
    using delete_step [OF I lib ini that] lib by (simp add: store_inv_def)
  show "store_inv lib s' \<and>
      (\<exists>X. (\<forall>e \<in> X. expired (now_of env) e) \<and> stored lib s' = filter (\<lambda>x. fst x \<notin> X) (stored lib s)) \<and>
      (\<forall>ev \<in> set evs. lib_filter_matches lib f ev \<and> (\<exists>e. (e, Some ev) \<in> set (stored lib s)))"
    if "storage_query_events lib env f l s = ((r, evs), s')" for f l r evs s'
    using query_step [OF I lib ini that] query_results [OF I lib ini that] lib
    by (auto simp: store_inv_def)
qed

end
