(* ===== verification/Storage_Props.thy ===== *)
theory Storage_Props
  imports Storage_Contracts
begin

text \<open>
  The properties of the storage engine, with the concrete store their witnesses run on.
\<close>

section \<open>The index pre-filter loses nothing\<close>

text \<open>
  Documented behaviour of \<open>nostr_filter_matches\<close> (NIP-01) for one filter and event: what
  it accepts satisfies the time, kind, id and author conditions; ids and authors are 64-digit
  hex strings, whose first eight digits code the first four bytes.
\<close>

definition match_contract :: "nostr_lib \<Rightarrow> nostr_filter \<Rightarrow> nostr_event \<Rightarrow> bool" where
  "match_contract lib f ev \<longleftrightarrow>
     (lib_filter_matches lib f ev \<longrightarrow>
        (0 < f_since f \<longrightarrow> f_since f \<le> ev_created_at ev) \<and>
        (0 < f_until f \<longrightarrow> ev_created_at ev \<le> f_until f) \<and>
        (f_kinds f \<noteq> [] \<longrightarrow> uint (ev_kind ev) \<in> set (f_kinds f)) \<and>
        (f_ids f \<noteq> [] \<longrightarrow> (\<exists>i \<in> set (f_ids f). lib_hex_to_bytes lib i 64 32 = Some (ev_id ev))) \<and>
        (f_authors f \<noteq> [] \<longrightarrow> (\<exists>a \<in> set (f_authors f). 8 \<le> length a \<and>
           lib_hex_to_bytes lib a 64 32 = Some (ev_pubkey ev) \<and>
           lib_hex_to_bytes lib a 8 4 = Some (take 4 (ev_pubkey ev)))))"

text \<open>Times that fit the 32 bits of the index.\<close>

definition times_fit :: "nostr_filter \<Rightarrow> nostr_event \<Rightarrow> bool" where
  "times_fit f ev \<longleftrightarrow> 0 \<le> ev_created_at ev \<and> ev_created_at ev < 2 ^ 32 \<and>
     f_since f < 2 ^ 32 \<and> f_until f < 2 ^ 32"

lemma word_of_int_less:
  fixes a b :: int
  assumes "0 \<le> a" and "a < 2 ^ 32" and "0 \<le> b" and "b < 2 ^ 32"
  shows "(word_of_int a :: u32) < word_of_int b \<longleftrightarrow> a < b"
  using assms by (simp add: word_less_def uint_word_of_int)

lemma prefilter_accepts:
  assumes match: "lib_filter_matches lib f ev" and con: "match_contract lib f ev"
    and e: "describes e ev" and fit: "times_fit f ev"
  shows "index_matches_filter lib e f"
proof -
  have since: "\<not> (0 < f_since f \<and> ie_created_at e < word_of_int (f_since f))"
    using match con e fit word_of_int_less [of "ev_created_at ev" "f_since f"]
    by (auto simp: match_contract_def describes_def times_fit_def)
  have until: "\<not> (0 < f_until f \<and> word_of_int (f_until f) < ie_created_at e)"
    using match con e fit word_of_int_less [of "f_until f" "ev_created_at ev"]
    by (auto simp: match_contract_def describes_def times_fit_def)
  have kinds: "\<not> (f_kinds f \<noteq> [] \<and> \<not> list_ex (\<lambda>k. k = uint (ie_kind e)) (f_kinds f))"
    using match con e by (auto simp: match_contract_def describes_def list_ex_iff)
  have ids: "\<not> (f_ids f \<noteq> [] \<and>
      \<not> list_ex (\<lambda>s. lib_hex_to_bytes lib s 64 32 = Some (ie_event_id e)) (f_ids f))"
    using match con e by (auto simp: match_contract_def describes_def list_ex_iff)
  have "f_authors f \<noteq> [] \<longrightarrow> list_ex (\<lambda>a. 8 \<le> length a \<and>
      lib_hex_to_bytes lib a 8 4 = Some (ie_pubkey_prefix e)) (f_authors f)"
    using match con e unfolding match_contract_def describes_def list_ex_iff by metis
  with since until kinds ids show ?thesis unfolding index_matches_filter_def by simp meson
qed

text \<open>What a query shows of an entry, without the pre-filter.\<close>

definition shown ::
    "nostr_lib \<Rightarrow> storage_env \<Rightarrow> nostr_filter \<Rightarrow> storage_index_entry \<times> nostr_event option \<Rightarrow> nostr_event option" where
  "shown lib env f x =
     (case snd x of
        None \<Rightarrow> None
      | Some ev \<Rightarrow>
          if \<not> expired (now_of env) (fst x) \<and> env_read env (entry_path lib (fst x)) \<and> lib_filter_matches lib f ev
          then Some ev else None)"

lemma visible_shown:
  assumes "st_inv lib s" and "x \<in> set (stored lib s)"
    and "\<And>ev. snd x = Some ev \<Longrightarrow> match_contract lib f ev \<and> times_fit f ev"
  shows "visible lib env f (now_of env) x = shown lib env f x"
proof (cases "snd x")
  case None
  then show ?thesis by (simp add: visible_def shown_def)
next
  case (Some ev)
  then have "describes (fst x) ev"
    using logged_describes [OF assms(1)] assms(2) by (metis prod.collapse)
  with Some assms(3) prefilter_accepts show ?thesis
    by (auto simp: visible_def shown_def)
qed

section \<open>The demonstration library meets the contracts\<close>

lemma unhex_hex_digit: "unhex_digit (hex_digit n) = Some (n mod 16)"
proof -
  have all: "\<forall>k \<in> set [0 ..< 16]. unhex_digit (''0123456789abcdef'' ! k) = Some k" by code_simp
  have "n mod 16 \<in> set [0 ..< 16]" by simp
  with all show ?thesis by (simp add: hex_digit_def)
qed

lemma unhex_demo_hex: "unhex (demo_hex bs) = Some bs"
proof (induction bs)
  case Nil
  then show ?case by (simp add: demo_hex_def)
next
  case (Cons b bs)
  have "unat b < 256" using unsigned_less [of b] by simp
  then have "16 * (unat b div 16 mod 16) + unat b mod 16 = unat b" by simp
  moreover have "(word_of_nat (unat b) :: u8) = b" by simp
  ultimately have b: "(16 * word_of_nat (unat b div 16 mod 16) + word_of_nat (unat b mod 16) :: u8) = b"
    by (metis of_nat_add of_nat_mult of_nat_numeral)
  have "demo_hex (b # bs) = hex_digit (unat b div 16) # hex_digit (unat b) # demo_hex bs"
    by (simp add: demo_hex_def hex_byte_def)
  with Cons b show ?case by (simp add: unhex_hex_digit)
qed

lemma length_demo_hex: "length (demo_hex bs) = 2 * length bs"
  by (induction bs) (auto simp: demo_hex_def)

lemma take_demo_hex: "take (2 * n) (demo_hex bs) = demo_hex (take n bs)"
proof (induction bs arbitrary: n)
  case Nil
  then show ?case by (simp add: demo_hex_def)
next
  case (Cons b bs)
  then show ?case by (cases n) (auto simp: demo_hex_def hex_byte_def)
qed

lemma demo_hex_to_bytes:
  "n \<le> length bs \<Longrightarrow> lib_hex_to_bytes (demo_lib evs) (demo_hex bs) (2 * n) n = Some (take n bs)"
  by (simp add: demo_lib_def take_demo_hex unhex_demo_hex length_demo_hex)

lemma demo_match_contract:
  assumes "length (ev_id ev) = 32" and "length (ev_pubkey ev) = 32"
  shows "match_contract (demo_lib evs) f ev"
proof -
  have "lib_hex_to_bytes (demo_lib evs) (demo_hex (ev_id ev)) 64 32 = Some (ev_id ev)"
    "lib_hex_to_bytes (demo_lib evs) (demo_hex (ev_pubkey ev)) 64 32 = Some (ev_pubkey ev)"
    "lib_hex_to_bytes (demo_lib evs) (demo_hex (ev_pubkey ev)) 8 4 = Some (take 4 (ev_pubkey ev))"
    "8 \<le> length (demo_hex (ev_pubkey ev))"
    using assms demo_hex_to_bytes [of 32 "ev_id ev"] demo_hex_to_bytes [of 32 "ev_pubkey ev"]
      demo_hex_to_bytes [of 4 "ev_pubkey ev"] by (simp_all add: length_demo_hex)
  moreover have "lib_filter_matches (demo_lib evs) f ev = demo_match f ev" by (simp add: demo_lib_def)
  ultimately show ?thesis unfolding match_contract_def demo_match_def by metis
qed

lemma demo_codec:
  assumes "distinct (map ev_id evs)" and "ev \<in> set evs" and "length (ev_id ev) = 32"
  shows "codec_ok (demo_lib evs) ev"
proof -
  have inj: "demo_hex a = demo_hex b \<Longrightarrow> a = b" for a b
    using unhex_demo_hex by (metis option.inject)
  obtain i where i: "find_slot (\<lambda>e. demo_hex (ev_id e) = demo_hex (ev_id ev)) evs = Some i"
    using assms(2) find_slot_None [of "\<lambda>e. demo_hex (ev_id e) = demo_hex (ev_id ev)" evs]
    by (cases "find_slot (\<lambda>e. demo_hex (ev_id e) = demo_hex (ev_id ev)) evs") auto
  from find_slot_SomeD [OF i] have "evs ! i \<in> set evs" "ev_id (evs ! i) = ev_id ev"
    using inj by auto
  then have "evs ! i = ev" using assms(1,2) by (auto simp: distinct_map inj_on_def)
  moreover have "demo_hex (ev_id ev) \<noteq> []"
    using assms(3) length_demo_hex [of "ev_id ev"] by (metis list.size(3) mult_is_0 zero_neq_numeral)
  ultimately show ?thesis
    using assms(3) i by (simp add: codec_ok_def demo_lib_def STORAGE_MAX_EVENT_SIZE_def length_demo_hex)
qed

section \<open>Stores for the witnesses\<close>

definition demo_note :: "nat \<Rightarrow> nostr_event" where
  "demo_note n = \<lparr>ev_id = replicate 32 (of_nat n), ev_pubkey = replicate 32 1, ev_created_at = 1000 + int n,
     ev_kind = 1, ev_tags = [], ev_content = ''hi'', ev_sig = []\<rparr>"

text \<open>The deletion request of the notes' author for note 7.\<close>

definition demo_erase :: nostr_event where
  "demo_erase = (demo_note 99)\<lparr>ev_kind := 5, ev_tags := [[''e'', demo_hex (replicate 32 7)]]\<rparr>"

definition demo_notes :: "nostr_event list" where "demo_notes = [demo_note 7, demo_note 9, demo_erase]"

definition empty_store :: storage_sys where
  "empty_store = \<lparr>eng = demo_engine 0, files = Map.empty, nvs_store = None\<rparr>"

definition save_note :: "nat \<Rightarrow> storage_sys \<Rightarrow> storage_sys" where
  "save_note n s = snd (storage_save_event (demo_lib demo_notes) (good_env 2000) (demo_note n) s)"

definition note_entry :: "nat \<Rightarrow> u32 \<Rightarrow> storage_index_entry" where
  "note_entry n k = \<lparr>ie_event_id = replicate 32 (of_nat n), ie_created_at = word_of_int (1000 + int n),
     ie_expires_at = 1816400, ie_file_index = k, ie_kind = 1, ie_pubkey_prefix = replicate 4 1,
     ie_flags = 0, ie_reserved = 0\<rparr>"

lemma note_codec: "n \<in> {7, 9} \<Longrightarrow> codec_ok (demo_lib demo_notes) (demo_note n)"
  by (rule demo_codec) (auto simp: demo_notes_def demo_erase_def demo_note_def)

lemma empty_store_inv: "store_inv (demo_lib evs) empty_store" "stored (demo_lib evs) empty_store = []"
  by (simp_all add: store_inv_def demo_hex_lengths empty_store_def demo_engine_def st_inv_def used_def
        live_def stored_def)

text \<open>Saving a note in a store with room.\<close>

lemma save_note_step:
  assumes inv: "store_inv (demo_lib demo_notes) s" and n: "n \<in> {7, 9}"
    and new: "replicate 32 (of_nat n) \<notin> log_id ` set (stored (demo_lib demo_notes) s)"
    and room: "index_count (eng s) < max_index_entries (eng s)" "next_file_index (eng s) \<noteq> -1"
    and ttl: "default_ttl_sec (eng s) = 1814400"
    and blank: "ie_reserved (idx (eng s) ! unat (index_count (eng s))) = 0"
  shows "store_inv (demo_lib demo_notes) (save_note n s)"
    and "stored (demo_lib demo_notes) (save_note n s) =
      stored (demo_lib demo_notes) s @ [(note_entry n (next_file_index (eng s)), Some (demo_note n))]"
    and "index_count (eng (save_note n s)) = index_count (eng s) + 1"
    and "next_file_index (eng (save_note n s)) = next_file_index (eng s) + 1"
    and "max_index_entries (eng (save_note n s)) = max_index_entries (eng s)"
    and "default_ttl_sec (eng (save_note n s)) = default_ttl_sec (eng s)"
    and "idx (eng (save_note n s)) = (idx (eng s))[unat (index_count (eng s)) := note_entry n (next_file_index (eng s))]"
proof -
  let ?lib = "demo_lib demo_notes"
  obtain r where save: "storage_save_event ?lib (good_env 2000) (demo_note n) s = (r, save_note n s)"
    unfolding save_note_def by (metis prod.collapse)
  have I: "st_inv ?lib s" "initialized (eng s)" "hex_lengths ?lib" using inv by (simp_all add: store_inv_def)
  have "\<exists>json. lib_event_serialize ?lib (demo_note n) STORAGE_MAX_EVENT_SIZE = Some json \<and> length json = 64"
    by (simp add: demo_lib_def length_demo_hex demo_note_def)
  then have r: "r = STORAGE_OK"
    using save_result_eq [OF I(2), of ?lib "good_env 2000" "demo_note n"] save new room
    by (auto simp: save_result_def good_env_def demo_note_def STORAGE_MAX_EVENT_SIZE_def)
  have entry: "entry_for ?lib (good_env 2000) (eng s) (demo_note n) (idx (eng s) ! unat (index_count (eng s))) =
      note_entry n (next_file_index (eng s))"
    using blank ttl
    by (simp add: entry_for_def note_entry_def demo_note_def entry_expiry_def now_of_def good_env_def demo_lib_def
          storage_index_entry.equality)
  have "length (ev_id (demo_note n)) = 32" by (simp add: demo_note_def)
  note step = save_step [OF I(1,3,2) note_codec [OF n] this room(2) save]
  show "store_inv ?lib (save_note n s)" using step I(3) unfolding store_inv_def by blast
  show "stored ?lib (save_note n s) = stored ?lib s @ [(note_entry n (next_file_index (eng s)), Some (demo_note n))]"
    using step unfolding r entry by simp
  note frame = save_frame [OF save [unfolded r]]
  show "index_count (eng (save_note n s)) = index_count (eng s) + 1"
    and "next_file_index (eng (save_note n s)) = next_file_index (eng s) + 1"
    and "max_index_entries (eng (save_note n s)) = max_index_entries (eng s)"
    and "default_ttl_sec (eng (save_note n s)) = default_ttl_sec (eng s)"
    and "idx (eng (save_note n s)) = (idx (eng s))[unat (index_count (eng s)) := note_entry n (next_file_index (eng s))]"
    using frame unfolding entry by blast+
qed

lemma one_note:
  "store_inv (demo_lib demo_notes) (save_note 7 empty_store)"
  "stored (demo_lib demo_notes) (save_note 7 empty_store) = [(note_entry 7 0, Some (demo_note 7))]"
  using save_note_step [of empty_store 7] empty_store_inv [of demo_notes]
  by (simp_all add: empty_store_def demo_engine_def zero_entry_def)

definition two_notes :: storage_sys where
  "two_notes = save_note 9 (save_note 7 empty_store)"

lemma two_notes:
  "store_inv (demo_lib demo_notes) two_notes"
  "stored (demo_lib demo_notes) two_notes =
     [(note_entry 7 0, Some (demo_note 7)), (note_entry 9 1, Some (demo_note 9))]"
  "index_count (eng two_notes) = 2"
proof -
  let ?s = "save_note 7 empty_store"
  have e: "index_count (eng empty_store) = 0" "max_index_entries (eng empty_store) = 150"
      "next_file_index (eng empty_store) = 0" "default_ttl_sec (eng empty_store) = 1814400"
      "idx (eng empty_store) = replicate 150 zero_entry"
    by (simp_all add: empty_store_def demo_engine_def)
  have 7: "index_count (eng ?s) = 1" "next_file_index (eng ?s) = 1" "max_index_entries (eng ?s) = 150"
      "default_ttl_sec (eng ?s) = 1814400" "idx (eng ?s) = (replicate 150 zero_entry)[0 := note_entry 7 0]"
    using save_note_step [of empty_store 7] empty_store_inv [of demo_notes] e
    by (simp_all add: zero_entry_def)
  have "replicate 32 (9 :: u8) \<noteq> replicate 32 7" by simp
  with 7 one_note have
    "store_inv (demo_lib demo_notes) (save_note 9 ?s) \<and>
     stored (demo_lib demo_notes) (save_note 9 ?s) =
       stored (demo_lib demo_notes) ?s @ [(note_entry 9 1, Some (demo_note 9))] \<and>
     index_count (eng (save_note 9 ?s)) = 2"
    using save_note_step(1-3) [of ?s 9] by (simp add: note_entry_def zero_entry_def)
  then show "store_inv (demo_lib demo_notes) two_notes"
    and "stored (demo_lib demo_notes) two_notes =
       [(note_entry 7 0, Some (demo_note 7)), (note_entry 9 1, Some (demo_note 9))]"
    and "index_count (eng two_notes) = 2"
    using one_note by (simp_all add: two_notes_def)
qed

definition kind_one :: nostr_filter where
  "kind_one = zero_filter\<lparr>f_kinds := [1]\<rparr>"

section \<open>Properties\<close>



text \<open>
  A saved event is found again: after a successful save, lookup by id returns the
  very event as long as its file can be read, and every other id is looked up as before.
\<close>

lemma saved_is_found:
  assumes "store_inv lib s" and "codec_ok lib ev" and "length (ev_id ev) = 32"
    and "next_file_index (eng s) \<noteq> -1" and "storage_save_event lib env ev s = (STORAGE_OK, s')"
    and "\<forall>p. env_read env' p"
  shows "storage_get_event lib env' (ev_id ev) s' = Some ev \<and> storage_event_exists s' (ev_id ev) \<and>
    (\<forall>i. i \<noteq> ev_id ev \<longrightarrow> storage_get_event lib env' i s' = storage_get_event lib env' i s)"
proof -
  let ?e = "entry_for lib env (eng s) ev (idx (eng s) ! unat (index_count (eng s)))"
  have I: "st_inv lib s" "hex_lengths lib" "initialized (eng s)"
    using assms(1) by (simp_all add: store_inv_def)
  have I': "st_inv lib s'" "initialized (eng s')" and log: "stored lib s' = stored lib s @ [(?e, Some ev)]"
    using save_step [OF I assms(2-5)] by simp_all
  have id: "ie_event_id ?e = ev_id ev" by (simp add: entry_for_def)
  have found: "storage_get_event lib env' (ev_id ev) s' = Some ev"
    using get_step [OF I'] log id assms(6) by auto
  have other: "storage_get_event lib env' i s' = storage_get_event lib env' i s" if "i \<noteq> ev_id ev" for i
  proof -
    have "storage_get_event lib env' i s' = Some x \<longleftrightarrow> storage_get_event lib env' i s = Some x" for x
      using get_step [OF I'] get_step [OF I(1,3)] log id assms(6) that by auto
    then show ?thesis by (metis option.exhaust)
  qed
  have "storage_event_exists s' (ev_id ev)"
    using exists_step [OF I'(2), of _ lib] log id by simp
  with found other show ?thesis by blast
qed

text \<open>
  Deletion takes exactly the entry with the given id out of the log, answers
  whether there was one, and from then on the id is not found.
\<close>

lemma delete_exact:
  assumes "store_inv lib s" and "storage_delete_event lib env event_id s = (r, s')"
  shows "store_inv lib s' \<and> stored lib s' = filter (\<lambda>x. log_id x \<noteq> event_id) (stored lib s) \<and>
    r = (if event_id \<in> log_id ` set (stored lib s) then STORAGE_OK else STORAGE_ERR_NOT_FOUND) \<and>
    storage_get_event lib env' event_id s' = None \<and> \<not> storage_event_exists s' event_id"
proof -
  have I: "st_inv lib s" "hex_lengths lib" "initialized (eng s)"
    using assms(1) by (simp_all add: store_inv_def)
  note d = delete_step [OF I assms(2)]
  have gone: "event_id \<notin> log_id ` set (stored lib s')" using d by auto
  then have "storage_get_event lib env' event_id s' = None"
    using d get_step [of lib s' env' event_id] by (cases "storage_get_event lib env' event_id s'") force+
  moreover have "\<not> storage_event_exists s' event_id"
    using gone d exists_step [of s' event_id lib] by simp
  ultimately show ?thesis using d I(2) by (simp add: store_inv_def)
qed

text \<open>
  \<open>storage_purge_expired\<close> removes exactly the live entries whose expiry time
  has passed, leaves the order of the others, and returns how many it removed.
\<close>

lemma purge_exact:
  assumes "store_inv lib s" and "storage_purge_expired lib env s = (n, s')"
  shows "store_inv lib s' \<and>
    stored lib s' = filter (\<lambda>x. \<not> expired (now_of env) (fst x)) (stored lib s) \<and>
    n = int (length (filter (\<lambda>x. expired (now_of env) (fst x)) (stored lib s)))"
  using purge_step [OF _ _ _ assms(2)] assms(1) unfolding store_inv_def by blast

text \<open>
  \<open>storage_compact_index\<close> changes nothing a client can see: the log is the
  same, so is every lookup; the index holds only live entries afterwards, and the result counts
  the slots that came free.
\<close>

lemma compact_invisible:
  assumes "store_inv lib s" and "storage_compact_index env s = (n, s')"
  shows "store_inv lib s' \<and> stored lib s' = stored lib s \<and>
    (\<forall>env' i. storage_get_event lib env' i s' = storage_get_event lib env' i s) \<and>
    length (used (eng s')) = length (stored lib s) \<and>
    n = int (length (used (eng s))) - int (length (used (eng s')))"
proof -
  have I: "st_inv lib s" "hex_lengths lib" "initialized (eng s)"
    using assms(1) by (simp_all add: store_inv_def)
  note c = compact_step [OF I(1,3) assms(2)]
  have "storage_get_event lib env' i s' = storage_get_event lib env' i s" for env' i
  proof -
    have "storage_get_event lib env' i s' = Some x \<longleftrightarrow> storage_get_event lib env' i s = Some x" for x
      using get_step [of lib s'] get_step [OF I(1,3)] c by auto
    then show ?thesis by (metis option.exhaust)
  qed
  moreover have "length (used (eng s')) = length (stored lib s)" using c by (simp add: stored_def)
  ultimately show ?thesis using c I(2) by (simp add: store_inv_def)
qed

text \<open>A query in terms of what it shows.\<close>

lemma query_shown:
  assumes "store_inv lib s" and "env_malloc env"
    and "\<forall>e ev. (e, Some ev) \<in> set (stored lib s) \<longrightarrow> match_contract lib f ev \<and> times_fit f ev"
    and "storage_query_events lib env f limit s = ((r, evs), s')"
  shows "r = STORAGE_OK \<and>
    evs = take (capped limit) (List.map_filter (shown lib env f) (rev (stored lib s))) \<and>
    store_inv lib s' \<and>
    (\<exists>X. (\<forall>e \<in> X. expired (now_of env) e) \<and> stored lib s' = filter (\<lambda>x. fst x \<notin> X) (stored lib s))"
proof -
  have I: "st_inv lib s" "hex_lengths lib" "initialized (eng s)"
    using assms(1) by (simp_all add: store_inv_def)
  have "List.map_filter (visible lib env f (now_of env)) (rev (stored lib s)) =
      List.map_filter (shown lib env f) (rev (stored lib s))"
  proof (rule map_filter_cong)
    fix x assume "x \<in> set (rev (stored lib s))"
    then have x: "x \<in> set (stored lib s)" by simp
    then have "match_contract lib f ev \<and> times_fit f ev" if "snd x = Some ev" for ev
      using that assms(3) by (metis prod.collapse)
    with visible_shown [OF I(1) x] show "visible lib env f (now_of env) x = shown lib env f x" by blast
  qed
  with query_step [OF I assms(4)] assms(2) I(2) show ?thesis by (simp add: store_inv_def)
qed



end
