(* ===== verification/Storage_Recovery.thy ===== *)
theory Storage_Recovery
  imports Storage_Props
begin

text \<open>
  Restarts, expiry times, statistics and the cleanup task of the storage engine: what an
  orderly restart keeps, what an interrupted save of the index loses, when an entry expires,
  and what a round of the cleanup task does to the log.
\<close>

section \<open>Starting the engine\<close>

definition capacity :: "init_env \<Rightarrow> nat" where
  "capacity ienv = (if in_psram ienv then STORAGE_INDEX_ENTRIES else 1000)"

definition init_ok :: "init_env \<Rightarrow> bool" where
  "init_ok ienv \<longleftrightarrow> in_mutex ienv \<and> (in_psram ienv \<or> in_calloc ienv) \<and> in_mount ienv = ESP_OK"

lemma fresh_capacity:
  "max_index_entries (fresh_engine ttl (capacity ienv)) = of_nat (capacity ienv)"
  "unat (of_nat (capacity ienv) :: u16) = capacity ienv"
  "length (idx (fresh_engine ttl (capacity ienv))) = capacity ienv"
  by (simp_all add: fresh_engine_def capacity_def STORAGE_INDEX_ENTRIES_def)

lemma init_eq:
  assumes "init_ok ienv"
  shows "storage_init ienv env ttl s =
    (let (err, en) = load_index_from_nvs env (nvs_store s) (fresh_engine ttl (capacity ienv));
         en = (if err \<noteq> STORAGE_OK then en\<lparr>index_count := 0, next_file_index := 0\<rparr> else en)
     in (ESP_OK, s\<lparr>eng := en\<lparr>initialized := True\<rparr>\<rparr>))"
  using assms by (auto simp: storage_init_def init_ok_def capacity_def Let_def)

text \<open>A load gives back the entries in use, so the invariant and the log carry over.\<close>

lemma same_entries:
  assumes inv: "st_inv lib s" and used: "used en = used (eng s)"
    and nxt: "next_file_index en = next_file_index (eng s)"
    and cap: "length (idx en) = unat (max_index_entries en)" "index_count en \<le> max_index_entries en"
    and fs: "files s' = files s" "eng s' = en"
  shows "st_inv lib s' \<and> stored lib s' = stored lib s"
proof -
  have live: "live en = live (eng s)" by (simp add: live_def used)
  have fe: "file_event lib s' = file_event lib s" by (auto simp: file_event_def fs)
  show ?thesis
    using inv cap by (simp add: st_inv_def stored_def fs(2) used nxt live fe)
qed


definition good_init :: init_env where
  "good_init = \<lparr>in_mutex = True, in_psram = True, in_calloc = True, in_mount = ESP_OK\<rparr>"


lemma load_fails:
  assumes m: "m ''count'' = Some (Nvs_u16 c)"
    and c: "(if max_index_entries new < c then max_index_entries new else c) = c'"
    and torn: "\<not> fst (load_chunks env m 0 (unat c') (idx new))"
  shows "fst (load_index_from_nvs env (Some m) new) \<noteq> STORAGE_OK"
proof -
  obtain xs where xs: "load_chunks env m 0 (unat c') (idx new) = (False, xs)"
    using torn by (metis (full_types) fst_conv prod.exhaust)
  show ?thesis
    by (simp add: load_index_from_nvs_def m Let_def c xs split: bool.split option.split nvs_value.split)
qed


text \<open>Power fails during the save that the tenth event triggers; NVS held three events.\<close>

definition power_cut :: storage_env where
  "power_cut = (good_env 0)\<lparr>env_nvs_set := (\<lambda>k. k = ''count'' \<or> k = ''next_idx'')\<rparr>"


section \<open>Expiry times\<close>

text \<open>
  When an entry expires: as long as now plus the default lifetime and a NIP-40
  expiration fit 32 bits, the entry of an event expires strictly after the earlier of the two,
  and with no NIP-40 expiration after the default lifetime.
\<close>

lemma expiry_exact:
  assumes "unat now + unat ttl < 2 ^ 32" and "0 < unat now + unat ttl" and "nip40 < 2 ^ 32"
    and "ie_expires_at e = entry_expiry now ttl nip40"
  shows "expired t e \<longleftrightarrow>
    (if 0 < nip40 then min (unat now + unat ttl) (nat nip40) else unat now + unat ttl) < unat t"
proof -
  have sum: "unat (now + ttl) = unat now + unat ttl"
    using assms(1) by (simp add: unat_word_ariths)
  have exp: "unat (word_of_int nip40 :: u32) = nat nip40" if "0 < nip40"
    using that assms(3) by (simp add: unat_eq_nat_uint uint_word_of_int)
  show ?thesis
    using sum exp assms(2,4)
    by (auto simp: expired_def entry_expiry_def Let_def word_less_nat_alt min_def)
qed

text \<open>
  Property C37. A NIP-40 expiration is cut to 32 bits: one that is a multiple of \<open>2 ^ 32\<close>
  gives an entry that never expires, not even after the relay's own lifetime for events.
\<close>

theorem expiration_wraps:
  assumes "0 < k" and "now + ttl \<noteq> 0" and "ie_expires_at e = entry_expiry now ttl (k * 2 ^ 32)"
  shows "\<not> expired t e"
proof -
  have u: "uint (word_of_int i :: u32) = i mod 2 ^ 32" for i by (simp add: uint_word_of_int)
  have "uint (word_of_int (k * 2 ^ 32) :: u32) = uint (0 :: u32)" by (simp only: u) simp
  then have "(word_of_int (k * 2 ^ 32) :: u32) = 0" by (simp only: word_uint_eq_iff)
  then show ?thesis
    using assms by (simp add: expired_def entry_expiry_def Let_def word_neq_0_conv)
qed

theorem expiration_wraps_witness:
  "\<not> expired (-1) (zero_entry\<lparr>ie_expires_at := entry_expiry 1000 1814400 (1 * 2 ^ 32)\<rparr>)"
  using expiration_wraps [of 1 1000 1814400] by simp

section \<open>Statistics\<close>

text \<open>The entries that count: live and not expired.\<close>

definition counted :: "u32 \<Rightarrow> storage_index_entry list \<Rightarrow> storage_index_entry list" where
  "counted now es = filter (\<lambda>e. \<not> deleted e \<and> \<not> expired now e) es"

lemma stats_loop_eq:
  "stats_loop now es st =
    st\<lparr>total_events := total_events st + of_nat (length (counted now es)),
       oldest_event_ts := fold min (map ie_created_at (counted now es)) (oldest_event_ts st),
       newest_event_ts := fold max (map ie_created_at (counted now es)) (newest_event_ts st)\<rparr>"
proof (induction es arbitrary: st)
  case Nil
  then show ?case by (simp add: counted_def)
next
  case (Cons e es)
  show ?case
  proof (cases "deleted e \<or> expired now e")
    case True
    then have "counted now (e # es) = counted now es" by (auto simp: counted_def)
    with True Cons show ?thesis by auto
  next
    case False
    then have "counted now (e # es) = e # counted now es" by (simp add: counted_def)
    moreover have "(if ie_created_at e < x then ie_created_at e else x) = min (ie_created_at e) x"
      "(if x < ie_created_at e then ie_created_at e else x) = max (ie_created_at e) x" for x
      by (auto simp: min_def max_def)
    ultimately show ?thesis using False Cons by (simp add: Let_def)
  qed
qed

lemma fold_min_Min: "fold min xs x = Min (insert x (set xs))" for x :: "'a :: linorder"
  by (simp add: Min.set_eq_fold [symmetric])

lemma fold_max_Max: "fold max xs x = Max (insert x (set xs))" for x :: "'a :: linorder"
  by (simp add: Max.set_eq_fold [symmetric])

text \<open>
  The statistics count exactly the live entries that have not expired (the 32-bit
  counter cannot wrap), and give the least and the greatest of their times, or zero for an empty
  store; the free space is what the file system reports.
\<close>

lemma stats_exact:
  fixes lib :: nostr_lib and env :: storage_env
  assumes "store_inv lib s"
  defines "shown_entries \<equiv> filter (\<lambda>e. \<not> expired (now_of env) e) (map fst (stored lib s))"
    and "st \<equiv> storage_get_stats env s"
  shows "unat (total_events st) = length shown_entries \<and>
    (if shown_entries = [] then oldest_event_ts st = 0 \<and> newest_event_ts st = 0
     else oldest_event_ts st = Min (ie_created_at ` set shown_entries) \<and>
          newest_event_ts st = Max (ie_created_at ` set shown_entries)) \<and>
    free_bytes st = of_nat (env_fs_total env) - of_nat (env_fs_used env)"
proof -
  let ?es = "counted (now_of env) (used (eng s))"
  have ini: "initialized (eng s)" and inv: "st_inv lib s" using assms(1) by (simp_all add: store_inv_def)
  have es: "shown_entries = ?es"
    by (simp add: shown_entries_def stored_def live_def counted_def comp_def conj_commute)
  have "length ?es \<le> length (used (eng s))" by (simp add: counted_def)
  also have "\<dots> < 65536" using inv_count(2) [OF inv] unat_u16_lt [of "index_count (eng s)"] by simp
  finally have n: "unat (of_nat (length ?es) :: u32) = length ?es" by (simp add: unat_of_nat)
  have zero: "(of_nat (length ?es) :: u32) = 0 \<longleftrightarrow> ?es = []"
    using n by (metis length_0_conv unat_eq_zero)
  have "Min (insert (-1) (ie_created_at ` set ?es)) = Min (ie_created_at ` set ?es)" if "?es \<noteq> []"
  proof -
    have "Min (ie_created_at ` set ?es) \<le> (-1 :: u32)" by simp
    then show ?thesis using that by (simp add: min_absorb2)
  qed
  moreover have "Max (insert 0 (ie_created_at ` set ?es)) = Max (ie_created_at ` set ?es)" if "?es \<noteq> []"
    using that by (simp add: max_absorb2)
  ultimately show ?thesis
    using ini n zero unfolding es
    by (simp add: st_def storage_get_stats_def Let_def stats_loop_eq fold_min_Min fold_max_Max)
qed

section \<open>The cleanup task\<close>

text \<open>Successive rounds of the task; the environments of its calls come in pairs.\<close>

fun cleanup_run ::
    "nostr_lib \<Rightarrow> (storage_env \<times> storage_env) list \<Rightarrow> int \<times> storage_sys \<Rightarrow> int \<times> storage_sys" where
  "cleanup_run lib [] st = st"
| "cleanup_run lib ((env1, env2) # envs) st = cleanup_run lib envs (cleanup_cycle lib env1 env2 st)"

lemma purge_frame:
  assumes "store_inv lib s" and "storage_purge_expired lib env s = (n, s')"
  shows "cleanup_stop (eng s') = cleanup_stop (eng s)"
proof -
  have loop: "cleanup_stop (eng (fst (purge_loop lib env now is t k))) = cleanup_stop (eng t)" for now "is" t k
    by (induction "is" arbitrary: t k) (simp_all add: Let_def mark_eng)
  show ?thesis
    using assms(2) loop [of "now_of env" "[0 ..< unat (index_count (eng s))]" s 0]
    by (auto simp: storage_purge_expired_def Let_def split: prod.splits if_splits)
qed

lemma compact_frame: "cleanup_stop (eng (snd (storage_compact_index env s))) = cleanup_stop (eng s)"
  by (simp add: storage_compact_index_def Let_def split: prod.split)

lemma cleanup_cycle_step:
  assumes inv: "store_inv lib s" and run: "\<not> cleanup_stop (eng s)"
    and cyc: "cleanup_cycle lib env1 env2 (c, s) = (c', s')"
  shows "store_inv lib s' \<and> \<not> cleanup_stop (eng s') \<and>
    stored lib s' = filter (\<lambda>x. \<not> expired (now_of env1) (fst x)) (stored lib s) \<and>
    c' = (if 9 \<le> c then 0 else c + 1) \<and> (9 \<le> c \<longrightarrow> length (used (eng s')) = length (stored lib s'))"
proof -
  obtain n s1 where p: "storage_purge_expired lib env1 s = (n, s1)" by force
  obtain k s2 where k: "storage_compact_index env2 s1 = (k, s2)" by force
  have I: "st_inv lib s" "hex_lengths lib" "initialized (eng s)"
    using inv by (simp_all add: store_inv_def)
  note ps = purge_step [OF I p] and pf = purge_frame [OF inv p]
  have cs: "st_inv lib s2 \<and> initialized (eng s2) \<and> stored lib s2 = stored lib s1 \<and> used (eng s2) = live (eng s1)"
    using compact_step [OF _ _ k] ps by blast
  have cf: "cleanup_stop (eng s2) = cleanup_stop (eng s1)" using compact_frame [of env2 s1] k by simp
  show ?thesis
  proof (cases "9 \<le> c")
    case True
    then have "c' = 0" "s' = s2" using cyc run p k by (simp_all add: cleanup_cycle_def Let_def)
    moreover have "length (used (eng s2)) = length (stored lib s2)"
      using cs by (metis length_map stored_def)
    ultimately show ?thesis using True ps pf cs cf run I(2) by (simp add: store_inv_def)
  next
    case False
    then have "c' = c + 1" "s' = s1" using cyc run p by (simp_all add: cleanup_cycle_def Let_def)
    with False ps pf run I(2) show ?thesis by (simp add: store_inv_def)
  qed
qed

lemma cleanup_run_step:
  assumes "store_inv lib s" and "\<not> cleanup_stop (eng s)" and "0 \<le> c" and "c < 10"
    and "cleanup_run lib envs (c, s) = (c', s')"
  shows "store_inv lib s' \<and> \<not> cleanup_stop (eng s') \<and>
    stored lib s' = filter (\<lambda>x. \<forall>(env1, env2) \<in> set envs. \<not> expired (now_of env1) (fst x)) (stored lib s) \<and>
    c' = (c + int (length envs)) mod 10 \<and>
    (envs \<noteq> [] \<and> c' = 0 \<longrightarrow> length (used (eng s')) = length (stored lib s'))"
  using assms
proof (induction envs arbitrary: c s)
  case Nil
  then show ?case by simp
next
  case (Cons p envs)
  obtain env1 env2 where p: "p = (env1, env2)" by force
  obtain c1 s1 where cyc: "cleanup_cycle lib env1 env2 (c, s) = (c1, s1)" by force
  note st = cleanup_cycle_step [OF Cons.prems(1,2) cyc]
  have "c1 = (if 9 \<le> c then 0 else c + 1)" using st by blast
  moreover have "c = 9 \<or> c < 9" using Cons.prems(4) by linarith
  ultimately have c1: "0 \<le> c1" "c1 < 10" "(c + 1) mod 10 = c1"
    using Cons.prems(3) by auto
  have rest: "cleanup_run lib envs (c1, s1) = (c', s')" using Cons.prems(5) p cyc by simp
  have IH: "store_inv lib s' \<and> \<not> cleanup_stop (eng s') \<and>
      stored lib s' = filter (\<lambda>x. \<forall>(env1, env2) \<in> set envs. \<not> expired (now_of env1) (fst x)) (stored lib s1) \<and>
      c' = (c1 + int (length envs)) mod 10 \<and>
      (envs \<noteq> [] \<and> c' = 0 \<longrightarrow> length (used (eng s')) = length (stored lib s'))"
    using Cons.IH [OF _ _ c1(1,2) rest] st by blast
  have "(c1 + int (length envs)) mod 10 = (c + int (length (p # envs))) mod 10"
    unfolding c1(3) [symmetric] by (simp add: mod_simps algebra_simps)
  moreover have "length (used (eng s')) = length (stored lib s')" if "c' = 0"
  proof (cases "envs = []")
    case True
    then have "c1 = 0" "s' = s1" using rest that by simp_all
    then show ?thesis using st Cons.prems(3) by (auto split: if_splits)
  next
    case False
    with IH that show ?thesis by blast
  qed
  ultimately show ?case using IH st by (simp add: p conj_commute)
qed

text \<open>
  Property C30. The cleanup task, round after round and whatever fails in between: after any
  number of rounds the log is the one before without what had expired at some round's clock
  reading, and in every tenth round the index is compacted, so that it holds no deleted entry
  and all slots of deleted events can be used again.
\<close>

theorem cleanup_rounds:
  assumes "store_inv lib s" and "\<not> cleanup_stop (eng s)"
    and "cleanup_run lib envs (0, s) = (c, s')"
  shows "store_inv lib s' \<and>
    stored lib s' = filter (\<lambda>x. \<forall>(env1, env2) \<in> set envs. \<not> expired (now_of env1) (fst x)) (stored lib s) \<and>
    c = int (length envs) mod 10 \<and>
    (0 < length envs \<and> length envs mod 10 = 0 \<longrightarrow> length (used (eng s')) = length (stored lib s'))"
  using cleanup_run_step [OF assms(1,2) _ _ assms(3)] by (auto simp: zmod_int)

definition running :: "storage_sys \<Rightarrow> storage_sys" where
  "running s = s\<lparr>eng := (eng s)\<lparr>cleanup_stop := False\<rparr>\<rparr>"

lemma running_inv: "store_inv lib (running s) = store_inv lib s" "stored lib (running s) = stored lib s"
proof -
  have fe: "file_event lib (running s) = file_event lib s" by (auto simp: file_event_def running_def)
  have l: "used (eng (running s)) = used (eng s)" by (simp add: running_def used_def)
  have f: "length (idx (eng (running s))) = length (idx (eng s))"
    "max_index_entries (eng (running s)) = max_index_entries (eng s)"
    "index_count (eng (running s)) = index_count (eng s)" "initialized (eng (running s)) = initialized (eng s)"
    "next_file_index (eng (running s)) = next_file_index (eng s)"
    by (simp_all add: running_def)
  show "store_inv lib (running s) = store_inv lib s" "stored lib (running s) = stored lib s"
    unfolding store_inv_def st_inv_def stored_def live_def fe l f by simp_all
qed

theorem cleanup_rounds_witness:
  "\<exists>c s'. cleanup_run (demo_lib demo_notes) (replicate 10 (good_env 1816401, good_env 0)) (0, running two_notes) = (c, s') \<and>
     c = 0 \<and> used (eng s') = []"
proof -
  let ?envs = "replicate 10 (good_env 1816401, good_env 0)"
  obtain c s' where r: "cleanup_run (demo_lib demo_notes) ?envs (0, running two_notes) = (c, s')" by force
  have "expired (now_of (good_env 1816401)) (note_entry k i)" for k i
    by (simp add: expired_def now_of_def note_entry_def good_env_def)
  then have "filter (\<lambda>x. \<forall>(env1, env2) \<in> set ?envs. \<not> expired (now_of env1) (fst x))
      (stored (demo_lib demo_notes) (running two_notes)) = []"
    by (simp add: running_inv two_notes(2))
  moreover have "store_inv (demo_lib demo_notes) (running two_notes)" "\<not> cleanup_stop (eng (running two_notes))"
    by (simp_all add: running_inv two_notes(1)) (simp add: running_def)
  ultimately have "stored (demo_lib demo_notes) s' = []" "c = 0"
      "length (used (eng s')) = length (stored (demo_lib demo_notes) s')"
    using cleanup_rounds [OF _ _ r] by simp_all
  with r show ?thesis by simp
qed

end
