(* ===== verification/Cleanup_Task.thy ===== *)
theory Cleanup_Task
  imports Storage_Recovery
begin

text \<open>
  The cleanup task of \<open>main/storage_engine.c\<close> step by step, and the loop in which
  \<open>storage_destroy\<close> waits for it to end.  The two share the flags \<open>cleanup_stop\<close> and
  \<open>cleanup_task\<close>: the task runs until it sees the first and then clears the second.
\<close>

section \<open>The task\<close>

text \<open>
  Where the task is: at the test of the outer loop, in the inner loop with its counter, at the
  test after it, before the purge, at the count of rounds, before the compaction, leaving the
  loop, or deleted.
\<close>

datatype cleanup_pc = At_Loop | At_Wait nat | At_Test | At_Purge | At_Count | At_Compact | At_Exit | Task_Gone

type_synonym cleanup_state = "cleanup_pc \<times> int \<times> storage_sys"

fun cleanup_step :: "nostr_lib \<Rightarrow> storage_env \<Rightarrow> cleanup_state \<Rightarrow> cleanup_state" where
  "cleanup_step lib env (At_Loop, cycles, s) =
     (if \<not> cleanup_stop (eng s) then (At_Wait 0, cycles, s) else (At_Exit, cycles, s))"
| "cleanup_step lib env (At_Wait i, cycles, s) =
     (if i < 60 \<and> \<not> cleanup_stop (eng s) then (At_Wait (i + 1), cycles, s) else (At_Test, cycles, s))"
| "cleanup_step lib env (At_Test, cycles, s) =
     (if cleanup_stop (eng s) then (At_Exit, cycles, s) else (At_Purge, cycles, s))"
| "cleanup_step lib env (At_Purge, cycles, s) = (At_Count, cycles + 1, snd (storage_purge_expired lib env s))"
| "cleanup_step lib env (At_Count, cycles, s) = (if 10 \<le> cycles then (At_Compact, cycles, s) else (At_Loop, cycles, s))"
| "cleanup_step lib env (At_Compact, cycles, s) = (At_Loop, 0, snd (storage_compact_index env s))"
| "cleanup_step lib env (At_Exit, cycles, s) = (Task_Gone, cycles, s\<lparr>eng := (eng s)\<lparr>cleanup_task := False\<rparr>\<rparr>)"
| "cleanup_step lib env (Task_Gone, cycles, s) = (Task_Gone, cycles, s)"

text \<open>Steps in a row, each with its environment.\<close>

fun cleanup_steps :: "nostr_lib \<Rightarrow> storage_env list \<Rightarrow> cleanup_state \<Rightarrow> cleanup_state" where
  "cleanup_steps lib [] st = st"
| "cleanup_steps lib (env # envs) st = cleanup_steps lib envs (cleanup_step lib env st)"

section \<open>The wait of \<open>storage_destroy\<close>\<close>

text \<open>
  \<open>while (engine->cleanup_task != NULL) vTaskDelay (...)\<close>: the argument lists the steps the
  task takes during each delay; the result is none when the loop is still waiting at the end of
  the list.
\<close>

fun destroy_wait :: "nostr_lib \<Rightarrow> storage_env list list \<Rightarrow> cleanup_state \<Rightarrow> cleanup_state option" where
  "destroy_wait lib delays (pc, cycles, s) =
     (if \<not> cleanup_task (eng s) then Some (pc, cycles, s)
      else case delays of
          [] \<Rightarrow> None
        | envs # delays \<Rightarrow> destroy_wait lib delays (cleanup_steps lib envs (pc, cycles, s)))"

declare destroy_wait.simps [simp del]

section \<open>One pass of the loop is one round\<close>

lemma cleanup_steps_append: "cleanup_steps lib (xs @ ys) st = cleanup_steps lib ys (cleanup_steps lib xs st)"
  by (induction xs arbitrary: st) simp_all

lemma wait_steps:
  assumes "\<not> cleanup_stop (eng s)"
  shows "i + length envs \<le> 60 \<Longrightarrow> cleanup_steps lib envs (At_Wait i, c, s) = (At_Wait (i + length envs), c, s)"
  using assms by (induction envs arbitrary: i) simp_all

lemma purge_flags:
  "cleanup_stop (eng (snd (storage_purge_expired lib env s))) = cleanup_stop (eng s)"
  "cleanup_task (eng (snd (storage_purge_expired lib env s))) = cleanup_task (eng s)"
proof -
  have loop: "cleanup_stop (eng (fst (purge_loop lib env now is t k))) = cleanup_stop (eng t) \<and>
      cleanup_task (eng (fst (purge_loop lib env now is t k))) = cleanup_task (eng t)" for now "is" t k
    by (induction "is" arbitrary: t k) (simp_all add: Let_def mark_eng)
  show "cleanup_stop (eng (snd (storage_purge_expired lib env s))) = cleanup_stop (eng s)"
    "cleanup_task (eng (snd (storage_purge_expired lib env s))) = cleanup_task (eng s)"
    using loop [of "now_of env" "[0 ..< unat (index_count (eng s))]" s 0]
    by (auto simp: storage_purge_expired_def Let_def split: prod.splits if_splits)
qed

lemma compact_flags:
  "cleanup_stop (eng (snd (storage_compact_index env s))) = cleanup_stop (eng s)"
  "cleanup_task (eng (snd (storage_compact_index env s))) = cleanup_task (eng s)"
  by (simp_all add: storage_compact_index_def Let_def split: prod.split)



section \<open>The wait ends\<close>

text \<open>How many steps the task needs at most to end once it is asked to.\<close>

fun steps_left :: "cleanup_pc \<Rightarrow> nat" where
  "steps_left At_Purge = 5"
| "steps_left At_Count = 4"
| "steps_left At_Compact = 3"
| "steps_left At_Loop = 2"
| "steps_left (At_Wait i) = 3"
| "steps_left At_Test = 2"
| "steps_left At_Exit = 1"
| "steps_left Task_Gone = 0"

text \<open>The handle is set as long as the task exists, and what a stopping task may do to the store.\<close>

definition task_ok :: "nostr_lib \<Rightarrow> cleanup_state \<Rightarrow> bool" where
  "task_ok lib st \<longleftrightarrow> (case st of (pc, c, s) \<Rightarrow>
     store_inv lib s \<and> cleanup_stop (eng s) \<and> (cleanup_task (eng s) \<longleftrightarrow> pc \<noteq> Task_Gone))"

definition only_expired :: "nostr_lib \<Rightarrow> storage_sys \<Rightarrow> storage_sys \<Rightarrow> bool" where
  "only_expired lib s s' \<longleftrightarrow>
     (\<exists>X. (\<forall>e \<in> X. \<exists>now. expired now e) \<and> stored lib s' = filter (\<lambda>x. fst x \<notin> X) (stored lib s))"

lemma only_expired_refl: "only_expired lib s s"
  unfolding only_expired_def by (rule exI [of _ "{}"]) simp

lemma only_expired_trans:
  assumes "only_expired lib s s'" and "only_expired lib s' s''"
  shows "only_expired lib s s''"
proof -
  obtain X Y where X: "\<forall>e \<in> X. \<exists>now. expired now e" "stored lib s' = filter (\<lambda>x. fst x \<notin> X) (stored lib s)"
    and Y: "\<forall>e \<in> Y. \<exists>now. expired now e" "stored lib s'' = filter (\<lambda>x. fst x \<notin> Y) (stored lib s')"
    using assms unfolding only_expired_def by blast
  have "stored lib s'' = filter (\<lambda>x. fst x \<notin> X \<union> Y) (stored lib s)"
    unfolding Y(2) X(2) by (simp add: conj_commute)
  moreover have "\<forall>e \<in> X \<union> Y. \<exists>now. expired now e" using X(1) Y(1) by blast
  ultimately show ?thesis unfolding only_expired_def by blast
qed

lemma purge_keeps:
  assumes "store_inv lib s"
  shows "store_inv lib (snd (storage_purge_expired lib env s)) \<and> only_expired lib s (snd (storage_purge_expired lib env s))"
proof -
  obtain n s1 where p: "storage_purge_expired lib env s = (n, s1)" by force
  have "store_inv lib s1" "stored lib s1 = filter (\<lambda>x. fst x \<notin> {e. expired (now_of env) e}) (stored lib s)"
    using purge_step [OF _ _ _ p] assms by (auto simp: store_inv_def)
  then show ?thesis unfolding p only_expired_def snd_conv by blast
qed

lemma compact_keeps:
  assumes "store_inv lib s"
  shows "store_inv lib (snd (storage_compact_index env s)) \<and> only_expired lib s (snd (storage_compact_index env s))"
proof -
  obtain n s1 where c: "storage_compact_index env s = (n, s1)" by force
  have "store_inv lib s1" "stored lib s1 = stored lib s"
    using compact_step [OF _ _ c] assms by (auto simp: store_inv_def)
  then show ?thesis using only_expired_refl [of lib s] by (simp add: c only_expired_def)
qed

lemma clear_task:
  "store_inv lib (s\<lparr>eng := (eng s)\<lparr>cleanup_task := b\<rparr>\<rparr>) = store_inv lib s"
  "stored lib (s\<lparr>eng := (eng s)\<lparr>cleanup_task := b\<rparr>\<rparr>) = stored lib s"
proof -
  let ?s = "s\<lparr>eng := (eng s)\<lparr>cleanup_task := b\<rparr>\<rparr>"
  have fe: "file_event lib ?s = file_event lib s" by (auto simp: file_event_def)
  have u: "used (eng ?s) = used (eng s)" by (simp add: used_def)
  show "store_inv lib ?s = store_inv lib s" "stored lib ?s = stored lib s"
    unfolding store_inv_def st_inv_def stored_def live_def fe u by simp_all
qed

lemma step_ok:
  assumes ok: "task_ok lib (pc, c, s)" and st: "cleanup_step lib env (pc, c, s) = (pc', c', s')"
  shows "task_ok lib (pc', c', s') \<and> only_expired lib s s' \<and> (pc \<noteq> Task_Gone \<longrightarrow> steps_left pc' < steps_left pc)"
proof (cases pc)
  case At_Purge
  with ok st purge_keeps [of lib s env] purge_flags [of lib env s] show ?thesis by (auto simp: task_ok_def)
next
  case At_Compact
  with ok st compact_keeps [of lib s env] compact_flags [of env s] show ?thesis by (auto simp: task_ok_def)
next
  case At_Exit
  with ok st clear_task [where lib = lib and s = s and b = False] only_expired_refl [of lib s] show ?thesis
    by (auto simp: task_ok_def only_expired_def)
qed (use ok st only_expired_refl [of lib s] in \<open>auto simp: task_ok_def split: if_splits\<close>)

lemma steps_ok:
  assumes "task_ok lib (pc, c, s)" and "cleanup_steps lib envs (pc, c, s) = (pc', c', s')"
  shows "task_ok lib (pc', c', s') \<and> only_expired lib s s' \<and> steps_left pc' \<le> steps_left pc - length envs"
  using assms
proof (induction envs arbitrary: pc c s)
  case (Cons env envs)
  obtain pc1 c1 s1 where st: "cleanup_step lib env (pc, c, s) = (pc1, c1, s1)" by (metis prod_cases3)
  note ok = step_ok [OF Cons.prems(1) st]
  have "cleanup_steps lib envs (pc1, c1, s1) = (pc', c', s')" using Cons.prems(2) st by simp
  with Cons.IH ok have IH: "task_ok lib (pc', c', s') \<and> only_expired lib s1 s' \<and> steps_left pc' \<le> steps_left pc1 - length envs"
    by blast
  have "steps_left pc' \<le> steps_left pc - length (env # envs)"
  proof (cases "pc = Task_Gone")
    case True
    then have "pc1 = Task_Gone" using st by simp
    with IH show ?thesis by simp
  next
    case False
    then have "steps_left pc1 < steps_left pc" "steps_left pc' \<le> steps_left pc1 - length envs" using ok IH by blast+
    then show ?thesis by simp
  qed
  with IH ok only_expired_trans show ?case by blast
qed (simp add: only_expired_refl)

lemma wait_ends:
  assumes "task_ok lib (pc, c, s)" and "\<forall>envs \<in> set delays. envs \<noteq> []" and "steps_left pc \<le> length delays"
  shows "\<exists>c' s'. destroy_wait lib delays (pc, c, s) = Some (Task_Gone, c', s') \<and>
    store_inv lib s' \<and> only_expired lib s s'"
  using assms
proof (induction delays arbitrary: pc c s)
  case Nil
  then have "pc = Task_Gone" by (cases pc) simp_all
  with Nil show ?case by (auto simp: destroy_wait.simps task_ok_def only_expired_refl)
next
  case (Cons envs delays)
  show ?case
  proof (cases "pc = Task_Gone")
    case True
    with Cons.prems(1) show ?thesis by (auto simp: destroy_wait.simps task_ok_def only_expired_refl)
  next
    case False
    obtain pc1 c1 s1 where st: "cleanup_steps lib envs (pc, c, s) = (pc1, c1, s1)" by (metis prod_cases3)
    note ok = steps_ok [OF Cons.prems(1) st]
    have "0 < length envs" using Cons.prems(2) by simp
    moreover have "steps_left pc1 \<le> steps_left pc - length envs" "steps_left pc \<le> length delays + 1"
      using ok Cons.prems(3) by simp_all
    ultimately have "steps_left pc1 \<le> length delays" by linarith
    with Cons.IH [of pc1 c1 s1] ok Cons.prems(2) obtain c' s' where
      "destroy_wait lib delays (pc1, c1, s1) = Some (Task_Gone, c', s')" "store_inv lib s'" "only_expired lib s1 s'"
      by auto
    with False Cons.prems(1) st ok only_expired_trans show ?thesis
      by (auto simp: destroy_wait.simps task_ok_def)
  qed
qed


definition stopping :: "storage_sys \<Rightarrow> storage_sys" where
  "stopping s = s\<lparr>eng := (eng s)\<lparr>cleanup_stop := True, cleanup_task := True\<rparr>\<rparr>"

lemma stopping_inv: "store_inv lib (stopping s) = store_inv lib s"
proof -
  have fe: "file_event lib (stopping s) = file_event lib s" by (auto simp: file_event_def stopping_def)
  have u: "used (eng (stopping s)) = used (eng s)" by (simp add: used_def stopping_def)
  show ?thesis unfolding store_inv_def st_inv_def live_def fe u by (simp add: stopping_def)
qed


end
