(* ===== verification/Storage_Crash.thy ===== *)
theory Storage_Crash
  imports Storage_Recovery
begin

text \<open>
  What a power failure costs.  The index lives in RAM and reaches NVS with every tenth save,
  every deletion, every purge that removed something and every compaction that did; expired
  entries a query finds are marked in RAM only.  This theory follows what NVS holds along any
  run of storage calls and shows what a start after a power failure between two calls restores.
\<close>

section \<open>What NVS holds\<close>

definition nvs_has :: "nvs \<Rightarrow> storage_index_entry list \<Rightarrow> u32 \<Rightarrow> bool" where
  "nvs_has st u k \<longleftrightarrow> st = None \<and> u = [] \<and> k = 0 \<or>
     (\<exists>m en. st = Some m \<and> holds_index m en \<and> used en = u \<and> unat (index_count en) = length u \<and>
        next_file_index en = k)"

text \<open>An entry of the stored index, and what has become of it in RAM.\<close>

definition kept :: "u32 set \<Rightarrow> storage_index_entry \<Rightarrow> storage_index_entry \<Rightarrow> bool" where
  "kept C e e' \<longleftrightarrow> e' = e \<or> e' = set_deleted e \<and> \<not> deleted e \<and> (\<exists>now \<in> C. expired now e)"

text \<open>
  \<open>backed lib C s u k\<close>: NVS holds the index \<open>u\<close> with the file counter \<open>k\<close>, it is a
  prefix of the index in RAM up to entries a query marked at a clock in \<open>C\<close>, no tenth save
  happened since, and it is a valid index of the files.
\<close>

definition backed :: "nostr_lib \<Rightarrow> u32 set \<Rightarrow> storage_sys \<Rightarrow> storage_index_entry list \<Rightarrow> u32 \<Rightarrow> bool" where
  "backed lib C s u k \<longleftrightarrow>
     nvs_has (nvs_store s) u k \<and> k \<le> next_file_index (eng s) \<and>
     10 * (length (used (eng s)) div 10) \<le> length u \<and>
     list_all2 (kept C) u (take (length u) (used (eng s))) \<and>
     (\<forall>e \<in> set u. ie_file_index e < k \<and> length (ie_event_id e) = 32) \<and>
     sorted_wrt (<) (map ie_file_index u) \<and>
     distinct (map ie_event_id (filter (\<lambda>e. \<not> deleted e) u)) \<and>
     (\<forall>e \<in> set u. \<not> deleted e \<longrightarrow> (\<forall>ev. file_event lib s e = Some ev \<longrightarrow> describes e ev))"

definition saved_now :: "storage_sys \<Rightarrow> bool" where
  "saved_now s \<longleftrightarrow> nvs_has (nvs_store s) (used (eng s)) (next_file_index (eng s))"

definition nvs_good :: "storage_env \<Rightarrow> bool" where
  "nvs_good env \<longleftrightarrow> env_nvs_open env \<and> (\<forall>k. env_nvs_set env k) \<and> env_nvs_commit env"

lemma list_all2_kept_refl: "list_all2 (kept C) u u"
  by (rule list_all2_refl) (simp add: kept_def)

lemma backed_now:
  assumes "st_inv lib s" and "saved_now s"
  shows "backed lib C s (used (eng s)) (next_file_index (eng s))"
  using assms by (auto simp: backed_def saved_now_def st_inv_def live_def list_all2_kept_refl)

lemma save_succeeds:
  assumes "nvs_good env"
  shows "\<exists>m. save_index_to_nvs env en st = (STORAGE_OK, Some m) \<and> holds_index m en"
proof -
  have "fst (set_chunks env c es m)" for c es m
    using assms unfolding nvs_good_def
    by (induction env c es m rule: set_chunks.induct) (subst set_chunks.simps, auto)
  then have "\<exists>st'. save_index_to_nvs env en st = (STORAGE_OK, st')"
    using assms
    by (auto simp: save_index_to_nvs_def nvs_good_def Let_def split: prod.splits bool.splits option.splits)
       (metis fst_conv)+
  then show ?thesis using save_holds_index by blast
qed

lemma persist_saved:
  assumes "nvs_good env" and "st_inv lib s"
  shows "saved_now (persist env s)"
  using save_succeeds [OF assms(1), of "eng s" "nvs_store s"] inv_count(2) [OF assms(2)]
  by (auto simp: saved_now_def persist_def nvs_has_def)

lemma backed_persist:
  assumes "nvs_good env" and "st_inv lib s"
  shows "\<exists>u k. backed lib C (persist env s) u k"
  using backed_now [OF _ persist_saved [OF assms]] assms(2) persist_step(1) by blast

text \<open>Only the used part, the counter, NVS and the files of the entries matter.\<close>

lemma backed_cong:
  assumes "backed lib C s u k" and "used (eng s') = used (eng s)" and "nvs_store s' = nvs_store s"
    and "next_file_index (eng s') = next_file_index (eng s)"
    and "\<And>e. e \<in> set u \<Longrightarrow> file_event lib s' e = None \<or> file_event lib s' e = file_event lib s e"
  shows "backed lib C s' u k"
  using assms unfolding backed_def by (metis option.distinct(1))

lemma kept_mono: "C \<subseteq> D \<Longrightarrow> kept C e e' \<Longrightarrow> kept D e e'"
  unfolding kept_def by blast

lemma backed_mono: "C \<subseteq> D \<Longrightarrow> backed lib C s u k \<Longrightarrow> backed lib D s u k"
  unfolding backed_def using list_all2_mono [of "kept C" _ _ "kept D"] kept_mono by metis

section \<open>The calls\<close>

text \<open>Unlinking the file of an entry in use leaves every other file of the stored index.\<close>

lemma unlink_event:
  "parse_file lib (files (unlink_file env p s) q) = None \<or>
   parse_file lib (files (unlink_file env p s) q) = parse_file lib (files s q)"
  by (simp add: unlink_file_def parse_file_def)

lemma mark_event:
  "file_event lib (mark_entry_expired lib env i s) e = None \<or>
   file_event lib (mark_entry_expired lib env i s) e = file_event lib s e"
  using unlink_event [of lib env "entry_path lib (idx (eng s) ! i)" s "entry_path lib e"]
  by (simp add: file_event_def mark_entry_expired_def Let_def)

lemma mark_backed:
  assumes b: "backed lib C s u k" and inv: "st_inv lib s" and i: "i < unat (index_count (eng s))"
    and e: "\<not> deleted (idx (eng s) ! i)" "expired now (idx (eng s) ! i)" and now: "now \<in> C"
  shows "backed lib C (mark_entry_expired lib env i s) u k"
proof -
  let ?s = "mark_entry_expired lib env i s" and ?e = "idx (eng s) ! i"
  have len: "i < length (used (eng s))" and nth: "used (eng s) ! i = ?e"
    using inv_count [OF inv] i by (auto simp: nth_used)
  have used: "used (eng ?s) = (used (eng s))[i := set_deleted ?e]"
    unfolding mark_entry_expired_def Let_def used_set_entry by simp
  have rel: "list_all2 (kept C) u (take (length u) (used (eng s)))" using b by (simp add: backed_def)
  have rel': "list_all2 (kept C) u (take (length u) (used (eng ?s)))"
  proof (rule list_all2_all_nthI)
    show "length u = length (take (length u) (used (eng ?s)))"
      using list_all2_lengthD [OF rel] by (simp add: used)
    fix j assume j: "j < length u"
    have "kept C (u ! j) (used (eng s) ! j)" using list_all2_nthD [OF rel j] j by simp
    moreover have "used (eng s) ! j = u ! j" if "j = i"
      using that calculation nth e(1) deleted_set [of "u ! j"] by (metis kept_def)
    ultimately show "kept C (u ! j) (take (length u) (used (eng ?s)) ! j)"
      using j len nth e now by (auto simp: used kept_def nth_list_update)
  qed
  moreover have "nvs_store ?s = nvs_store s" by (simp add: mark_entry_expired_def Let_def set_entry_def)
  moreover have "file_event lib ?s x = Some ev \<Longrightarrow> file_event lib s x = Some ev" for x ev
    using mark_event [of lib env i s x] by auto
  ultimately show ?thesis using b by (auto simp: backed_def used)
qed
lemma purge_loop_backed:
  assumes "backed lib C s u k" and "st_inv lib s" and "hex_lengths lib" and "now \<in> C"
    and "\<forall>i \<in> set is. i < unat (index_count (eng s))"
    and "purge_loop lib env now is s p = (s', p')"
  shows "backed lib C s' u k"
  using assms
proof (induction "is" arbitrary: s p)
  case (Cons i "is")
  let ?e = "idx (eng s) ! i" and ?s1 = "mark_entry_expired lib env i s"
  show ?case
  proof (cases "deleted ?e \<or> \<not> expired now ?e")
    case True
    then have "purge_loop lib env now is s p = (s', p')" using Cons.prems(6) by (auto simp: Let_def split: if_splits)
    from Cons.IH [OF Cons.prems(1-4) _ this] Cons.prems(5) show ?thesis by simp
  next
    case False
    then have loop: "purge_loop lib env now is ?s1 (p + 1) = (s', p')" using Cons.prems(6) by (simp add: Let_def)
    have i: "i < unat (index_count (eng s))" "\<not> deleted ?e" "expired now ?e" using Cons.prems(5) False by auto
    have "st_inv lib ?s1" using mark_step [OF Cons.prems(2,3) i(1,2)] by blast
    from Cons.IH [OF mark_backed [OF Cons.prems(1,2) i Cons.prems(4)] this Cons.prems(3,4) _ loop] Cons.prems(5)
    show ?thesis by simp
  qed
qed simp

lemma query_loop_backed:
  assumes "backed lib C s u k" and "st_inv lib s" and "hex_lengths lib" and "now \<in> C"
    and "i \<le> unat (index_count (eng s))"
    and "query_loop lib env f limit now i s acc = (evs, s')"
  shows "backed lib C s' u k"
  using assms
proof (induction i arbitrary: s acc)
  case (Suc i)
  let ?e = "idx (eng s) ! i" and ?s1 = "mark_entry_expired lib env i s"
  have i: "i < unat (index_count (eng s))" using Suc.prems(5) by simp
  consider "s' = s" | acc' where "query_loop lib env f limit now i s acc' = (evs, s')"
    | "\<not> deleted ?e" "expired now ?e" "query_loop lib env f limit now i ?s1 acc = (evs, s')"
    using Suc.prems(6) by (auto simp: Let_def split: if_splits option.splits)
  then show ?case
  proof cases
    case 2
    from Suc.IH [OF Suc.prems(1-4) _ this] i show ?thesis by simp
  next
    case 3
    have "st_inv lib ?s1" using mark_step [OF Suc.prems(2,3) i 3(1)] by blast
    from Suc.IH [OF mark_backed [OF Suc.prems(1,2) i 3(1,2) Suc.prems(4)] this Suc.prems(3,4) _ 3(3)] i
    show ?thesis by simp
  qed (use Suc.prems(1) in simp)
qed simp

text \<open>The next file name belongs to no stored entry.\<close>

lemma new_file_event:
  assumes b: "backed lib C s u k" and lib: "hex_lengths lib" and ident: "length ident = 32"
    and e: "e \<in> set u"
    and other: "\<And>q. q \<noteq> get_event_path lib ident (next_file_index (eng s)) 128 \<Longrightarrow> files s' q = files s q"
  shows "file_event lib s' e = file_event lib s e"
proof -
  have "ie_file_index e < next_file_index (eng s)" "length (ie_event_id e) = 32"
    using b e by (auto simp: backed_def intro: less_le_trans)
  then have "entry_path lib e \<noteq> get_event_path lib ident (next_file_index (eng s)) 128"
    using get_event_path_inj [OF lib _ ident, of "ie_event_id e" "ie_file_index e" "next_file_index (eng s)"]
    by (auto simp: entry_path_def)
  then show ?thesis by (simp add: file_event_def other)
qed

lemma save_backed:
  assumes b: "backed lib C s u k" and inv: "st_inv lib s" and lib: "hex_lengths lib" and ini: "initialized (eng s)"
    and codec: "codec_ok lib ev" and ident: "length (ev_id ev) = 32" and nowrap: "next_file_index (eng s) \<noteq> -1"
    and nvs: "nvs_good env" and save: "storage_save_event lib env ev s = (r, s')"
  shows "\<exists>u k. backed lib C s' u k"
proof (cases "r = STORAGE_OK")
  case False
  obtain fs where fs: "s' = s\<lparr>files := fs\<rparr>"
      "\<forall>q. q \<noteq> get_event_path lib (ev_id ev) (next_file_index (eng s)) 128 \<longrightarrow> fs q = files s q"
    using save_failed [OF save False] .
  have "backed lib C s' u k"
    by (rule backed_cong [OF b]) (use new_file_event [OF b lib ident, of _ s'] fs in auto)
  then show ?thesis by blast
next
  case True
  let ?e = "entry_for lib env (eng s) ev (idx (eng s) ! unat (index_count (eng s)))"
  obtain json where room: "index_count (eng s) < max_index_entries (eng s)"
    and s': "s' = (let t = push_entry ?e (s\<lparr>files := (files s)(get_event_path lib (ev_id ev) (next_file_index (eng s)) 128 \<mapsto> json)\<rparr>)
                   in if index_count (eng t) mod 10 = 0 then persist env t else t)"
    using save_stored [OF save [unfolded True]] .
  define t where "t = push_entry ?e (s\<lparr>files := (files s)(get_event_path lib (ev_id ev) (next_file_index (eng s)) 128 \<mapsto> json)\<rparr>)"
  note s' = s' [folded t_def, unfolded Let_def]
  have st': "st_inv lib s'" using save_step [OF inv lib ini codec ident nowrap save] by blast
  show ?thesis
  proof (cases "index_count (eng t) mod 10 = 0")
    case True
    then have "s' = persist env t" by (simp add: s')
    then show ?thesis using backed_persist [OF nvs] st' by simp
  next
    case False
    then have [simp]: "s' = t" by (simp add: s')
    have t: "index_count (eng t) = index_count (eng s) + 1" "next_file_index (eng t) = next_file_index (eng s) + 1"
        "nvs_store t = nvs_store s" "used (eng t) = used (eng s) @ [?e]"
      using push_used [of lib s ?e] inv room
      by (simp_all add: t_def push_entry_def Let_def set_entry_def used_def)
    have files: "file_event lib t e = file_event lib s e" if "e \<in> set u" for e
      using that by (rule new_file_event [OF b lib ident]) (simp add: t_def push_entry_def Let_def)
    have n: "length (used (eng s)) = unat (index_count (eng s))" using inv_count [OF inv] by simp
    have "unat (index_count (eng t)) mod 10 \<noteq> 0"
    proof
      assume "unat (index_count (eng t)) mod 10 = 0"
      then have "unat (index_count (eng t) mod 10) = unat (0 :: u16)" by (simp add: unat_mod_distrib)
      with False show False by (simp only: word_unat_eq_iff)
    qed
    then have "Suc (length (used (eng s))) mod 10 \<noteq> 0"
      using unat_inc [OF room] by (simp add: t n)
    then have ten: "Suc (length (used (eng s))) div 10 = length (used (eng s)) div 10"
      by (simp add: div_Suc)
    have "next_file_index (eng s) < -1" using nowrap by (simp add: order.not_eq_order_implies_strict)
    then have "next_file_index (eng s) \<le> next_file_index (eng t)"
      using unat_inc [of "next_file_index (eng s)" "-1"] by (simp add: t word_le_nat_alt)
    moreover have "length u \<le> length (used (eng s))"
      using b list_all2_lengthD [of "kept C" u "take (length u) (used (eng s))"] by (simp add: backed_def)
    ultimately have "backed lib C t u k"
      using b ten files by (auto simp: backed_def t intro: order_trans)
    then show ?thesis by auto
  qed
qed

section \<open>A run of calls\<close>

text \<open>The calls that may change the store, each with its environment.\<close>

datatype store_op =
    Op_Save nostr_event
  | Op_Delete "u8 list"
  | Op_Query nostr_filter u16
  | Op_Purge
  | Op_Compact

fun do_op :: "nostr_lib \<Rightarrow> storage_env \<Rightarrow> store_op \<Rightarrow> storage_sys \<Rightarrow> storage_sys" where
  "do_op lib env (Op_Save ev) s = snd (storage_save_event lib env ev s)"
| "do_op lib env (Op_Delete i) s = snd (storage_delete_event lib env i s)"
| "do_op lib env (Op_Query f l) s = snd (storage_query_events lib env f l s)"
| "do_op lib env Op_Purge s = snd (storage_purge_expired lib env s)"
| "do_op lib env Op_Compact s = snd (storage_compact_index env s)"

fun store_run :: "nostr_lib \<Rightarrow> (storage_env \<times> store_op) list \<Rightarrow> storage_sys \<Rightarrow> storage_sys" where
  "store_run lib [] s = s"
| "store_run lib ((env, op) # ops) s = store_run lib ops (do_op lib env op s)"

text \<open>The writes to NVS succeed, and an event to be saved has an id and a codec that round-trips.\<close>

definition op_ok :: "nostr_lib \<Rightarrow> storage_env \<times> store_op \<Rightarrow> bool" where
  "op_ok lib x \<longleftrightarrow> nvs_good (fst x) \<and>
     (case snd x of Op_Save ev \<Rightarrow> codec_ok lib ev \<and> length (ev_id ev) = 32 | _ \<Rightarrow> True)"

lemma query_counter: "next_file_index (eng (snd (query_loop lib env f l now i s acc))) = next_file_index (eng s)"
  by (induction lib env f l now i s acc rule: query_loop.induct) (auto simp: Let_def split: option.split)

lemma purge_counter: "next_file_index (eng (fst (purge_loop lib env now is s p))) = next_file_index (eng s)"
  by (induction "is" arbitrary: s p) (auto simp: Let_def)

lemma op_counter:
  "next_file_index (eng (do_op lib env op s)) =
    next_file_index (eng s) + (case op of Op_Save ev \<Rightarrow> if fst (storage_save_event lib env ev s) = STORAGE_OK then 1 else 0 | _ \<Rightarrow> 0)"
proof (cases op)
  case (Op_Save ev)
  then show ?thesis
    by (auto simp: storage_save_event_def set_entry_def unlink_file_def Let_def split: option.split)
next
  case (Op_Delete i)
  then show ?thesis by (auto simp: storage_delete_event_def set_entry_def Let_def split: option.split)
next
  case (Op_Query f l)
  then show ?thesis
    by (auto simp: storage_query_events_def Let_def case_prod_beta query_counter)
next
  case Op_Purge
  then show ?thesis
    using purge_counter [of lib env "now_of env" "[0 ..< unat (index_count (eng s))]" s 0]
    by (auto simp: storage_purge_expired_def Let_def split: prod.split)
next
  case Op_Compact
  then show ?thesis by (auto simp: storage_compact_index_def Let_def split: prod.split)
qed

lemma op_inv:
  fixes env :: storage_env
  assumes inv: "store_inv lib s" and ok: "op_ok lib (env, op)" and nowrap: "next_file_index (eng s) \<noteq> -1"
  shows "store_inv lib (do_op lib env op s)"
proof -
  have I: "st_inv lib s" "hex_lengths lib" "initialized (eng s)" using inv by (simp_all add: store_inv_def)
  show ?thesis
  proof (cases op)
    case (Op_Save ev)
    then show ?thesis
      using save_step [OF I(1,2,3) _ _ nowrap surjective_pairing] ok I(2) by (simp add: op_ok_def store_inv_def)
  next
    case (Op_Delete i)
    then show ?thesis using delete_step [OF I surjective_pairing] I(2) by (simp add: store_inv_def)
  next
    case (Op_Query f l)
    obtain r evs s' where q: "storage_query_events lib env f l s = ((r, evs), s')" by (metis prod.exhaust)
    show ?thesis using query_step [OF I(1,2,3) q] I(2) q Op_Query by (auto simp: store_inv_def)
  next
    case Op_Purge
    then show ?thesis using purge_step [OF I surjective_pairing] I(2) by (simp add: store_inv_def)
  next
    case Op_Compact
    then show ?thesis using compact_step [OF I(1,3) surjective_pairing] I(2) by (simp add: store_inv_def)
  qed
qed

lemma op_backed:
  assumes b: "backed lib C s u k" and inv: "store_inv lib s" and ok: "op_ok lib (env, op)"
    and nowrap: "next_file_index (eng s) \<noteq> -1" and now: "now_of env \<in> C"
  shows "\<exists>u k. backed lib C (do_op lib env op s) u k"
proof -
  have I: "st_inv lib s" "hex_lengths lib" "initialized (eng s)" using inv by (simp_all add: store_inv_def)
  have nvs: "nvs_good env" using ok by (simp add: op_ok_def)
  have st': "st_inv lib (do_op lib env op s)" using op_inv [OF inv ok nowrap] by (simp add: store_inv_def)
  show ?thesis
  proof (cases op)
    case (Op_Save ev)
    then show ?thesis using save_backed [OF b I _ _ nowrap nvs surjective_pairing] ok by (simp add: op_ok_def)
  next
    case (Op_Delete i)
    show ?thesis
    proof (cases "find_index_entry (eng s) i")
      case None
      then show ?thesis using b I(3) Op_Delete by (auto simp: storage_delete_event_def)
    next
      case (Some j)
      then obtain t where "do_op lib env op s = persist env t"
        using I(3) Op_Delete by (auto simp: storage_delete_event_def Let_def)
      then show ?thesis using backed_persist [OF nvs] st' by simp
    qed
  next
    case (Op_Query f l)
    let ?l = "unat (if 500 < l then 500 else l)"
    obtain evs s' where loop: "query_loop lib env f ?l (now_of env) (unat (index_count (eng s))) s [] = (evs, s')" by force
    have "do_op lib env op s = (if env_malloc env then s' else s)"
      using loop I(3) Op_Query by (cases "env_malloc env") (simp_all add: storage_query_events_def Let_def split del: if_split)
    then show ?thesis using b query_loop_backed [OF b I(1,2) now order_refl loop] by auto
  next
    case Op_Purge
    obtain s1 p where loop: "purge_loop lib env (now_of env) [0 ..< unat (index_count (eng s))] s 0 = (s1, p)" by force
    have "do_op lib env op s = (if 0 < p then persist env s1 else s1)"
      using I(3) loop Op_Purge by (simp add: storage_purge_expired_def Let_def)
    then show ?thesis
      using backed_persist [OF nvs] st' purge_loop_backed [OF b I(1,2) now _ loop] by (auto split: if_splits)
  next
    case Op_Compact
    obtain n s' where c: "storage_compact_index env s = (n, s')" by force
    then have s': "do_op lib env op s = s'" using Op_Compact by simp
    show ?thesis
    proof (cases "0 < n")
      case True
      then obtain t where "s' = persist env t"
        using c I(3) by (auto simp: storage_compact_index_def Let_def split: prod.splits)
      then show ?thesis using backed_persist [OF nvs] st' s' by simp
    next
      case False
      note cs = compact_step [OF I(1,3) c]
      have "length (live (eng s)) \<le> length (used (eng s))" by (simp add: live_def)
      with False cs have "length (live (eng s)) = length (used (eng s))" by linarith
      then have "live (eng s) = used (eng s)"
        unfolding live_def by (metis filter_id_conv length_filter_less less_irrefl)
      moreover have "nvs_store s' = nvs_store s" "next_file_index (eng s') = next_file_index (eng s)" "files s' = files s"
        using c I(3) False by (auto simp: storage_compact_index_def Let_def split: prod.splits)
      ultimately have "backed lib C s' u k"
        using cs by (intro backed_cong [OF b]) (auto simp: file_event_def)
      then show ?thesis using s' by blast
    qed
  qed
qed

lemma run_backed:
  assumes "backed lib C s u k" and "store_inv lib s" and "\<forall>x \<in> set ops. op_ok lib x \<and> now_of (fst x) \<in> C"
    and "unat (next_file_index (eng s)) + length ops < 2 ^ 32"
  shows "store_inv lib (store_run lib ops s) \<and> (\<exists>u k. backed lib C (store_run lib ops s) u k)"
  using assms
proof (induction ops arbitrary: s u k)
  case (Cons x ops)
  obtain env op where x: "x = (env, op)" by force
  have nowrap: "next_file_index (eng s) \<noteq> -1"
  proof
    assume "next_file_index (eng s) = -1"
    then have "next_file_index (eng s) = 4294967295" by simp
    then have "unat (next_file_index (eng s)) = 4294967295" by simp
    with Cons.prems(4) show False by simp
  qed
  let ?s = "do_op lib env op s"
  have inv: "store_inv lib ?s" using op_inv [OF Cons.prems(2) _ nowrap] Cons.prems(3) x by simp
  obtain u' k' where b: "backed lib C ?s u' k'"
    using op_backed [OF Cons.prems(1,2) _ nowrap, of env op] Cons.prems(3) x by auto
  have "unat (next_file_index (eng s) + 1) = unat (next_file_index (eng s)) + 1"
    using nowrap unat_inc [of "next_file_index (eng s)" "-1"] by (simp add: order.not_eq_order_implies_strict)
  then have "unat (next_file_index (eng ?s)) \<le> unat (next_file_index (eng s)) + 1"
    using op_counter [of lib env op s] by (auto split: store_op.split)
  then have "unat (next_file_index (eng ?s)) + length ops < 2 ^ 32" using Cons.prems(4) by simp
  from Cons.IH [OF b inv _ this] Cons.prems(3) x show ?case by simp
qed auto

section \<open>Restart after a power failure\<close>

lemma kept_filter:
  assumes "list_all2 (kept C) u v" and "sorted_wrt (<) (map ie_file_index u)"
  shows "\<exists>X \<subseteq> set u. (\<forall>e \<in> X. \<exists>now \<in> C. expired now e) \<and>
    filter (\<lambda>e. \<not> deleted e) v = filter (\<lambda>e. e \<notin> X) (filter (\<lambda>e. \<not> deleted e) u)"
  using assms
proof (induction rule: list_all2_induct)
  case (Cons e u e' v)
  then obtain X where X: "X \<subseteq> set u" "\<forall>e \<in> X. \<exists>now \<in> C. expired now e"
      "filter (\<lambda>e. \<not> deleted e) v = filter (\<lambda>e. e \<notin> X) (filter (\<lambda>e. \<not> deleted e) u)" by auto
  have e: "e \<notin> set u" using Cons.prems by auto
  show ?case
  proof (cases "e' = e")
    case True
    then have "filter (\<lambda>e. \<not> deleted e) (e' # v) = filter (\<lambda>x. x \<notin> X) (filter (\<lambda>e. \<not> deleted e) (e # u))"
      using X e by auto
    with X show ?thesis by (meson set_subset_Cons subset_trans)
  next
    case False
    then have k: "e' = set_deleted e" "\<not> deleted e" "\<exists>now \<in> C. expired now e" using Cons.hyps by (auto simp: kept_def)
    have "filter (\<lambda>x. x \<notin> insert e X) (filter (\<lambda>e. \<not> deleted e) u) = filter (\<lambda>x. x \<notin> X) (filter (\<lambda>e. \<not> deleted e) u)"
      using e by (intro filter_cong [OF refl]) auto
    then have "filter (\<lambda>e. \<not> deleted e) (e' # v) =
        filter (\<lambda>x. x \<notin> insert e X) (filter (\<lambda>e. \<not> deleted e) (e # u))"
      using X k by simp
    moreover have "insert e X \<subseteq> set (e # u)" "\<forall>x \<in> insert e X. \<exists>now \<in> C. expired now x" using X k by auto
    ultimately show ?thesis by blast
  qed
qed (auto intro: exI [of _ "{}"])

text \<open>A start restores what NVS holds.\<close>

lemma init_restores:
  assumes nvs: "nvs_has (nvs_store s) u k" and ok: "init_ok ienv"
    and get: "env_nvs_open env" "\<forall>k. env_nvs_get env k" and cap: "length u \<le> capacity ienv"
    and init: "storage_init ienv env ttl s = (e, s')"
  shows "e = ESP_OK \<and> used (eng s') = u \<and> next_file_index (eng s') = k \<and> initialized (eng s') \<and>
    files s' = files s \<and> nvs_store s' = nvs_store s \<and>
    length (idx (eng s')) = unat (max_index_entries (eng s')) \<and> index_count (eng s') \<le> max_index_entries (eng s')"
proof -
  let ?new = "fresh_engine ttl (capacity ienv)"
  consider "nvs_store s = None" "u = []" "k = 0"
    | m en where "nvs_store s = Some m" "holds_index m en" "used en = u" "unat (index_count en) = length u" "next_file_index en = k"
    using nvs by (auto simp: nvs_has_def)
  then show ?thesis
  proof cases
    case 1
    then show ?thesis
      using init init_eq [OF ok, of env ttl s] get fresh_capacity
      by (auto simp: load_index_from_nvs_def Let_def used_def fresh_engine_def)
  next
    case 2
    have le: "index_count en \<le> max_index_entries ?new" using cap fresh_capacity 2(4) by (simp add: word_le_nat_alt)
    have src: "unat (index_count en) \<le> length (idx en)" using 2(3,4) by (metis length_take min.cobounded1 used_def)
    have "load_index_from_nvs env (nvs_store s) ?new =
        (STORAGE_OK, ?new\<lparr>index_count := index_count en, next_file_index := next_file_index en, idx := blit 0 u (idx ?new)\<rparr>)"
      using load_holds_index [OF 2(2) get src le] fresh_capacity 2(1,3) by simp
    then show ?thesis
      using init init_eq [OF ok, of env ttl s] 2(1,4,5) le fresh_capacity cap
      by (auto simp: Let_def used_def blit_def)
  qed
qed

lemma tens_left: "10 * (n div 10) \<le> m \<Longrightarrow> n - m \<le> 9" for m n :: nat
  using div_mult_mod_eq [of n 10] mod_less_divisor [of 10 n] by linarith

lemma restored_log:
  assumes rel: "list_all2 (kept C) u (take (length u) (used (eng s)))" and sorted: "sorted_wrt (<) (map ie_file_index u)"
    and used: "used (eng s') = u" and fe: "file_event lib s' = file_event lib s"
    and n: "length (drop (length u) (used (eng s))) \<le> n"
  shows "\<exists>X lost. length lost \<le> n \<and> (\<forall>x \<in> X. \<exists>now \<in> C. expired now x) \<and>
    stored lib s = filter (\<lambda>x. fst x \<notin> X) (stored lib s') @ lost"
proof -
  let ?v = "take (length u) (used (eng s))" and ?w = "drop (length u) (used (eng s))"
  from kept_filter [OF rel sorted] obtain X where X: "X \<subseteq> set u" "\<forall>x \<in> X. \<exists>now \<in> C. expired now x"
      "filter (\<lambda>e. \<not> deleted e) ?v = filter (\<lambda>e. e \<notin> X) (filter (\<lambda>e. \<not> deleted e) u)"
    by (elim exE conjE)
  let ?lost = "map (\<lambda>e. (e, file_event lib s e)) (filter (\<lambda>e. \<not> deleted e) ?w)"
  have "live (eng s) = filter (\<lambda>e. \<not> deleted e) (?v @ ?w)" by (simp add: live_def)
  then have "live (eng s) = filter (\<lambda>e. e \<notin> X) (live (eng s')) @ filter (\<lambda>e. \<not> deleted e) ?w"
    unfolding filter_append X(3) by (simp add: live_def used)
  then have "stored lib s = filter (\<lambda>x. fst x \<notin> X) (stored lib s') @ ?lost"
    unfolding stored_def fe by (simp add: filter_map comp_def)
  moreover have "length ?lost \<le> n" using n length_filter_le [of "\<lambda>e. \<not> deleted e" ?w] by simp
  ultimately show ?thesis using X(2) by (intro exI conjI)
qed



end
