(* ===== verification/Rate_Limiter.thy ===== *)
theory Rate_Limiter
  imports Nostr_Interface
begin

text \<open>
  \<open>main/rate_limiter.c\<close>: a fixed-window limiter with one bucket per connection in an array
  of 16.  The model keeps the array as a list and threads it through every operation; each
  operation runs under the mutex, so one call is one atomic step.  A reading of
  \<open>esp_timer_get_time\<close> (microseconds) is an argument; \<open>rate_limiter_check\<close> reads
  the timer twice, once in \<open>get_bucket\<close> when it opens a bucket and once for the window.
  \<open>rl_view\<close> is the finite map from connections to buckets that the array stands for.
\<close>

section \<open>Data\<close>

definition RATE_LIMITER_MAX_BUCKETS :: nat where
  "RATE_LIMITER_MAX_BUCKETS = 16"

datatype rate_type = RATE_TYPE_EVENT | RATE_TYPE_REQ

record rate_config =
  events_per_minute :: u16
  reqs_per_minute :: u16

record rate_bucket =
  rb_fd :: int
  event_count :: u16
  req_count :: u16
  window_start :: u32
  rb_active :: bool

record rate_limiter =
  rl_config :: rate_config
  rl_buckets :: "rate_bucket list"
  rl_lock :: bool \<comment> \<open>the mutex handle is not NULL\<close>

text \<open>\<open>memset\<close> to zero\<close>

definition zero_bucket :: rate_bucket where
  "zero_bucket = \<lparr>rb_fd = 0, event_count = 0, req_count = 0, window_start = 0, rb_active = False\<rparr>"

text \<open>\<open>uint32_t now = esp_timer_get_time () / 1000000\<close>: signed 64-bit division, then truncation.\<close>

definition esp_seconds :: "int \<Rightarrow> u32" where
  "esp_seconds us = word_of_int (us sdiv 1000000)"

section \<open>Operations\<close>

definition rate_limiter_init :: "rate_config option \<Rightarrow> bool \<Rightarrow> rate_limiter" where
  "rate_limiter_init config mutex_ok =
     \<lparr>rl_config = (case config of
          Some c \<Rightarrow> c
        | None \<Rightarrow> \<lparr>events_per_minute = 30, reqs_per_minute = 60\<rparr>),
      rl_buckets = replicate RATE_LIMITER_MAX_BUCKETS zero_bucket,
      rl_lock = mutex_ok\<rparr>"

definition rate_limiter_destroy :: "rate_limiter option \<Rightarrow> rate_limiter option" where
  "rate_limiter_destroy rl = map_option (\<lambda>r. if rl_lock r then r\<lparr>rl_lock := False\<rparr> else r) rl"

definition open_bucket :: "int \<Rightarrow> int \<Rightarrow> rate_bucket" where
  "open_bucket fd us =
     \<lparr>rb_fd = fd, event_count = 0, req_count = 0, window_start = esp_seconds us, rb_active = True\<rparr>"

definition get_bucket :: "rate_limiter \<Rightarrow> int \<Rightarrow> int \<Rightarrow> nat option \<times> rate_limiter" where
  "get_bucket rl fd us =
     (case find_slot (\<lambda>b. rb_active b \<and> rb_fd b = fd) (rl_buckets rl) of
        Some i \<Rightarrow> (Some i, rl)
      | None \<Rightarrow>
          (case find_slot (\<lambda>b. \<not> rb_active b) (rl_buckets rl) of
             Some i \<Rightarrow> (Some i, rl\<lparr>rl_buckets := (rl_buckets rl)[i := open_bucket fd us]\<rparr>)
           | None \<Rightarrow> (None, rl)))"

text \<open>\<open>if (now - bucket->window_start >= 60) { ... }\<close>, an unsigned 32-bit difference.\<close>

definition roll_window :: "u32 \<Rightarrow> rate_bucket \<Rightarrow> rate_bucket" where
  "roll_window now b =
     (if 60 \<le> now - window_start b
      then b\<lparr>event_count := 0, req_count := 0, window_start := now\<rparr> else b)"

text \<open>The two branches on the request type.\<close>

definition take_token :: "rate_config \<Rightarrow> rate_type \<Rightarrow> rate_bucket \<Rightarrow> bool \<times> rate_bucket" where
  "take_token c ty b =
     (case ty of
        RATE_TYPE_EVENT \<Rightarrow>
          if events_per_minute c \<le> event_count b then (False, b)
          else (True, b\<lparr>event_count := event_count b + 1\<rparr>)
      | RATE_TYPE_REQ \<Rightarrow>
          if reqs_per_minute c \<le> req_count b then (False, b)
          else (True, b\<lparr>req_count := req_count b + 1\<rparr>))"

definition rate_limiter_check ::
    "rate_limiter \<Rightarrow> int \<Rightarrow> rate_type \<Rightarrow> int \<Rightarrow> int \<Rightarrow> bool \<times> rate_limiter" where
  "rate_limiter_check rl fd ty us_open us =
     (case get_bucket rl fd us_open of
        (None, rl1) \<Rightarrow> (False, rl1)
      | (Some i, rl1) \<Rightarrow>
          (let b = roll_window (esp_seconds us) (rl_buckets rl1 ! i);
               (allowed, b') = take_token (rl_config rl1) ty b
           in (allowed, rl1\<lparr>rl_buckets := (rl_buckets rl1)[i := b']\<rparr>)))"

definition rate_limiter_reset :: "rate_limiter \<Rightarrow> int \<Rightarrow> rate_limiter" where
  "rate_limiter_reset rl fd =
     (case find_slot (\<lambda>b. rb_active b \<and> rb_fd b = fd) (rl_buckets rl) of
        Some i \<Rightarrow> rl\<lparr>rl_buckets :=
                      (rl_buckets rl)[i := (rl_buckets rl ! i)\<lparr>rb_active := False\<rparr>]\<rparr>
      | None \<Rightarrow> rl)"

section \<open>The map of buckets and the invariant\<close>

interpretation bucket_table: slot_table rb_active rb_fd zero_bucket
  by unfold_locales (simp add: zero_bucket_def)

definition rl_view :: "rate_limiter \<Rightarrow> int \<Rightarrow> rate_bucket option" where
  "rl_view rl = slot_map rb_active rb_fd (rl_buckets rl)"

definition bucket_ok :: "rate_config \<Rightarrow> rate_bucket \<Rightarrow> bool" where
  "bucket_ok c b \<longleftrightarrow> event_count b \<le> events_per_minute c \<and> req_count b \<le> reqs_per_minute c"

definition rl_inv :: "rate_limiter \<Rightarrow> bool" where
  "rl_inv rl \<longleftrightarrow>
     length (rl_buckets rl) = RATE_LIMITER_MAX_BUCKETS \<and>
     slots_distinct rb_active rb_fd (rl_buckets rl) \<and>
     (\<forall>fd b. rl_view rl fd = Some b \<longrightarrow> bucket_ok (rl_config rl) b)"

lemma rb_active_open [simp]: "rb_active (open_bucket fd us)"
  and rb_fd_open [simp]: "rb_fd (open_bucket fd us) = fd"
  by (simp_all add: open_bucket_def)

lemma roll_window_frame [simp]:
  "rb_active (roll_window now b) = rb_active b" "rb_fd (roll_window now b) = rb_fd b"
  by (simp_all add: roll_window_def)

lemma take_token_frame:
  assumes "take_token c ty b = (r, b')"
  shows "rb_active b' = rb_active b" and "rb_fd b' = rb_fd b"
    and "window_start b' = window_start b"
  using assms by (auto simp: take_token_def split: rate_type.splits if_splits)

lemma bucket_ok_open: "bucket_ok c (open_bucket fd us)"
  by (simp add: bucket_ok_def open_bucket_def)

lemma bucket_ok_roll: "bucket_ok c b \<Longrightarrow> bucket_ok c (roll_window now b)"
  by (simp add: bucket_ok_def roll_window_def)

lemma bucket_ok_take:
  assumes "take_token c ty b = (r, b')" and "bucket_ok c b"
  shows "bucket_ok c b'"
  using assms
  by (auto simp: take_token_def bucket_ok_def split: rate_type.splits if_splits intro!: inc_word_le)

section \<open>Refinement of an abstract limiter\<close>

text \<open>
  The abstract limiter works on the finite map directly: it opens a bucket for an unknown
  connection while fewer than 16 are open, then rolls the window and takes a token.
\<close>

definition limiter_spec ::
    "rate_config \<Rightarrow> (int \<Rightarrow> rate_bucket option) \<Rightarrow> int \<Rightarrow> rate_type \<Rightarrow> int \<Rightarrow> int \<Rightarrow>
     bool \<times> (int \<Rightarrow> rate_bucket option)" where
  "limiter_spec c m fd ty us_open us =
     (if m fd = None \<and> RATE_LIMITER_MAX_BUCKETS \<le> card (dom m) then (False, m)
      else
        let b = (case m fd of Some b \<Rightarrow> b | None \<Rightarrow> open_bucket fd us_open);
            (allowed, b') = take_token c ty (roll_window (esp_seconds us) b)
        in (allowed, m(fd \<mapsto> b')))"

lemma rl_view_SomeD:
  assumes "rl_view rl fd = Some b"
  shows "rb_active b" and "rb_fd b = fd"
  using assms bucket_table.map_SomeD unfolding rl_view_def by blast+

lemma rl_inv_bucket: "rl_inv rl \<Longrightarrow> rl_view rl fd = Some b \<Longrightarrow> bucket_ok (rl_config rl) b"
  by (simp add: rl_inv_def)

text \<open>What \<open>get_bucket\<close> finds, opens or refuses.\<close>

lemma get_bucket_found:
  assumes "rl_inv rl" and "rl_view rl fd = Some b"
  obtains i where "get_bucket rl fd us = (Some i, rl)" and "i < length (rl_buckets rl)"
    and "rl_buckets rl ! i = b" and "rb_active b" and "rb_fd b = fd"
proof -
  from assms(2) obtain i
    where i: "find_slot (\<lambda>b. rb_active b \<and> rb_fd b = fd) (rl_buckets rl) = Some i"
      and b: "rl_buckets rl ! i = b"
    by (auto simp: rl_view_def slot_map_def)
  with find_slot_SomeD [OF i] show thesis
    by (intro that [of i]) (auto simp: get_bucket_def)
qed

lemma get_bucket_opens:
  assumes "rl_inv rl" and "rl_view rl fd = None"
    and "card (dom (rl_view rl)) < RATE_LIMITER_MAX_BUCKETS"
  obtains i where "get_bucket rl fd us =
      (Some i, rl\<lparr>rl_buckets := (rl_buckets rl)[i := open_bucket fd us]\<rparr>)"
    and "i < length (rl_buckets rl)" and "\<not> rb_active (rl_buckets rl ! i)"
proof -
  have none: "find_slot (\<lambda>b. rb_active b \<and> rb_fd b = fd) (rl_buckets rl) = None"
    using assms(2) by (simp add: rl_view_def bucket_table.scan_miss)
  have "count_slots rb_active (rl_buckets rl) < length (rl_buckets rl)"
    using assms by (simp add: rl_inv_def rl_view_def bucket_table.card_dom)
  then obtain i where i: "find_slot (\<lambda>b. \<not> rb_active b) (rl_buckets rl) = Some i"
    by (cases "find_slot (\<lambda>b. \<not> rb_active b) (rl_buckets rl)")
       (auto simp: count_slots_full find_slot_None)
  with none find_slot_SomeD [OF i] show thesis
    by (intro that [of i]) (auto simp: get_bucket_def)
qed

lemma get_bucket_refuses:
  assumes "rl_inv rl" and "rl_view rl fd = None"
    and "RATE_LIMITER_MAX_BUCKETS \<le> card (dom (rl_view rl))"
  shows "get_bucket rl fd us = (None, rl)"
proof -
  have none: "find_slot (\<lambda>b. rb_active b \<and> rb_fd b = fd) (rl_buckets rl) = None"
    using assms(2) by (simp add: rl_view_def bucket_table.scan_miss)
  have "\<not> count_slots rb_active (rl_buckets rl) < length (rl_buckets rl)"
    using assms by (simp add: rl_inv_def rl_view_def bucket_table.card_dom)
  then have "find_slot (\<lambda>b. \<not> rb_active b) (rl_buckets rl) = None"
    by (auto simp: count_slots_full find_slot_None)
  with none show ?thesis by (simp add: get_bucket_def)
qed

text \<open>One call is one step of the abstract limiter and keeps the invariant.\<close>

lemma rl_inv_view:
  assumes "rl_inv rl" and "length bs = length (rl_buckets rl)"
    and "slots_distinct rb_active rb_fd bs"
    and "slot_map rb_active rb_fd bs = (rl_view rl)(fd \<mapsto> b)" and "bucket_ok (rl_config rl) b"
  shows "rl_inv (rl\<lparr>rl_buckets := bs\<rparr>) \<and>
    rl_view (rl\<lparr>rl_buckets := bs\<rparr>) = (rl_view rl)(fd \<mapsto> b)"
  using assms by (auto simp: rl_inv_def rl_view_def split: if_splits)

lemma check_step:
  assumes inv: "rl_inv rl"
    and chk: "rate_limiter_check rl fd ty us_open us = (r, rl')"
  shows "rl_inv rl' \<and> rl_config rl' = rl_config rl \<and>
    limiter_spec (rl_config rl) (rl_view rl) fd ty us_open us = (r, rl_view rl')"
proof (cases "rl_view rl fd")
  case (Some b)
  obtain i where i: "get_bucket rl fd us_open = (Some i, rl)" "i < length (rl_buckets rl)"
      "rl_buckets rl ! i = b" "rb_active b" "rb_fd b = fd"
    using get_bucket_found [OF inv Some] .
  obtain b' where t: "take_token (rl_config rl) ty (roll_window (esp_seconds us) b) = (r, b')"
    and rl': "rl' = rl\<lparr>rl_buckets := (rl_buckets rl)[i := b']\<rparr>"
    using chk i by (auto simp: rate_limiter_check_def Let_def split: prod.splits)
  note fr = take_token_frame [OF t]
  have d: "slots_distinct rb_active rb_fd (rl_buckets rl)" using inv by (simp add: rl_inv_def)
  have "bucket_ok (rl_config rl) b'"
    using t bucket_ok_roll [OF rl_inv_bucket [OF inv Some]] by (rule bucket_ok_take)
  then have "rl_inv rl' \<and> rl_view rl' = (rl_view rl)(fd \<mapsto> b')"
    unfolding rl' using i fr
    by (intro rl_inv_view inv)
       (auto simp: rl_view_def bucket_table.map_same [OF d] intro: bucket_table.distinct_same [OF d])
  with Some t rl' show ?thesis by (simp add: limiter_spec_def)
next
  case None
  show ?thesis
  proof (cases "RATE_LIMITER_MAX_BUCKETS \<le> card (dom (rl_view rl))")
    case True
    from get_bucket_refuses [OF inv None True] chk inv None True show ?thesis
      by (simp add: rate_limiter_check_def limiter_spec_def)
  next
    case False
    then obtain i where i: "get_bucket rl fd us_open =
        (Some i, rl\<lparr>rl_buckets := (rl_buckets rl)[i := open_bucket fd us_open]\<rparr>)"
      "i < length (rl_buckets rl)" "\<not> rb_active (rl_buckets rl ! i)"
      using get_bucket_opens [OF inv None] by (metis not_le)
    obtain b' where t: "take_token (rl_config rl) ty
          (roll_window (esp_seconds us) (open_bucket fd us_open)) = (r, b')"
      and rl': "rl' = rl\<lparr>rl_buckets := (rl_buckets rl)[i := b']\<rparr>"
      using chk i by (auto simp: rate_limiter_check_def Let_def split: prod.splits)
    note fr = take_token_frame [OF t]
    have d: "slots_distinct rb_active rb_fd (rl_buckets rl)" using inv by (simp add: rl_inv_def)
    have n: "slot_map rb_active rb_fd (rl_buckets rl) (rb_fd b') = None"
      using None fr by (simp add: rl_view_def)
    have "bucket_ok (rl_config rl) b'"
      using t bucket_ok_roll [OF bucket_ok_open] by (rule bucket_ok_take)
    then have "rl_inv rl' \<and> rl_view rl' = (rl_view rl)(fd \<mapsto> b')"
      unfolding rl' using i fr n
      by (intro rl_inv_view inv)
         (auto simp: rl_view_def bucket_table.map_fresh [OF d] intro: bucket_table.distinct_fresh [OF d])
    with None False t rl' show ?thesis by (simp add: limiter_spec_def)
  qed
qed

lemma init_inv:
  "rl_inv (rate_limiter_init config m)" "rl_view (rate_limiter_init config m) = Map.empty"
  by (simp_all add: rl_inv_def rl_view_def rate_limiter_init_def bucket_table.all_blank
        bucket_table.distinct_blank)

lemma reset_step:
  assumes inv: "rl_inv rl"
  shows "rl_inv (rate_limiter_reset rl fd) \<and>
    rl_config (rate_limiter_reset rl fd) = rl_config rl \<and>
    rl_view (rate_limiter_reset rl fd) = (rl_view rl)(fd := None)"
proof (cases "find_slot (\<lambda>b. rb_active b \<and> rb_fd b = fd) (rl_buckets rl)")
  case None
  then have "rl_view rl fd = None" by (simp add: rl_view_def bucket_table.scan_miss)
  then have "(rl_view rl)(fd := None) = rl_view rl" by (auto simp: fun_upd_idem)
  with None inv show ?thesis by (simp add: rate_limiter_reset_def)
next
  case (Some i)
  note i = find_slot_SomeD [OF Some]
  have d: "slots_distinct rb_active rb_fd (rl_buckets rl)" using inv by (simp add: rl_inv_def)
  let ?bs = "(rl_buckets rl)[i := (rl_buckets rl ! i)\<lparr>rb_active := False\<rparr>]"
  have "slot_map rb_active rb_fd ?bs = (rl_view rl)(fd := None)"
    using i bucket_table.map_clear [OF d, of i "(rl_buckets rl ! i)\<lparr>rb_active := False\<rparr>"]
    by (simp add: rl_view_def)
  moreover have "slots_distinct rb_active rb_fd ?bs"
    using i by (intro bucket_table.distinct_clear [OF d]) auto
  ultimately show ?thesis
    using inv Some by (auto simp: rl_inv_def rl_view_def rate_limiter_reset_def split: if_splits)
qed

section \<open>Runs of checks\<close>

text \<open>A check: the connection, the request type and the two readings of the timer.\<close>

type_synonym check_call = "int \<times> rate_type \<times> int \<times> int"

fun rl_run :: "rate_limiter \<Rightarrow> check_call list \<Rightarrow> bool list \<times> rate_limiter" where
  "rl_run rl [] = ([], rl)"
| "rl_run rl ((fd, ty, us_open, us) # cs) =
     (let (r, rl1) = rate_limiter_check rl fd ty us_open us;
          (rs, rl2) = rl_run rl1 cs
      in (r # rs, rl2))"

text \<open>How many of the calls for \<open>fd\<close> of type \<open>ty\<close> were allowed.\<close>

fun allowed_calls :: "int \<Rightarrow> rate_type \<Rightarrow> check_call list \<Rightarrow> bool list \<Rightarrow> nat" where
  "allowed_calls fd ty ((fd', ty', _, _) # cs) (r # rs) =
     (if fd' = fd \<and> ty' = ty \<and> r then 1 else 0) + allowed_calls fd ty cs rs"
| "allowed_calls fd ty _ _ = 0"

definition type_limit :: "rate_config \<Rightarrow> rate_type \<Rightarrow> nat" where
  "type_limit c ty =
     (case ty of RATE_TYPE_EVENT \<Rightarrow> unat (events_per_minute c)
      | RATE_TYPE_REQ \<Rightarrow> unat (reqs_per_minute c))"

definition type_count :: "rate_type \<Rightarrow> rate_bucket \<Rightarrow> nat" where
  "type_count ty b =
     (case ty of RATE_TYPE_EVENT \<Rightarrow> unat (event_count b) | RATE_TYPE_REQ \<Rightarrow> unat (req_count b))"

lemma type_count_le: "bucket_ok c b \<Longrightarrow> type_count ty b \<le> type_limit c ty"
  by (cases ty) (auto simp: bucket_ok_def type_count_def type_limit_def word_le_nat_alt)

lemma take_token_counts:
  assumes "take_token c ty' b = (r, b')"
  shows "type_count ty b' = type_count ty b + (if ty' = ty \<and> r then 1 else 0)"
  using assms
  by (cases ty; cases ty')
     (auto simp: take_token_def type_count_def not_le unat_inc split: if_splits)

text \<open>
  What \<open>fd\<close> may still be granted: the rest of the current window if none of the coming
  calls leaves it, and one more full window otherwise.
\<close>

definition budget :: "rate_config \<Rightarrow> rate_type \<Rightarrow> rate_bucket option \<Rightarrow> u32 list \<Rightarrow> nat" where
  "budget c ty ob ts =
     (case ob of
        None \<Rightarrow> 2 * type_limit c ty
      | Some b \<Rightarrow>
          (if \<forall>t \<in> set ts. t - window_start b < 60 then type_limit c ty - type_count ty b
           else 2 * type_limit c ty - type_count ty b))"

text \<open>Every reading is less than a minute after each earlier one, modulo the 32-bit wrap.\<close>

definition within_minute :: "u32 list \<Rightarrow> bool" where
  "within_minute ts \<longleftrightarrow> sorted_wrt (\<lambda>s t. t - s < 60) ts"

abbreviation call_seconds :: "check_call list \<Rightarrow> u32 list" where
  "call_seconds cs \<equiv> map (\<lambda>(fd, ty, us_open, us). esp_seconds us) cs"

lemma limiter_spec_other:
  "limiter_spec c m fd' ty us_open us = (r, m') \<Longrightarrow> fd \<noteq> fd' \<Longrightarrow> m' fd = m fd"
  by (auto simp: limiter_spec_def Let_def split: if_splits prod.splits)

text \<open>One granted call is paid from the budget.\<close>

lemma budget_step:
  assumes spec: "limiter_spec c m fd ty' us_open us = (r, m')"
    and ok: "\<And>b. m fd = Some b \<Longrightarrow> bucket_ok c b"
    and wm: "within_minute (esp_seconds us # ts)"
  shows "(if ty' = ty \<and> r then 1 else 0) + budget c ty (m' fd) ts
    \<le> budget c ty (m fd) (esp_seconds us # ts)"
proof (cases "m fd = None \<and> RATE_LIMITER_MAX_BUCKETS \<le> card (dom m)")
  case True
  with spec show ?thesis by (simp add: limiter_spec_def budget_def)
next
  case False
  define b where "b = (case m fd of Some b \<Rightarrow> b | None \<Rightarrow> open_bucket fd us_open)"
  define w where "w = roll_window (esp_seconds us) b"
  obtain b' where t: "take_token c ty' w = (r, b')" and m': "m' fd = Some b'"
    using spec False by (auto simp: limiter_spec_def b_def w_def Let_def split: prod.splits if_splits)
  have "bucket_ok c b"
    using ok bucket_ok_open by (auto simp: b_def split: option.splits)
  then have wle: "type_count ty w \<le> type_limit c ty" and ble: "type_count ty b \<le> type_limit c ty"
    using bucket_ok_roll type_count_le unfolding w_def by blast+
  have b': "type_count ty b' \<le> type_limit c ty"
    using bucket_ok_take [OF t] \<open>bucket_ok c b\<close> bucket_ok_roll type_count_le unfolding w_def by blast
  note cnt = take_token_counts [OF t, of ty] and ws = take_token_frame(3) [OF t]
  have none: "m fd = None \<Longrightarrow> type_count ty b = 0"
    by (cases ty) (simp_all add: b_def type_count_def open_bucket_def)
  show ?thesis
  proof (cases "60 \<le> esp_seconds us - window_start b")
    case True
    then have w0: "type_count ty w = 0" and sw: "window_start w = esp_seconds us"
      by (cases ty; simp add: w_def roll_window_def type_count_def)+
    have "\<forall>t \<in> set ts. t - window_start b' < 60"
      using wm ws sw by (simp add: within_minute_def)
    then have "(if ty' = ty \<and> r then 1 else 0) + budget c ty (m' fd) ts \<le> type_limit c ty"
      using cnt w0 b' by (simp add: budget_def m')
    moreover have "type_limit c ty \<le> budget c ty (m fd) (esp_seconds us # ts)"
      using True ble by (auto simp: budget_def b_def not_less split: option.splits)
    ultimately show ?thesis by linarith
  next
    case False
    then have w: "w = b" by (simp add: w_def roll_window_def)
    then have "budget c ty (m' fd) ts + (if ty' = ty \<and> r then 1 else 0) \<le>
        (if \<forall>t \<in> set ts. t - window_start b < 60
         then type_limit c ty - type_count ty b else 2 * type_limit c ty - type_count ty b)"
      using cnt ws b' by (auto simp: budget_def m')
    also have "\<dots> \<le> budget c ty (m fd) (esp_seconds us # ts)"
      using False none by (auto simp: budget_def b_def not_le split: option.splits)
    finally show ?thesis by simp
  qed
qed

abbreviation calls_of :: "int \<Rightarrow> check_call list \<Rightarrow> check_call list" where
  "calls_of fd cs \<equiv> filter (\<lambda>cl. fst cl = fd) cs"

lemma run_budget:
  assumes "rl_inv rl" and "within_minute (call_seconds (calls_of fd cs))"
    and "rl_run rl cs = (rs, rl')"
  shows "allowed_calls fd ty cs rs
    \<le> budget (rl_config rl) ty (rl_view rl fd) (call_seconds (calls_of fd cs))"
  using assms
proof (induction cs arbitrary: rl rs)
  case Nil
  then show ?case by simp
next
  case (Cons cl cs)
  obtain fd' ty' us_open us where cl: "cl = (fd', ty', us_open, us)" by (cases cl)
  obtain r rl1 where chk: "rate_limiter_check rl fd' ty' us_open us = (r, rl1)" by force
  obtain rs' where run: "rl_run rl1 cs = (rs', rl')" and rs: "rs = r # rs'"
    using Cons.prems(3) chk by (auto simp: cl split: prod.splits)
  note step = check_step [OF Cons.prems(1) chk]
  let ?ts = "call_seconds (calls_of fd cs)"
  have wm: "within_minute ?ts"
    using Cons.prems(2) by (auto simp: cl within_minute_def split: if_splits)
  have IH: "allowed_calls fd ty cs rs' \<le> budget (rl_config rl) ty (rl_view rl1 fd) ?ts"
    using Cons.IH [OF _ wm run] step by simp
  show ?case
  proof (cases "fd' = fd")
    case True
    then have "(if ty' = ty \<and> r then 1 else 0) + budget (rl_config rl) ty (rl_view rl1 fd) ?ts
        \<le> budget (rl_config rl) ty (rl_view rl fd) (esp_seconds us # ?ts)"
      using step Cons.prems(2)
      by (intro budget_step rl_inv_bucket Cons.prems(1)) (auto simp: cl)
    with IH True show ?thesis by (simp add: cl rs)
  next
    case False
    then have "rl_view rl1 fd = rl_view rl fd"
      using step by (auto dest: limiter_spec_other)
    with IH False show ?thesis by (simp add: cl rs)
  qed
qed

lemma budget_le: "budget c ty ob ts \<le> 2 * type_limit c ty"
  by (auto simp: budget_def split: option.splits)

section \<open>Properties\<close>

text \<open>
  Property C27. One call of \<open>rate_limiter_check\<close> keeps the array well formed (16 slots, no
  connection with two buckets, no bucket above its limits) and does exactly what the abstract
  limiter does on the finite map of buckets: it answers the same, it changes the bucket of the
  calling connection only, and it refuses for want of a bucket only when 16 other connections
  hold one.
\<close>

theorem check_refines_limiter:
  assumes "rl_inv rl" and "rate_limiter_check rl fd ty us_open us = (r, rl')"
  shows "rl_inv rl' \<and>
    limiter_spec (rl_config rl) (rl_view rl) fd ty us_open us = (r, rl_view rl')"
  using check_step [OF assms] by blast

text \<open>A limiter of two events and one request a minute, and its state after one event.\<close>

definition small_config :: rate_config where
  "small_config = \<lparr>events_per_minute = 2, reqs_per_minute = 1\<rparr>"

theorem check_refines_limiter_witness:
  "let rl = rate_limiter_init (Some small_config) True;
       (r, rl') = rate_limiter_check rl 7 RATE_TYPE_EVENT 5000000 5000000
   in r \<and> rl_inv rl' \<and>
      limiter_spec (rl_config rl) (rl_view rl) 7 RATE_TYPE_EVENT 5000000 5000000 = (r, rl_view rl')"
proof -
  let ?rl = "rate_limiter_init (Some small_config) True"
  obtain r rl' where c: "rate_limiter_check ?rl 7 RATE_TYPE_EVENT 5000000 5000000 = (r, rl')"
    by force
  moreover have "fst (rate_limiter_check ?rl 7 RATE_TYPE_EVENT 5000000 5000000)"
    by code_simp
  ultimately show ?thesis
    using check_refines_limiter [OF init_inv(1) c] by simp
qed

text \<open>
  Property C13. The per-minute limits hold over any interleaving of calls: whatever the other
  connections do, and whatever the 32-bit second counter does, the calls of one connection whose
  readings all lie within a minute of each other are granted at most twice its configured limit,
  and at most the rest of the limit when its window is open and none of the calls leaves it.
\<close>

theorem run_within_limits:
  assumes "rl_inv rl" and "within_minute (call_seconds (calls_of fd cs))"
    and "rl_run rl cs = (rs, rl')"
  shows "allowed_calls fd ty cs rs \<le> 2 * type_limit (rl_config rl) ty \<and>
    (\<forall>b. rl_view rl fd = Some b \<and>
      (\<forall>t \<in> set (call_seconds (calls_of fd cs)). t - window_start b < 60) \<longrightarrow>
      allowed_calls fd ty cs rs + type_count ty b \<le> type_limit (rl_config rl) ty)"
proof (intro conjI allI impI)
  note run = run_budget [OF assms, of ty]
  show "allowed_calls fd ty cs rs \<le> 2 * type_limit (rl_config rl) ty"
    using run budget_le by (rule order_trans)
  fix b
  assume b: "rl_view rl fd = Some b \<and>
    (\<forall>t \<in> set (call_seconds (calls_of fd cs)). t - window_start b < 60)"
  then have "type_count ty b \<le> type_limit (rl_config rl) ty"
    using assms(1) by (blast intro: type_count_le rl_inv_bucket)
  with run b show "allowed_calls fd ty cs rs + type_count ty b \<le> type_limit (rl_config rl) ty"
    by (simp add: budget_def)
qed

text \<open>The twofold limit is reached: four of five calls within 39 seconds pass a limit of two.\<close>

definition burst :: "check_call list" where
  "burst = map (\<lambda>s. (7, RATE_TYPE_EVENT, s * 1000000, s * 1000000)) [30, 31, 32, 65, 69]"

definition burst_start :: rate_limiter where
  "burst_start = snd (rate_limiter_check (rate_limiter_init (Some small_config) True)
     7 RATE_TYPE_REQ 5000000 5000000)"

lemma burst_start_inv: "rl_inv burst_start"
proof -
  obtain r where "rate_limiter_check (rate_limiter_init (Some small_config) True)
     7 RATE_TYPE_REQ 5000000 5000000 = (r, burst_start)"
    unfolding burst_start_def by (metis prod.collapse)
  with check_step [OF init_inv(1)] show ?thesis by blast
qed

theorem run_within_limits_witness:
  "let (rs, rl') = rl_run burst_start burst
   in rs = [True, True, False, True, True] \<and>
      allowed_calls 7 RATE_TYPE_EVENT burst rs = 4 \<and>
      allowed_calls 7 RATE_TYPE_EVENT burst rs \<le> 2 * type_limit (rl_config burst_start) RATE_TYPE_EVENT"
proof -
  obtain rs rl' where run: "rl_run burst_start burst = (rs, rl')" by force
  have "within_minute (call_seconds (calls_of 7 burst))"
    unfolding within_minute_def by code_simp
  from run_within_limits [OF burst_start_inv this run] have
    "allowed_calls 7 RATE_TYPE_EVENT burst rs \<le> 2 * type_limit (rl_config burst_start) RATE_TYPE_EVENT"
    by blast
  moreover have "fst (rl_run burst_start burst) = [True, True, False, True, True]"
    by code_simp
  ultimately show ?thesis using run by (simp add: burst_def)
qed

section \<open>A patient client is served\<close>

definition calls_for :: "int \<Rightarrow> rate_type \<Rightarrow> check_call list \<Rightarrow> nat" where
  "calls_for fd ty cs = length (filter (\<lambda>(fd', ty', _, _). fd' = fd \<and> ty' = ty) cs)"

lemma take_token_grants: "type_count ty b < type_limit c ty \<Longrightarrow> fst (take_token c ty b)"
  by (cases ty) (simp_all add: take_token_def type_count_def type_limit_def word_less_nat_alt not_le)

lemma roll_count: "type_count ty (roll_window now b) \<le> type_count ty b"
  by (cases ty) (simp_all add: roll_window_def type_count_def)

lemma roll_resets: "60 \<le> now - window_start b \<Longrightarrow> type_count ty (roll_window now b) = 0"
  by (cases ty) (simp_all add: roll_window_def type_count_def)

text \<open>One call, seen from a connection with a bucket that has not used up its limit.\<close>

lemma served_step:
  assumes spec: "limiter_spec c m fd' ty' us_open us = (r, m')" and b: "m fd = Some b"
    and room: "type_count ty (if fd' = fd then roll_window (esp_seconds us) b else b) +
      (if fd' = fd \<and> ty' = ty then 1 else 0) \<le> type_limit c ty"
  shows "(fd' = fd \<and> ty' = ty \<longrightarrow> r) \<and> (\<exists>b'. m' fd = Some b' \<and> type_count ty b' \<le>
    type_count ty (if fd' = fd then roll_window (esp_seconds us) b else b) + (if fd' = fd \<and> ty' = ty then 1 else 0))"
proof (cases "fd' = fd")
  case False
  with limiter_spec_other [OF spec, of fd] b show ?thesis by simp
next
  case True
  obtain b' where t: "take_token c ty' (roll_window (esp_seconds us) b) = (r, b')" "m' fd = Some b'"
    using spec b True by (auto simp: limiter_spec_def Let_def split: prod.splits)
  moreover have "r" if "ty' = ty"
    using take_token_grants [of ty "roll_window (esp_seconds us) b" c] room True that t by simp
  ultimately show ?thesis using take_token_counts [OF t(1), of ty] True by auto
qed

lemma run_granted:
  assumes "rl_inv rl" and "rl_view rl fd = Some b"
    and "type_count ty b + calls_for fd ty cs \<le> type_limit (rl_config rl) ty" and "rl_run rl cs = (rs, rl')"
  shows "allowed_calls fd ty cs rs = calls_for fd ty cs"
  using assms
proof (induction cs arbitrary: rl rs b)
  case Nil
  then show ?case by (simp add: calls_for_def)
next
  case (Cons cl cs)
  obtain fd' ty' us_open us where cl: "cl = (fd', ty', us_open, us)" by (cases cl)
  obtain r rl1 where chk: "rate_limiter_check rl fd' ty' us_open us = (r, rl1)" by force
  obtain rs' where run: "rl_run rl1 cs = (rs', rl')" and rs: "rs = r # rs'"
    using Cons.prems(4) chk by (auto simp: cl split: prod.splits)
  note step = check_step [OF Cons.prems(1) chk]
  have n: "calls_for fd ty (cl # cs) = (if fd' = fd \<and> ty' = ty then 1 else 0) + calls_for fd ty cs"
    by (simp add: calls_for_def cl)
  let ?b = "if fd' = fd then roll_window (esp_seconds us) b else b"
  have le: "type_count ty ?b \<le> type_count ty b" using roll_count by simp
  have "type_count ty ?b + (if fd' = fd \<and> ty' = ty then 1 else 0) \<le> type_limit (rl_config rl) ty"
    using Cons.prems(3) le n by simp
  from served_step [OF conjunct2 [OF conjunct2 [OF step]] Cons.prems(2) this]
  obtain b' where b': "fd' = fd \<and> ty' = ty \<longrightarrow> r" "rl_view rl1 fd = Some b'"
      "type_count ty b' \<le> type_count ty ?b + (if fd' = fd \<and> ty' = ty then 1 else 0)" by blast
  have "type_count ty b' + calls_for fd ty cs \<le> type_limit (rl_config rl1) ty"
    using b'(3) le n Cons.prems(3) step by simp
  from Cons.IH [OF _ b'(2) this run] step have "allowed_calls fd ty cs rs' = calls_for fd ty cs" by blast
  with b'(1) show ?case by (simp add: cl rs calls_for_def)
qed

text \<open>
  Property C32. No connection is locked out: once a minute has passed since its window began, the
  next calls of a type are granted, as many of them as the limit of that type, whatever was
  refused before and whatever calls other connections make in between.
\<close>

theorem patient_client_served:
  assumes "rl_inv rl" and "rl_view rl fd = Some b" and "60 \<le> esp_seconds us - window_start b"
    and "calls_for fd ty ((fd, ty', us_open, us) # cs) \<le> type_limit (rl_config rl) ty"
    and "rl_run rl ((fd, ty', us_open, us) # cs) = (rs, rl')"
  shows "allowed_calls fd ty ((fd, ty', us_open, us) # cs) rs = calls_for fd ty ((fd, ty', us_open, us) # cs)"
proof -
  obtain r rl1 where chk: "rate_limiter_check rl fd ty' us_open us = (r, rl1)" by force
  obtain rs' where run: "rl_run rl1 cs = (rs', rl')" and rs: "rs = r # rs'"
    using assms(5) chk by (auto split: prod.splits)
  note step = check_step [OF assms(1) chk]
  have n: "calls_for fd ty ((fd, ty', us_open, us) # cs) = (if ty' = ty then 1 else 0) + calls_for fd ty cs"
    by (simp add: calls_for_def)
  have z: "type_count ty (roll_window (esp_seconds us) b) = 0" using roll_resets [OF assms(3)] .
  obtain b' where b': "ty' = ty \<longrightarrow> r" "rl_view rl1 fd = Some b'" "type_count ty b' \<le> (if ty' = ty then 1 else 0)"
    using served_step [OF conjunct2 [OF conjunct2 [OF step]] assms(2), of ty] z n assms(4) by auto
  have "type_count ty b' + calls_for fd ty cs \<le> type_limit (rl_config rl1) ty"
    using b'(3) n assms(4) step by simp
  from run_granted [OF _ b'(2) this run] step b'(1) show ?thesis by (simp add: rs calls_for_def)
qed

theorem patient_client_served_witness:
  "let (rs, rl') = rl_run burst_start [(7, RATE_TYPE_EVENT, 0, 65000000), (9, RATE_TYPE_EVENT, 0, 65000000), (7, RATE_TYPE_EVENT, 0, 66000000)]
   in allowed_calls 7 RATE_TYPE_EVENT
        [(7, RATE_TYPE_EVENT, 0, 65000000), (9, RATE_TYPE_EVENT, 0, 65000000), (7, RATE_TYPE_EVENT, 0, 66000000)] rs = 2"
proof -
  let ?cs = "[(9, RATE_TYPE_EVENT, 0, 65000000), (7, RATE_TYPE_EVENT, 0, 66000000)]"
  let ?all = "(7, RATE_TYPE_EVENT, 0, 65000000) # ?cs"
  obtain rs rl' where run: "rl_run burst_start ?all = (rs, rl')" by force
  have v: "map_option window_start (rl_view burst_start 7) = Some 5" by code_simp
  then obtain b where b: "rl_view burst_start 7 = Some b" "window_start b = 5" by auto
  have "60 \<le> esp_seconds 65000000 - window_start b" unfolding b(2) by code_simp
  moreover have "calls_for 7 RATE_TYPE_EVENT ?all \<le> type_limit (rl_config burst_start) RATE_TYPE_EVENT" by code_simp
  ultimately have "allowed_calls 7 RATE_TYPE_EVENT ?all rs = calls_for 7 RATE_TYPE_EVENT ?all"
    using patient_client_served [OF burst_start_inv b(1) _ _ run] by blast
  then show ?thesis using run by (simp add: calls_for_def)
qed

end
