(* ===== verification/Sub_Manager.thy ===== *)
theory Sub_Manager
  imports Nostr_Interface
begin

text \<open>
  \<open>main/sub_manager.c\<close>: the table of active subscriptions, an array of 64 slots keyed by
  connection and subscription id.  Every operation runs under the mutex and is one atomic
  step.  Filters are copied deeply into a slot; each allocation of the copy may fail, as the
  allocation schedule says.  \<open>sm_view\<close> is the finite map from (connection, id) to
  filters that the array stands for.
\<close>

section \<open>Data\<close>

definition SUB_MAX_TOTAL :: nat where "SUB_MAX_TOTAL = 64"
definition SUB_MAX_PER_CONN :: nat where "SUB_MAX_PER_CONN = 8"
definition SUB_MAX_FILTERS :: nat where "SUB_MAX_FILTERS = 4"
definition SUB_MAX_ID_LEN :: nat where "SUB_MAX_ID_LEN = 64"

record subscription =
  sub_id :: string
  conn_fd :: int
  sub_filters :: "nostr_filter list"
  filter_count :: u8
  events_sent :: u16
  sub_active :: bool

record sub_manager =
  subs :: "subscription list"
  sm_lock :: bool
  active_count :: u16

record sub_match_entry =
  me_conn_fd :: int
  me_sub_id :: string

record sub_match_result =
  sm_matches :: "sub_match_entry list"
  match_count :: u8

text \<open>\<open>memset (sub, 0, sizeof (subscription_t))\<close>\<close>

definition zero_subscription :: subscription where
  "zero_subscription = \<lparr>sub_id = [], conn_fd = 0,
     sub_filters = replicate SUB_MAX_FILTERS zero_filter, filter_count = 0, events_sent = 0,
     sub_active = False\<rparr>"

lemmas sub_consts = SUB_MAX_TOTAL_def SUB_MAX_PER_CONN_def SUB_MAX_FILTERS_def SUB_MAX_ID_LEN_def

section \<open>Deep copies of filters\<close>

fun strdup_all :: "string list \<Rightarrow> heap \<Rightarrow> string list option \<times> heap" where
  "strdup_all [] h = (Some [], h)"
| "strdup_all (s # ss) h =
     (case malloc h of
        (False, h1) \<Rightarrow> (None, h1)
      | (True, h1) \<Rightarrow>
          (case strdup_all ss h1 of
             (None, h2) \<Rightarrow> (None, h2)
           | (Some ds, h2) \<Rightarrow> (Some (s # ds), h2)))"

text \<open>The result \<^const>\<open>None\<close> is the NULL pointer.\<close>

definition copy_string_array :: "string list \<Rightarrow> heap \<Rightarrow> string list option \<times> heap" where
  "copy_string_array src h =
     (if src = [] then (None, h)
      else case malloc h of
          (False, h1) \<Rightarrow> (None, h1)
        | (True, h1) \<Rightarrow> strdup_all src h1)"

definition copy_int_array :: "int list \<Rightarrow> heap \<Rightarrow> int list option \<times> heap" where
  "copy_int_array src h =
     (if src = [] then (None, h)
      else case malloc h of
          (False, h1) \<Rightarrow> (None, h1)
        | (True, h1) \<Rightarrow> (Some src, h1))"

text \<open>A NULL pointer with count 0 is the empty array.\<close>

definition array_of :: "'a list option \<Rightarrow> 'a list" where
  "array_of p = (case p of None \<Rightarrow> [] | Some xs \<Rightarrow> xs)"

fun copy_tag_values ::
    "(char \<times> string list) list \<Rightarrow> heap \<Rightarrow> (char \<times> string list) list option \<times> heap" where
  "copy_tag_values [] h = (Some [], h)"
| "copy_tag_values ((name, vals) # ts) h =
     (case copy_string_array vals h of
        (p, h1) \<Rightarrow>
          if vals \<noteq> [] \<and> p = None then (None, h1)
          else case copy_tag_values ts h1 of
              (None, h2) \<Rightarrow> (None, h2)
            | (Some ds, h2) \<Rightarrow> (Some ((name, array_of p) # ds), h2))"

definition copy_generic_tags ::
    "(char \<times> string list) list \<Rightarrow> heap \<Rightarrow> (char \<times> string list) list option \<times> heap" where
  "copy_generic_tags src h =
     (if src = [] then (None, h)
      else case malloc h of
          (False, h1) \<Rightarrow> (None, h1)
        | (True, h1) \<Rightarrow> copy_tag_values src h1)"

text \<open>
  \<open>filter_copy\<close> returns whether it succeeded, the destination and the rest of the
  schedule.  A failure leaves the destination to \<open>nostr_filter_free\<close>, which gets the
  arrays copied so far.  (At that moment the count of the array that failed is already set
  while its pointer is NULL; a list cannot say so, and no one reads the slot afterwards.)
\<close>

definition filter_copy ::
    "nostr_lib \<Rightarrow> nostr_filter \<Rightarrow> heap \<Rightarrow> bool \<times> nostr_filter \<times> heap" where
  "filter_copy lib src h =
     (let d = zero_filter; (p, h) = copy_string_array (f_ids src) h in
      if f_ids src \<noteq> [] \<and> p = None then (False, lib_filter_free lib d, h) else
      let d = d\<lparr>f_ids := array_of p\<rparr>; (p, h) = copy_string_array (f_authors src) h in
      if f_authors src \<noteq> [] \<and> p = None then (False, lib_filter_free lib d, h) else
      let d = d\<lparr>f_authors := array_of p\<rparr>; (k, h) = copy_int_array (f_kinds src) h in
      if f_kinds src \<noteq> [] \<and> k = None then (False, lib_filter_free lib d, h) else
      let d = d\<lparr>f_kinds := array_of k\<rparr>; (p, h) = copy_string_array (f_e_tags src) h in
      if f_e_tags src \<noteq> [] \<and> p = None then (False, lib_filter_free lib d, h) else
      let d = d\<lparr>f_e_tags := array_of p\<rparr>; (p, h) = copy_string_array (f_p_tags src) h in
      if f_p_tags src \<noteq> [] \<and> p = None then (False, lib_filter_free lib d, h) else
      let d = d\<lparr>f_p_tags := array_of p\<rparr>; (g, h) = copy_generic_tags (f_generic_tags src) h in
      if f_generic_tags src \<noteq> [] \<and> g = None then (False, lib_filter_free lib d, h) else
      (True, d\<lparr>f_generic_tags := array_of g, f_since := f_since src, f_until := f_until src,
                f_limit := f_limit src\<rparr>, h))"

definition free_filters :: "nostr_lib \<Rightarrow> subscription \<Rightarrow> subscription" where
  "free_filters lib sub =
     (let n = unat (filter_count sub) in
      sub\<lparr>sub_filters := map (lib_filter_free lib) (take n (sub_filters sub)) @ drop n (sub_filters sub),
          filter_count := 0\<rparr>)"

text \<open>The filters are released (memory only) before the \<open>memset\<close>.\<close>

definition clear_subscription :: "nostr_lib \<Rightarrow> subscription \<Rightarrow> subscription" where
  "clear_subscription lib sub = (let _ = free_filters lib sub in zero_subscription)"

fun copy_filters_loop ::
    "nostr_lib \<Rightarrow> nat \<Rightarrow> nostr_filter list \<Rightarrow> nostr_filter list \<Rightarrow> heap \<Rightarrow>
     bool \<times> nostr_filter list \<times> heap" where
  "copy_filters_loop lib i [] dst h = (True, dst, h)"
| "copy_filters_loop lib i (f # fs) dst h =
     (case filter_copy lib f h of
        (True, d, h1) \<Rightarrow> copy_filters_loop lib (Suc i) fs (dst[i := d]) h1
      | (False, d, h1) \<Rightarrow>
          (False, map (lib_filter_free lib) (take i dst) @ drop i (dst[i := d]), h1))"

definition copy_filters_to_slot ::
    "nostr_lib \<Rightarrow> subscription \<Rightarrow> nostr_filter list \<Rightarrow> heap \<Rightarrow> bool \<times> subscription \<times> heap" where
  "copy_filters_to_slot lib slot filters h =
     (case copy_filters_loop lib 0 filters (sub_filters slot) h of
        (True, dst, h1) \<Rightarrow>
          (True, slot\<lparr>sub_filters := dst, filter_count := of_nat (length filters)\<rparr>, h1)
      | (False, dst, h1) \<Rightarrow> (False, slot\<lparr>sub_filters := dst\<rparr>, h1))"

section \<open>Operations\<close>

text \<open>The result says whether the mutex was created (\<open>ESP_OK\<close>).\<close>

definition sub_manager_init :: "bool \<Rightarrow> bool \<times> sub_manager" where
  "sub_manager_init mutex_ok =
     (mutex_ok, \<lparr>subs = replicate SUB_MAX_TOTAL zero_subscription, sm_lock = mutex_ok,
                 active_count = 0\<rparr>)"

definition sub_manager_destroy :: "nostr_lib \<Rightarrow> sub_manager \<Rightarrow> sub_manager" where
  "sub_manager_destroy lib mgr =
     mgr\<lparr>subs := map (\<lambda>s. if sub_active s then clear_subscription lib s else s) (subs mgr),
         sm_lock := False\<rparr>"

definition sub_manager_find :: "sub_manager \<Rightarrow> int \<Rightarrow> string \<Rightarrow> nat option" where
  "sub_manager_find mgr fd sid =
     find_slot (\<lambda>s. sub_active s \<and> conn_fd s = fd \<and> sub_id s = sid) (subs mgr)"

definition find_free_slot :: "sub_manager \<Rightarrow> nat option" where
  "find_free_slot mgr = find_slot (\<lambda>s. \<not> sub_active s) (subs mgr)"

definition conn_slots :: "sub_manager \<Rightarrow> int \<Rightarrow> nat" where
  "conn_slots mgr fd = count_slots (\<lambda>s. sub_active s \<and> conn_fd s = fd) (subs mgr)"

definition set_slot :: "sub_manager \<Rightarrow> nat \<Rightarrow> subscription \<Rightarrow> sub_manager" where
  "set_slot mgr i s = mgr\<lparr>subs := (subs mgr)[i := s]\<rparr>"

definition sub_manager_add ::
    "nostr_lib \<Rightarrow> sub_manager \<Rightarrow> int \<Rightarrow> string \<Rightarrow> nostr_filter list \<Rightarrow> heap \<Rightarrow>
     nostr_relay_error \<times> sub_manager \<times> heap" where
  "sub_manager_add lib mgr fd sid filters h =
     (let filters = (if SUB_MAX_FILTERS < length filters then take SUB_MAX_FILTERS filters
                     else filters) in
      case sub_manager_find mgr fd sid of
        Some i \<Rightarrow>
          (let existing = (free_filters lib (subs mgr ! i))\<lparr>events_sent := 0\<rparr> in
           case copy_filters_to_slot lib existing filters h of
             (False, slot, h1) \<Rightarrow> (NOSTR_RELAY_ERR_MEMORY, set_slot mgr i slot, h1)
           | (True, slot, h1) \<Rightarrow> (NOSTR_RELAY_OK, set_slot mgr i slot, h1))
      | None \<Rightarrow>
          (let conn_count = (of_nat (conn_slots mgr fd) :: u8) in
           if of_nat SUB_MAX_PER_CONN \<le> conn_count
           then (NOSTR_RELAY_ERR_TOO_MANY_FILTERS, mgr, h)
           else case find_free_slot mgr of
               None \<Rightarrow> (NOSTR_RELAY_ERR_MEMORY, mgr, h)
             | Some i \<Rightarrow>
                 (let slot = zero_subscription\<lparr>sub_id := strncpy_z sid SUB_MAX_ID_LEN, conn_fd := fd\<rparr> in
                  case copy_filters_to_slot lib slot filters h of
                    (False, slot, h1) \<Rightarrow>
                      (NOSTR_RELAY_ERR_MEMORY, set_slot mgr i (clear_subscription lib slot), h1)
                  | (True, slot, h1) \<Rightarrow>
                      (NOSTR_RELAY_OK,
                       (set_slot mgr i (slot\<lparr>sub_active := True\<rparr>))
                         \<lparr>active_count := active_count mgr + 1\<rparr>, h1))))"

definition sub_manager_remove ::
    "nostr_lib \<Rightarrow> sub_manager \<Rightarrow> int \<Rightarrow> string \<Rightarrow> nostr_relay_error \<times> sub_manager" where
  "sub_manager_remove lib mgr fd sid =
     (case sub_manager_find mgr fd sid of
        None \<Rightarrow> (NOSTR_RELAY_ERR_INVALID_SUBSCRIPTION_ID, mgr)
      | Some i \<Rightarrow>
          (NOSTR_RELAY_OK,
           (set_slot mgr i (clear_subscription lib (subs mgr ! i)))
             \<lparr>active_count := active_count mgr - 1\<rparr>))"

fun remove_all_loop ::
    "nostr_lib \<Rightarrow> int \<Rightarrow> subscription list \<Rightarrow> u16 \<Rightarrow> subscription list \<times> u16" where
  "remove_all_loop lib fd [] n = ([], n)"
| "remove_all_loop lib fd (s # ss) n =
     (if sub_active s \<and> conn_fd s = fd
      then (let (ss', n') = remove_all_loop lib fd ss (n - 1)
            in (clear_subscription lib s # ss', n'))
      else (let (ss', n') = remove_all_loop lib fd ss n in (s # ss', n')))"

definition sub_manager_remove_all :: "nostr_lib \<Rightarrow> sub_manager \<Rightarrow> int \<Rightarrow> sub_manager" where
  "sub_manager_remove_all lib mgr fd =
     (let (ss, n) = remove_all_loop lib fd (subs mgr) (active_count mgr)
      in mgr\<lparr>subs := ss, active_count := n\<rparr>)"

fun match_loop ::
    "nostr_lib \<Rightarrow> nostr_event \<Rightarrow> subscription list \<Rightarrow> sub_match_result \<Rightarrow> sub_match_result" where
  "match_loop lib ev [] res = res"
| "match_loop lib ev (s # ss) res =
     (if sub_active s \<and> lib_filters_match lib (take (unat (filter_count s)) (sub_filters s)) ev
      then match_loop lib ev ss
             \<lparr>sm_matches = sm_matches res @ [\<lparr>me_conn_fd = conn_fd s, me_sub_id = sub_id s\<rparr>],
              match_count = match_count res + 1\<rparr>
      else match_loop lib ev ss res)"

definition sub_manager_match :: "nostr_lib \<Rightarrow> sub_manager \<Rightarrow> nostr_event \<Rightarrow> sub_match_result" where
  "sub_manager_match lib mgr ev = match_loop lib ev (subs mgr) \<lparr>sm_matches = [], match_count = 0\<rparr>"

definition sub_manager_count :: "sub_manager \<Rightarrow> int \<Rightarrow> u8" where
  "sub_manager_count mgr fd = of_nat (conn_slots mgr fd)"

section \<open>A successful copy is an equal filter\<close>

lemma strdup_all_result: "strdup_all src h = (p, h') \<Longrightarrow> p = None \<or> p = Some src"
  by (induction src h arbitrary: p h' rule: strdup_all.induct)
     (auto split: prod.splits bool.splits option.splits)

lemma array_of_None [simp]: "array_of None = []"
  and array_of_Some [simp]: "array_of (Some xs) = xs"
  by (simp_all add: array_of_def)

lemma copy_string_array_eq:
  "copy_string_array src h = (p, h') \<Longrightarrow> \<not> (src \<noteq> [] \<and> p = None) \<Longrightarrow> array_of p = src"
  by (auto simp: copy_string_array_def split: if_splits prod.splits bool.splits
        dest: strdup_all_result)

lemma copy_int_array_eq:
  "copy_int_array src h = (p, h') \<Longrightarrow> \<not> (src \<noteq> [] \<and> p = None) \<Longrightarrow> array_of p = src"
  by (auto simp: copy_int_array_def split: if_splits prod.splits bool.splits)

lemma copy_tag_values_result: "copy_tag_values src h = (p, h') \<Longrightarrow> p = None \<or> p = Some src"
proof (induction src h arbitrary: p h' rule: copy_tag_values.induct)
  case (1 h)
  then show ?case by simp
next
  case (2 name vals ts h)
  then show ?case
    by (auto split: if_splits prod.splits option.splits dest!: copy_string_array_eq)
qed

lemma copy_generic_tags_eq:
  "copy_generic_tags src h = (p, h') \<Longrightarrow> \<not> (src \<noteq> [] \<and> p = None) \<Longrightarrow> array_of p = src"
  by (auto simp: copy_generic_tags_def split: if_splits prod.splits bool.splits
        dest: copy_tag_values_result)

lemmas copy_eqs = copy_string_array_eq copy_int_array_eq copy_generic_tags_eq

lemma filter_copy_eq: "filter_copy lib src h = (True, d, h') \<Longrightarrow> d = src"
  unfolding filter_copy_def Let_def zero_filter_def
  by (auto split: prod.splits if_splits dest!: copy_eqs)

text \<open>With no failing allocation left in the schedule a copy succeeds.\<close>

lemma strdup_all_ok: "strdup_all src [] = (Some src, [])"
  by (induction src) auto

lemma copy_tag_values_ok: "copy_tag_values src [] = (Some src, [])"
  by (induction src) (auto simp: copy_string_array_def strdup_all_ok)

lemma filter_copy_ok: "filter_copy lib src [] = (True, src, [])"
  by (simp add: filter_copy_def copy_string_array_def copy_int_array_def copy_generic_tags_def
        strdup_all_ok copy_tag_values_ok zero_filter_def Let_def)

lemma copy_filters_loop_eq:
  "copy_filters_loop lib i fs dst h = (True, dst', h') \<Longrightarrow> i + length fs \<le> length dst \<Longrightarrow>
    dst' = take i dst @ fs @ drop (i + length fs) dst"
proof (induction fs arbitrary: i dst h)
  case Nil
  then show ?case by simp
next
  case (Cons f fs)
  obtain d h1 where c: "filter_copy lib f h = (True, d, h1)"
    and l: "copy_filters_loop lib (Suc i) fs (dst[i := d]) h1 = (True, dst', h')"
    using Cons.prems(1) by (auto split: prod.splits bool.splits)
  from c have d: "d = f" by (rule filter_copy_eq)
  have "dst' = take (Suc i) (dst[i := f]) @ fs @ drop (Suc i + length fs) (dst[i := f])"
    using Cons.IH [OF l] Cons.prems(2) d by simp
  then show ?case using Cons.prems(2) by (simp add: take_Suc_conv_app_nth)
qed

lemma copy_filters_loop_length:
  "copy_filters_loop lib i fs dst h = (ok, dst', h') \<Longrightarrow> length dst' = length dst"
  by (induction lib i fs dst h rule: copy_filters_loop.induct)
     (auto split: prod.splits bool.splits)

lemma copy_filters_loop_ok: "\<exists>dst'. copy_filters_loop lib i fs dst [] = (True, dst', [])"
  by (induction fs arbitrary: i dst) (auto simp: filter_copy_ok)

lemma copy_slot_success:
  assumes "copy_filters_to_slot lib s fs h = (True, s', h')"
    and "length fs \<le> SUB_MAX_FILTERS" and "length (sub_filters s) = SUB_MAX_FILTERS"
  shows "take (unat (filter_count s')) (sub_filters s') = fs"
    and "length (sub_filters s') = SUB_MAX_FILTERS" and "unat (filter_count s') = length fs"
    and "sub_id s' = sub_id s" and "conn_fd s' = conn_fd s" and "sub_active s' = sub_active s"
    and "events_sent s' = events_sent s"
proof -
  obtain dst where l: "copy_filters_loop lib 0 fs (sub_filters s) h = (True, dst, h')"
    and s': "s' = s\<lparr>sub_filters := dst, filter_count := of_nat (length fs)\<rparr>"
    using assms(1) by (auto simp: copy_filters_to_slot_def split: prod.splits bool.splits)
  have dst: "dst = fs @ drop (length fs) (sub_filters s)"
    using copy_filters_loop_eq [OF l] assms by simp
  have n: "unat (of_nat (length fs) :: u8) = length fs"
    using assms(2) by (simp add: unat_of_nat sub_consts)
  show "take (unat (filter_count s')) (sub_filters s') = fs"
    and "length (sub_filters s') = SUB_MAX_FILTERS" and "unat (filter_count s') = length fs"
    and "sub_id s' = sub_id s" and "conn_fd s' = conn_fd s" and "sub_active s' = sub_active s"
    and "events_sent s' = events_sent s"
    using assms by (simp_all add: s' n dst)
qed

lemma copy_slot_failure:
  assumes "copy_filters_to_slot lib s fs h = (False, s', h')"
  shows "filter_count s' = filter_count s" and "length (sub_filters s') = length (sub_filters s)"
    and "sub_id s' = sub_id s" and "conn_fd s' = conn_fd s" and "sub_active s' = sub_active s"
  using assms
  by (auto simp: copy_filters_to_slot_def split: prod.splits bool.splits
        dest: copy_filters_loop_length)

lemma copy_slot_ok: "\<exists>s'. copy_filters_to_slot lib s fs [] = (True, s', [])"
  using copy_filters_loop_ok [of lib 0 fs "sub_filters s"] by (auto simp: copy_filters_to_slot_def)

section \<open>The map of subscriptions and the invariant\<close>

abbreviation sub_key :: "subscription \<Rightarrow> int \<times> string" where
  "sub_key s \<equiv> (conn_fd s, sub_id s)"

interpretation sub_table: slot_table sub_active sub_key zero_subscription
  by unfold_locales (simp add: zero_subscription_def)

definition live_filters :: "subscription \<Rightarrow> nostr_filter list" where
  "live_filters s = take (unat (filter_count s)) (sub_filters s)"

definition sm_view :: "sub_manager \<Rightarrow> int \<times> string \<Rightarrow> nostr_filter list option" where
  "sm_view mgr k = map_option live_filters (slot_map sub_active sub_key (subs mgr) k)"

definition sub_ok :: "subscription \<Rightarrow> bool" where
  "sub_ok s \<longleftrightarrow>
     length (sub_filters s) = SUB_MAX_FILTERS \<and>
     (if sub_active s
      then unat (filter_count s) \<le> SUB_MAX_FILTERS \<and> length (sub_id s) \<le> SUB_MAX_ID_LEN
      else s = zero_subscription)"

definition sm_inv :: "sub_manager \<Rightarrow> bool" where
  "sm_inv mgr \<longleftrightarrow>
     length (subs mgr) = SUB_MAX_TOTAL \<and>
     slots_distinct sub_active sub_key (subs mgr) \<and>
     (\<forall>s \<in> set (subs mgr). sub_ok s) \<and>
     unat (active_count mgr) = count_slots sub_active (subs mgr) \<and>
     (\<forall>fd. conn_slots mgr fd \<le> SUB_MAX_PER_CONN)"

lemma sub_ok_zero: "sub_ok zero_subscription"
  by (simp add: sub_ok_def zero_subscription_def)

lemma clear_zero [simp]: "clear_subscription lib s = zero_subscription"
  by (simp add: clear_subscription_def Let_def)

lemma zero_inactive [simp]: "\<not> sub_active zero_subscription"
  by (simp add: zero_subscription_def)

lemma dom_sm_view: "dom (sm_view mgr) = dom (slot_map sub_active sub_key (subs mgr))"
  by (auto simp: sm_view_def dom_def)

lemma sm_view_eq: "sm_view mgr = map_option live_filters \<circ> slot_map sub_active sub_key (subs mgr)"
  by (auto simp: sm_view_def)

lemma conn_slots_card:
  assumes "slots_distinct sub_active sub_key (subs mgr)"
  shows "card {k \<in> dom (sm_view mgr). fst k = fd} = conn_slots mgr fd"
  using sub_table.card_dom_if [OF assms, of "\<lambda>k. fst k = fd"]
  by (simp add: dom_sm_view conn_slots_def)

section \<open>Every operation keeps the invariant and refines the map\<close>

text \<open>The loop that counts a connection's slots in an 8-bit counter does not overflow.\<close>

lemma conn_count_u8:
  "conn_slots mgr fd \<le> 64 \<Longrightarrow> (of_nat SUB_MAX_PER_CONN \<le> (of_nat (conn_slots mgr fd) :: u8)) =
    (SUB_MAX_PER_CONN \<le> conn_slots mgr fd)"
  by (simp add: word_le_nat_alt unat_of_nat sub_consts)

lemma conn_slots_set:
  assumes "i < length (subs mgr)"
  shows "conn_slots (set_slot mgr i s) fd + (if sub_active (subs mgr ! i) \<and> conn_fd (subs mgr ! i) = fd then 1 else 0)
    = conn_slots mgr fd + (if sub_active s \<and> conn_fd s = fd then 1 else 0)"
  using count_slots_update [OF assms, of "\<lambda>s. sub_active s \<and> conn_fd s = fd" s]
  by (simp add: conn_slots_def set_slot_def)

lemma sub_ok_set:
  "\<forall>s \<in> set xs. sub_ok s \<Longrightarrow> sub_ok y \<Longrightarrow> \<forall>s \<in> set (xs[i := y]). sub_ok s"
  using set_update_subset_insert [of xs i y] by blast

text \<open>Overwriting the filters of an active slot.\<close>

lemma overwrite_slot:
  assumes inv: "sm_inv mgr" and i: "i < length (subs mgr)" "sub_active (subs mgr ! i)"
    and s: "sub_active s" "sub_key s = sub_key (subs mgr ! i)" "sub_ok s"
  shows "sm_inv (set_slot mgr i s) \<and>
    sm_view (set_slot mgr i s) = (sm_view mgr)(sub_key s \<mapsto> live_filters s)"
proof
  have d: "slots_distinct sub_active sub_key (subs mgr)" using inv by (simp add: sm_inv_def)
  show "sm_view (set_slot mgr i s) = (sm_view mgr)(sub_key s \<mapsto> live_filters s)"
    using sub_table.map_same [OF d i s(1,2)] by (auto simp: sm_view_def set_slot_def)
  have "conn_slots (set_slot mgr i s) fd = conn_slots mgr fd" for fd
    using conn_slots_set [OF i(1), of s fd] i s by simp
  moreover have "count_slots sub_active ((subs mgr)[i := s]) = count_slots sub_active (subs mgr)"
    using count_slots_update [OF i(1), of sub_active s] i s by simp
  moreover have "slots_distinct sub_active sub_key ((subs mgr)[i := s])"
    using sub_table.distinct_same [OF d i s(2)] .
  ultimately show "sm_inv (set_slot mgr i s)"
    using inv sub_ok_set [OF _ s(3), of "subs mgr" i] by (simp add: sm_inv_def set_slot_def)
qed

text \<open>Filling a free slot.\<close>

lemma fill_slot:
  assumes inv: "sm_inv mgr" and i: "i < length (subs mgr)" "\<not> sub_active (subs mgr ! i)"
    and s: "sub_active s" "sm_view mgr (sub_key s) = None" "sub_ok s"
    and room: "conn_slots mgr (conn_fd s) < SUB_MAX_PER_CONN"
  shows "sm_inv ((set_slot mgr i s)\<lparr>active_count := active_count mgr + 1\<rparr>) \<and>
    sm_view ((set_slot mgr i s)\<lparr>active_count := active_count mgr + 1\<rparr>) =
      (sm_view mgr)(sub_key s \<mapsto> live_filters s)"
proof
  have d: "slots_distinct sub_active sub_key (subs mgr)" using inv by (simp add: sm_inv_def)
  have n: "slot_map sub_active sub_key (subs mgr) (sub_key s) = None"
    using s(2) by (simp add: sm_view_def)
  show "sm_view ((set_slot mgr i s)\<lparr>active_count := active_count mgr + 1\<rparr>) =
      (sm_view mgr)(sub_key s \<mapsto> live_filters s)"
    using sub_table.map_fresh [OF d i s(1) n] by (auto simp: sm_view_def set_slot_def)
  have "conn_slots (set_slot mgr i s) fd \<le> SUB_MAX_PER_CONN" for fd
    using conn_slots_set [OF i(1), of s fd] i s room inv by (auto simp: sm_inv_def split: if_splits)
  moreover have cnt: "count_slots sub_active ((subs mgr)[i := s]) = count_slots sub_active (subs mgr) + 1"
    using count_slots_update [OF i(1), of sub_active s] i s by simp
  moreover have "unat (active_count mgr + 1) = unat (active_count mgr) + 1"
    using cnt count_slots_le [of sub_active "(subs mgr)[i := s]"] inv
    by (simp add: sm_inv_def unat_word_ariths sub_consts)
  moreover have "slots_distinct sub_active sub_key ((subs mgr)[i := s])"
    using sub_table.distinct_fresh [OF d i(1) n] .
  ultimately show "sm_inv ((set_slot mgr i s)\<lparr>active_count := active_count mgr + 1\<rparr>)"
    using inv sub_ok_set [OF _ s(3), of "subs mgr" i]
    by (simp add: sm_inv_def set_slot_def conn_slots_def)
qed

text \<open>Clearing an active slot.\<close>

lemma clear_slot:
  assumes inv: "sm_inv mgr" and i: "i < length (subs mgr)" "sub_active (subs mgr ! i)"
  shows "sm_inv ((set_slot mgr i zero_subscription)\<lparr>active_count := active_count mgr - 1\<rparr>) \<and>
    sm_view ((set_slot mgr i zero_subscription)\<lparr>active_count := active_count mgr - 1\<rparr>) =
      (sm_view mgr)(sub_key (subs mgr ! i) := None)"
proof
  have d: "slots_distinct sub_active sub_key (subs mgr)" using inv by (simp add: sm_inv_def)
  show "sm_view ((set_slot mgr i zero_subscription)\<lparr>active_count := active_count mgr - 1\<rparr>) =
      (sm_view mgr)(sub_key (subs mgr ! i) := None)"
    using sub_table.map_clear [OF d i zero_inactive] by (auto simp: sm_view_def set_slot_def)
  have "conn_slots (set_slot mgr i zero_subscription) fd \<le> SUB_MAX_PER_CONN" for fd
    using conn_slots_set [OF i(1), of zero_subscription fd] inv
    by (auto simp: sm_inv_def split: if_splits) (metis Suc_leD)+
  moreover have cnt: "count_slots sub_active ((subs mgr)[i := zero_subscription]) + 1 = count_slots sub_active (subs mgr)"
    using count_slots_update [OF i(1), of sub_active zero_subscription] i by simp
  moreover have "unat (active_count mgr - 1) = unat (active_count mgr) - 1"
  proof -
    have "(1::u16) \<le> active_count mgr"
      using cnt inv by (simp add: sm_inv_def word_le_nat_alt)
    then show ?thesis by (simp add: unat_sub)
  qed
  moreover have "slots_distinct sub_active sub_key ((subs mgr)[i := zero_subscription])"
    using sub_table.distinct_clear [OF d i(1) zero_inactive] .
  ultimately show "sm_inv ((set_slot mgr i zero_subscription)\<lparr>active_count := active_count mgr - 1\<rparr>)"
    using inv sub_ok_set [OF _ sub_ok_zero, of "subs mgr" i]
    by (simp add: sm_inv_def set_slot_def conn_slots_def)
qed

lemma find_view:
  assumes "sub_manager_find mgr fd sid = Some i"
  shows "i < length (subs mgr)" and "sub_active (subs mgr ! i)" and "sub_key (subs mgr ! i) = (fd, sid)"
  using find_slot_SomeD [OF assms [unfolded sub_manager_find_def]] by simp_all

lemma find_None_view: "sub_manager_find mgr fd sid = None \<longleftrightarrow> sm_view mgr (fd, sid) = None"
  using sub_table.scan_miss [of "(fd, sid)" "subs mgr"]
  by (simp add: sm_view_def sub_manager_find_def)

section \<open>The abstract subscription table\<close>

text \<open>
  \<open>subs_spec\<close> says what an addition does to the map: \<open>copied\<close> tells whether the filters
  could be copied.
\<close>

definition subs_spec_add ::
    "bool \<Rightarrow> (int \<times> string \<Rightarrow> nostr_filter list option) \<Rightarrow> int \<Rightarrow> string \<Rightarrow> nostr_filter list \<Rightarrow>
     nostr_relay_error \<times> (int \<times> string \<Rightarrow> nostr_filter list option)" where
  "subs_spec_add copied m fd sid fs =
     (if m (fd, sid) \<noteq> None then
        (if copied then (NOSTR_RELAY_OK, m((fd, sid) \<mapsto> take SUB_MAX_FILTERS fs))
         else (NOSTR_RELAY_ERR_MEMORY, m((fd, sid) \<mapsto> [])))
      else if SUB_MAX_PER_CONN \<le> card {k \<in> dom m. fst k = fd} then
        (NOSTR_RELAY_ERR_TOO_MANY_FILTERS, m)
      else if SUB_MAX_TOTAL \<le> card (dom m) \<or> \<not> copied then (NOSTR_RELAY_ERR_MEMORY, m)
      else (NOSTR_RELAY_OK, m((fd, sid) \<mapsto> take SUB_MAX_FILTERS fs)))"

text \<open>Whether the copy of the filters into the slot the call picks succeeds.\<close>

definition copies :: "nostr_lib \<Rightarrow> nostr_filter list \<Rightarrow> heap \<Rightarrow> bool" where
  "copies lib fs h = fst (copy_filters_loop lib 0 (take SUB_MAX_FILTERS fs) [] h)"

lemma copy_filters_loop_indep:
  "fst (copy_filters_loop lib i fs dst h) = fst (copy_filters_loop lib j fs dst' h)"
  by (induction fs arbitrary: i j dst dst' h) (auto split: prod.splits bool.splits)

lemma copies_slot:
  "fst (copy_filters_to_slot lib s (take SUB_MAX_FILTERS fs) h) = copies lib fs h"
  using copy_filters_loop_indep
    [of lib 0 "take SUB_MAX_FILTERS fs" "sub_filters s" h 0 "[]"]
  by (auto simp: copy_filters_to_slot_def copies_def split: prod.splits bool.splits)

lemma copies_empty_schedule: "copies lib fs []"
  using copy_filters_loop_ok [of lib 0 "take SUB_MAX_FILTERS fs" "[]"] by (auto simp: copies_def)

text \<open>What a copy leaves in a slot whose filters were released before.\<close>

lemma copy_slot_result:
  assumes c: "copy_filters_to_slot lib s (take SUB_MAX_FILTERS fs) h = (b, s', h')"
    and s: "length (sub_filters s) = SUB_MAX_FILTERS" "filter_count s = 0"
  shows "b = copies lib fs h" and "sub_key s' = sub_key s" and "sub_active s' = sub_active s"
    and "length (sub_filters s') = SUB_MAX_FILTERS" and "unat (filter_count s') \<le> SUB_MAX_FILTERS"
    and "live_filters s' = (if b then take SUB_MAX_FILTERS fs else [])"
proof -
  show "b = copies lib fs h" using copies_slot [of lib s fs h] c by simp
  have all: "sub_key s' = sub_key s \<and> sub_active s' = sub_active s \<and>
      length (sub_filters s') = SUB_MAX_FILTERS \<and> unat (filter_count s') \<le> SUB_MAX_FILTERS \<and>
      live_filters s' = (if b then take SUB_MAX_FILTERS fs else [])"
  proof (cases b)
    case True
    with c have c': "copy_filters_to_slot lib s (take SUB_MAX_FILTERS fs) h = (True, s', h')" by simp
    from copy_slot_success [OF c' _ s(1)] True show ?thesis
      by (simp add: live_filters_def)
  next
    case False
    with c have c': "copy_filters_to_slot lib s (take SUB_MAX_FILTERS fs) h = (False, s', h')" by simp
    from copy_slot_failure [OF c'] s False show ?thesis
      by (simp add: live_filters_def)
  qed
  then show "sub_key s' = sub_key s" and "sub_active s' = sub_active s"
    and "length (sub_filters s') = SUB_MAX_FILTERS" and "unat (filter_count s') \<le> SUB_MAX_FILTERS"
    and "live_filters s' = (if b then take SUB_MAX_FILTERS fs else [])"
    by blast+
qed

lemma clamp_filters:
  "(if SUB_MAX_FILTERS < length fs then take SUB_MAX_FILTERS fs else fs) = take SUB_MAX_FILTERS fs"
  by simp

lemma inv_sub_ok: "sm_inv mgr \<Longrightarrow> i < length (subs mgr) \<Longrightarrow> sub_ok (subs mgr ! i)"
  by (simp add: sm_inv_def)

lemma inv_distinct: "sm_inv mgr \<Longrightarrow> slots_distinct sub_active sub_key (subs mgr)"
  by (simp add: sm_inv_def)

lemma inv_conn_card:
  "sm_inv mgr \<Longrightarrow> card {k \<in> dom (sm_view mgr). fst k = fd} = conn_slots mgr fd"
  by (rule conn_slots_card) (rule inv_distinct)

lemma inv_conn_le: "sm_inv mgr \<Longrightarrow> conn_slots mgr fd \<le> 64"
  by (auto simp: sm_inv_def sub_consts intro: order_trans)

lemma free_slot_iff:
  assumes "sm_inv mgr"
  shows "find_free_slot mgr = None \<longleftrightarrow> SUB_MAX_TOTAL \<le> card (dom (sm_view mgr))"
proof -
  have "card (dom (sm_view mgr)) = count_slots sub_active (subs mgr)"
    unfolding dom_sm_view using inv_distinct [OF assms] by (rule sub_table.card_dom)
  moreover have "find_free_slot mgr = None \<longleftrightarrow> \<not> count_slots sub_active (subs mgr) < length (subs mgr)"
    by (simp add: find_free_slot_def find_slot_None count_slots_full)
  ultimately show ?thesis using assms by (auto simp: sm_inv_def)
qed

lemma add_existing:
  assumes inv: "sm_inv mgr" and f: "sub_manager_find mgr fd sid = Some i"
    and add: "sub_manager_add lib mgr fd sid fs h = (e, mgr', h')"
  shows "sm_inv mgr' \<and> subs_spec_add (copies lib fs h) (sm_view mgr) fd sid fs = (e, sm_view mgr')"
proof -
  note i = find_view [OF f]
  have bound: "sm_view mgr (fd, sid) \<noteq> None"
    using f find_None_view by (metis option.distinct(1))
  let ?ex = "(free_filters lib (subs mgr ! i))\<lparr>events_sent := 0\<rparr>"
  have ex: "length (sub_filters ?ex) = SUB_MAX_FILTERS" "filter_count ?ex = 0"
      "sub_key ?ex = (fd, sid)" "sub_active ?ex" "length sid \<le> SUB_MAX_ID_LEN"
    using inv_sub_ok [OF inv i(1)] i by (auto simp: free_filters_def Let_def sub_ok_def)
  obtain b s' h1 where c: "copy_filters_to_slot lib ?ex (take SUB_MAX_FILTERS fs) h = (b, s', h1)"
    by (metis prod_cases3)
  note cr = copy_slot_result [OF c ex(1,2)]
  have res: "e = (if b then NOSTR_RELAY_OK else NOSTR_RELAY_ERR_MEMORY)" "mgr' = set_slot mgr i s'"
    using add f c unfolding sub_manager_add_def clamp_filters
    by (auto simp: Let_def split: bool.splits)
  have s': "sub_active s'" "sub_key s' = (fd, sid)" "sub_ok s'"
    using cr ex by (auto simp: sub_ok_def)
  from overwrite_slot [OF inv i(1,2) s'(1) _ s'(3)] i s' cr(1,6) bound show ?thesis
    by (auto simp: subs_spec_add_def res)
qed

lemma add_fresh:
  assumes inv: "sm_inv mgr" and sid: "length sid \<le> SUB_MAX_ID_LEN"
    and none: "sub_manager_find mgr fd sid = None"
    and room: "conn_slots mgr fd < SUB_MAX_PER_CONN" and slot: "find_free_slot mgr = Some i"
    and add: "sub_manager_add lib mgr fd sid fs h = (e, mgr', h')"
  shows "sm_inv mgr' \<and> subs_spec_add (copies lib fs h) (sm_view mgr) fd sid fs = (e, sm_view mgr')"
proof -
  note i = find_slot_SomeD [OF slot [unfolded find_free_slot_def]]
  have unbound: "sm_view mgr (fd, sid) = None" using none by (simp add: find_None_view)
  have space: "\<not> SUB_MAX_TOTAL \<le> card (dom (sm_view mgr))"
    using slot free_slot_iff [OF inv] by auto
  let ?z = "zero_subscription\<lparr>sub_id := strncpy_z sid SUB_MAX_ID_LEN, conn_fd := fd\<rparr>"
  have z: "length (sub_filters ?z) = SUB_MAX_FILTERS" "filter_count ?z = 0" "sub_key ?z = (fd, sid)"
    using sid by (simp_all add: zero_subscription_def)
  obtain b s' h1 where c: "copy_filters_to_slot lib ?z (take SUB_MAX_FILTERS fs) h = (b, s', h1)"
    by (metis prod_cases3)
  note cr = copy_slot_result [OF c z(1,2)]
  note add' = add [unfolded sub_manager_add_def clamp_filters Let_def conn_count_u8 [OF inv_conn_le [OF inv]]]
  show ?thesis
  proof (cases b)
    case True
    let ?s = "s'\<lparr>sub_active := True\<rparr>"
    have res: "e = NOSTR_RELAY_OK" "mgr' = (set_slot mgr i ?s)\<lparr>active_count := active_count mgr + 1\<rparr>"
      using add' none slot room c True by auto
    have s: "sub_ok ?s" "sub_key ?s = (fd, sid)" "live_filters ?s = take SUB_MAX_FILTERS fs"
      using cr z sid True by (auto simp: sub_ok_def live_filters_def)
    from fill_slot [OF inv i, of ?s] s room unbound True cr(1) show ?thesis
      by (simp add: res subs_spec_add_def inv_conn_card [OF inv] space)
  next
    case False
    have res: "e = NOSTR_RELAY_ERR_MEMORY" "mgr' = set_slot mgr i zero_subscription"
      using add' none slot room c False by auto
    have "subs mgr ! i = zero_subscription"
      using inv_sub_ok [OF inv i(1)] i(2) by (simp add: sub_ok_def)
    then have "mgr' = mgr" by (simp add: res set_slot_def list_update_same_conv i)
    with inv False cr(1) room show ?thesis
      by (simp add: res subs_spec_add_def inv_conn_card [OF inv] space unbound)
  qed
qed

lemma add_step:
  assumes inv: "sm_inv mgr" and sid: "length sid \<le> SUB_MAX_ID_LEN"
    and add: "sub_manager_add lib mgr fd sid fs h = (e, mgr', h')"
  shows "sm_inv mgr' \<and> subs_spec_add (copies lib fs h) (sm_view mgr) fd sid fs = (e, sm_view mgr')"
proof (cases "sub_manager_find mgr fd sid")
  case (Some i)
  show ?thesis using inv Some add by (rule add_existing)
next
  case None
  note add' = add [unfolded sub_manager_add_def Let_def conn_count_u8 [OF inv_conn_le [OF inv]]]
  have unbound: "sm_view mgr (fd, sid) = None" using None by (simp add: find_None_view)
  show ?thesis
  proof (cases "conn_slots mgr fd < SUB_MAX_PER_CONN")
    case False
    with None add' inv unbound show ?thesis
      by (auto simp: subs_spec_add_def inv_conn_card)
  next
    case room: True
    show ?thesis
    proof (cases "find_free_slot mgr")
      case full: None
      with None room add' inv unbound free_slot_iff [OF inv] show ?thesis
        by (auto simp: subs_spec_add_def inv_conn_card)
    next
      case (Some i)
      show ?thesis using inv sid None room Some add by (rule add_fresh)
    qed
  qed
qed

lemma remove_step:
  assumes inv: "sm_inv mgr" and rem: "sub_manager_remove lib mgr fd sid = (e, mgr')"
  shows "sm_inv mgr' \<and> sm_view mgr' = (sm_view mgr)((fd, sid) := None) \<and>
    e = (if sm_view mgr (fd, sid) = None then NOSTR_RELAY_ERR_INVALID_SUBSCRIPTION_ID
         else NOSTR_RELAY_OK)"
proof (cases "sub_manager_find mgr fd sid")
  case None
  then have "sm_view mgr (fd, sid) = None" by (simp add: find_None_view)
  with None inv rem show ?thesis by (auto simp: sub_manager_remove_def)
next
  case (Some i)
  note i = find_view [OF Some]
  have "sm_view mgr (fd, sid) \<noteq> None" using Some find_None_view by (metis option.distinct(1))
  with clear_slot [OF inv i(1,2)] Some rem i(3) show ?thesis
    by (auto simp: sub_manager_remove_def)
qed

lemma remove_all_loop_eq:
  "remove_all_loop lib fd ss n =
    (map (\<lambda>s. if sub_active s \<and> fst (sub_key s) = fd then zero_subscription else s) ss,
     n - of_nat (count_slots (\<lambda>s. sub_active s \<and> conn_fd s = fd) ss))"
  by (induction ss arbitrary: n) (auto simp: count_slots_Cons)

lemma count_slots_cleared:
  "count_slots sub_active
     (map (\<lambda>s. if sub_active s \<and> fst (sub_key s) = fd then zero_subscription else s) ss) +
   count_slots (\<lambda>s. sub_active s \<and> conn_fd s = fd) ss = count_slots sub_active ss"
  by (induction ss) (auto simp: count_slots_Cons)

lemma count_slots_cleared_conn:
  "count_slots (\<lambda>s. sub_active s \<and> conn_fd s = fd')
     (map (\<lambda>s. if sub_active s \<and> fst (sub_key s) = fd then zero_subscription else s) ss)
   \<le> count_slots (\<lambda>s. sub_active s \<and> conn_fd s = fd') ss"
  by (induction ss) (auto simp: count_slots_Cons)

lemma remove_all_step:
  assumes inv: "sm_inv mgr"
  shows "sm_inv (sub_manager_remove_all lib mgr fd) \<and>
    sm_view (sub_manager_remove_all lib mgr fd) = (\<lambda>k. if fst k = fd then None else sm_view mgr k)"
proof
  let ?ss = "map (\<lambda>s. if sub_active s \<and> fst (sub_key s) = fd then zero_subscription else s) (subs mgr)"
  let ?n = "conn_slots mgr fd"
  have new: "sub_manager_remove_all lib mgr fd =
      mgr\<lparr>subs := ?ss, active_count := active_count mgr - of_nat ?n\<rparr>"
    by (simp add: sub_manager_remove_all_def remove_all_loop_eq conn_slots_def)
  note clear = sub_table.clear_all [OF inv_distinct [OF inv], of "\<lambda>k. fst k = fd"]
  show "sm_view (sub_manager_remove_all lib mgr fd) = (\<lambda>k. if fst k = fd then None else sm_view mgr k)"
    using clear(2) by (auto simp: new sm_view_def)
  have cnt: "count_slots sub_active ?ss + ?n = count_slots sub_active (subs mgr)"
    unfolding conn_slots_def by (rule count_slots_cleared)
  have "unat (of_nat ?n :: u16) = ?n"
    using inv_conn_le [OF inv, of fd] by (simp add: unat_of_nat)
  moreover from this have "(of_nat ?n :: u16) \<le> active_count mgr"
    using inv cnt by (simp add: word_le_nat_alt sm_inv_def)
  ultimately have "unat (active_count mgr - of_nat ?n) = count_slots sub_active ?ss"
    using inv cnt by (simp add: unat_sub sm_inv_def)
  moreover have "count_slots (\<lambda>s. sub_active s \<and> conn_fd s = fd') ?ss \<le> SUB_MAX_PER_CONN" for fd'
    by (rule order_trans [OF count_slots_cleared_conn]) (use inv in \<open>simp add: sm_inv_def conn_slots_def\<close>)
  ultimately show "sm_inv (sub_manager_remove_all lib mgr fd)"
    using inv clear(1) sub_ok_zero by (auto simp: new sm_inv_def conn_slots_def)
qed

lemma init_step: "sm_inv (snd (sub_manager_init m)) \<and> sm_view (snd (sub_manager_init m)) = Map.empty"
  by (auto simp: sm_inv_def sm_view_eq sub_manager_init_def sub_table.all_blank
        sub_table.distinct_blank sub_ok_zero conn_slots_def count_slots_def)

lemma destroy_view:
  assumes "sm_inv mgr"
  shows "sm_view (sub_manager_destroy lib mgr) = Map.empty"
  using sub_table.clear_all(2) [OF inv_distinct [OF assms], of "\<lambda>_. True"]
  unfolding sub_manager_destroy_def clear_zero by (simp add: sm_view_eq fun_eq_iff)

section \<open>Matching\<close>

abbreviation entry_of :: "subscription \<Rightarrow> sub_match_entry" where
  "entry_of s \<equiv> \<lparr>me_conn_fd = conn_fd s, me_sub_id = sub_id s\<rparr>"

definition hits :: "nostr_lib \<Rightarrow> nostr_event \<Rightarrow> subscription \<Rightarrow> bool" where
  "hits lib ev s \<longleftrightarrow> sub_active s \<and> lib_filters_match lib (live_filters s) ev"

lemma match_loop_eq:
  "match_loop lib ev ss res =
    \<lparr>sm_matches = sm_matches res @ map entry_of (filter (hits lib ev) ss),
     match_count = match_count res + of_nat (length (filter (hits lib ev) ss))\<rparr>"
  by (induction ss arbitrary: res) (auto simp: hits_def live_filters_def)

lemma match_eq:
  "sub_manager_match lib mgr ev =
    \<lparr>sm_matches = map entry_of (filter (hits lib ev) (subs mgr)),
     match_count = of_nat (length (filter (hits lib ev) (subs mgr)))\<rparr>"
  by (simp add: sub_manager_match_def match_loop_eq)

definition entry_key :: "sub_match_entry \<Rightarrow> int \<times> string" where
  "entry_key m = (me_conn_fd m, me_sub_id m)"

lemma distinct_filter_keys:
  assumes "slots_distinct sub_active sub_key xs" and "\<And>s. P s \<Longrightarrow> sub_active s"
  shows "distinct (map sub_key (filter P xs))"
  using assms
proof (induction xs)
  case Nil
  then show ?case by simp
next
  case (Cons x xs)
  have d: "slots_distinct sub_active sub_key xs"
    using Cons.prems(1) unfolding slots_distinct_def
    by (metis Suc_less_eq length_Cons nat.inject nth_Cons_Suc)
  have "sub_key x \<noteq> sub_key y" if "y \<in> set xs" "P x" "P y" for y
  proof
    assume k: "sub_key x = sub_key y"
    from that(1) obtain j where j: "j < length xs" "xs ! j = y" by (auto simp: in_set_conv_nth)
    have "(0::nat) = Suc j"
      using Cons.prems(1) [unfolded slots_distinct_def, rule_format, of 0 "Suc j"]
        Cons.prems(2) that(2,3) k j by simp
    then show False by simp
  qed
  with Cons.IH [OF d Cons.prems(2)] show ?case by auto
qed

lemma match_step:
  fixes lib :: nostr_lib and ev :: nostr_event
  assumes inv: "sm_inv mgr"
  defines "res \<equiv> sub_manager_match lib mgr ev"
  shows "distinct (map entry_key (sm_matches res)) \<and>
    set (map entry_key (sm_matches res)) =
      {k. \<exists>fs. sm_view mgr k = Some fs \<and> lib_filters_match lib fs ev} \<and>
    unat (match_count res) = length (sm_matches res) \<and> length (sm_matches res) \<le> SUB_MAX_TOTAL"
proof (intro conjI)
  have keys: "map entry_key (sm_matches res) = map sub_key (filter (hits lib ev) (subs mgr))"
    by (simp add: res_def match_eq entry_key_def)
  show "distinct (map entry_key (sm_matches res))"
    unfolding keys using inv_distinct [OF inv] by (rule distinct_filter_keys) (simp add: hits_def)
  show "set (map entry_key (sm_matches res)) =
      {k. \<exists>fs. sm_view mgr k = Some fs \<and> lib_filters_match lib fs ev}"
    unfolding keys
    by (auto simp: sm_view_def hits_def sub_table.map_Some_iff [OF inv_distinct [OF inv]] image_iff)
  show len: "length (sm_matches res) \<le> SUB_MAX_TOTAL"
    using inv length_filter_le [of "hits lib ev" "subs mgr"]
    by (simp add: res_def match_eq sm_inv_def del: length_filter_le)
  show "unat (match_count res) = length (sm_matches res)"
    using len by (simp add: res_def match_eq unat_of_nat sub_consts)
qed

lemma count_step: "sm_inv mgr \<Longrightarrow> unat (sub_manager_count mgr fd) = conn_slots mgr fd"
  using inv_conn_le [of mgr fd] by (simp add: sub_manager_count_def unat_of_nat)

section \<open>Properties\<close>

text \<open>
  Property C26. \<open>sub_manager_add\<close>, for an id that fits a slot and whichever allocations fail:
  the array stays well formed (64 slots, at most 8 active per connection, one slot per connection
  and id, \<open>active_count\<close> exact, inactive slots zeroed) and the map changes as the abstract
  table says.  A known id gets the first four of the new filters; an unknown one is refused when
  its connection has 8 subscriptions or the table has 64, and is added otherwise; a failed copy
  adds nothing, but takes the filters of an id that was already there.
\<close>

theorem add_refines_table:
  assumes "sm_inv mgr" and "length sid \<le> SUB_MAX_ID_LEN"
    and "sub_manager_add lib mgr fd sid fs h = (e, mgr', h')"
  shows "sm_inv mgr' \<and>
    subs_spec_add (copies lib fs h) (sm_view mgr) fd sid fs = (e, sm_view mgr')"
  using add_step [OF assms] .

definition kind_filter :: "int \<Rightarrow> nostr_filter" where
  "kind_filter k = zero_filter\<lparr>f_kinds := [k]\<rparr>"

text \<open>One subscription; then a replacement whose second allocation fails.\<close>

definition one_sub :: sub_manager where
  "one_sub = fst (snd (sub_manager_add (demo_lib []) (snd (sub_manager_init True)) 5 ''feed''
     [kind_filter 1] []))"

lemma one_sub_step:
  "sm_inv one_sub \<and> sm_view one_sub = [(5, ''feed'') \<mapsto> [kind_filter 1]]"
proof -
  obtain e h' where "sub_manager_add (demo_lib []) (snd (sub_manager_init True)) 5 ''feed''
      [kind_filter 1] [] = (e, one_sub, h')"
    unfolding one_sub_def by (metis prod.collapse)
  from add_step [OF _ _ this] init_step copies_empty_schedule show ?thesis
    by (simp add: subs_spec_add_def sub_consts)
qed

theorem add_refines_table_witness:
  "let (e, mgr', h') = sub_manager_add (demo_lib []) one_sub 5 ''feed'' [kind_filter 2, kind_filter 3]
         [True, False]
   in e = NOSTR_RELAY_ERR_MEMORY \<and> sm_inv mgr' \<and> sm_view mgr' = [(5, ''feed'') \<mapsto> []]"
proof -
  obtain e mgr' h' where add: "sub_manager_add (demo_lib []) one_sub 5 ''feed''
      [kind_filter 2, kind_filter 3] [True, False] = (e, mgr', h')" by (metis prod_cases3)
  have c: "\<not> copies (demo_lib []) [kind_filter 2, kind_filter 3] [True, False]"
    by code_simp
  from add_refines_table [OF _ _ add] one_sub_step c add show ?thesis
    by (auto simp: subs_spec_add_def sub_consts)
qed

text \<open>
  A CLOSE drops exactly the named subscription of that connection (and answers
  whether there was one); a disconnect drops every subscription of the connection and no other;
  both keep the array well formed.
\<close>

lemma removal_exact:
  assumes "sm_inv mgr"
  shows "(let (e, mgr') = sub_manager_remove lib mgr fd sid in
      sm_inv mgr' \<and> sm_view mgr' = (sm_view mgr)((fd, sid) := None) \<and>
      (e = NOSTR_RELAY_OK \<longleftrightarrow> sm_view mgr (fd, sid) \<noteq> None)) \<and>
    sm_inv (sub_manager_remove_all lib mgr fd) \<and>
    sm_view (sub_manager_remove_all lib mgr fd) = (\<lambda>k. if fst k = fd then None else sm_view mgr k)"
proof -
  obtain e mgr' where r: "sub_manager_remove lib mgr fd sid = (e, mgr')" by force
  from remove_step [OF assms r] remove_all_step [OF assms, of lib fd] r show ?thesis by simp
qed

text \<open>
  Property C16. \<open>sub_manager_match\<close> lists each subscription whose filters match the event
  exactly once and no other, and its 8-bit counter is the length of the list, at most 64.
\<close>

theorem match_exact:
  fixes lib :: nostr_lib and ev :: nostr_event
  assumes "sm_inv mgr"
  defines "res \<equiv> sub_manager_match lib mgr ev"
  shows "distinct (map entry_key (sm_matches res)) \<and>
    set (map entry_key (sm_matches res)) =
      {k. \<exists>fs. sm_view mgr k = Some fs \<and> lib_filters_match lib fs ev} \<and>
    unat (match_count res) = length (sm_matches res) \<and> length (sm_matches res) \<le> 64"
  using match_step [OF assms(1), of lib ev] by (simp add: res_def sub_consts)

definition demo_event :: nostr_event where
  "demo_event = \<lparr>ev_id = replicate 32 1, ev_pubkey = replicate 32 2, ev_created_at = 1700000000,
     ev_kind = 1, ev_tags = [], ev_content = ''hi'', ev_sig = []\<rparr>"

theorem match_exact_witness:
  "set (map entry_key (sm_matches (sub_manager_match (demo_lib []) one_sub demo_event))) =
     {(5, ''feed'')}"
proof -
  have "lib_filters_match (demo_lib []) [kind_filter 1] demo_event" by code_simp
  with match_exact [of one_sub "demo_lib []" demo_event] one_sub_step show ?thesis by auto
qed

end
