(* ===== verification/Deletion.thy ===== *)
theory Deletion
  imports Storage_Recovery
begin

text \<open>
  NIP-09 deletion requests (\<open>main/deletion.c\<close>).  The handler works on the store through
  lookups, queries and deletions only, so its proofs rest on the interface \<open>event_store\<close>.
  A storage call takes the next environment of a sequence, an allocation the next outcome of
  a schedule.
\<close>

section \<open>Scanning C text\<close>

text \<open>\<open>isspace\<close> in the C locale.\<close>

definition is_space :: "char \<Rightarrow> bool" where
  "is_space c \<longleftrightarrow> c \<in> set [CHR '' '', CHR 0x09, CHR 0x0A, CHR 0x0B, CHR 0x0C, CHR 0x0D]"

definition digit_value :: "char \<Rightarrow> nat option" where
  "digit_value c = find_slot (\<lambda>d. d = c) ''0123456789''"

fun digits_value :: "int \<Rightarrow> string \<Rightarrow> int" where
  "digits_value acc [] = acc"
| "digits_value acc (c # cs) =
     (case digit_value c of None \<Rightarrow> acc | Some d \<Rightarrow> digits_value (10 * acc + int d) cs)"

definition skip_space :: "string \<Rightarrow> string" where
  "skip_space s = dropWhile is_space s"

text \<open>
  A decimal integer after optional white space and an optional sign, and what follows it; none
  when there is no digit.  A number outside \<open>int32_t\<close>, undefined in C, keeps its value; no
  such number equals the 16-bit kind of an event.
\<close>

definition scan_int :: "string \<Rightarrow> (int \<times> string) option" where
  "scan_int s =
     (let s = skip_space s;
          neg = (s \<noteq> [] \<and> hd s = CHR ''-'');
          s = (if s \<noteq> [] \<and> (hd s = CHR ''-'' \<or> hd s = CHR ''+'') then tl s else s)
      in if s = [] \<or> digit_value (hd s) = None then None
         else
           let v = digits_value 0 s
           in Some (if neg then - v else v, dropWhile (\<lambda>c. digit_value c \<noteq> None) s))"

definition atoi :: "string \<Rightarrow> int" where
  "atoi s = (case scan_int s of None \<Rightarrow> 0 | Some (v, _) \<Rightarrow> v)"

text \<open>
  \<open>sscanf (addr, "%d:%64[^:]:%255s", &kind, pubkey, d_tag)\<close> with an empty initial
  \<open>d_tag\<close>: none when it converts fewer than two items.
\<close>

definition scan_address :: "string \<Rightarrow> (int \<times> string \<times> string) option" where
  "scan_address addr =
     (case scan_int addr of
        None \<Rightarrow> None
      | Some (kind, rest) \<Rightarrow>
          if rest = [] \<or> hd rest \<noteq> CHR '':'' then None
          else
            let pubkey = take 64 (takeWhile (\<lambda>c. c \<noteq> CHR '':'') (tl rest));
                rest = drop (length pubkey) (tl rest)
            in if pubkey = [] then None
               else if rest = [] \<or> hd rest \<noteq> CHR '':'' then Some (kind, pubkey, '''')
               else Some (kind, pubkey, take 255 (takeWhile (\<lambda>c. \<not> is_space c) (skip_space (tl rest)))))"

section \<open>Calls on the store\<close>

record store_ctx =
  sc_store :: storage_sys
  sc_tick :: nat
  sc_heap :: heap

type_synonym envs = "nat \<Rightarrow> storage_env"

definition ctx_get :: "nostr_lib \<Rightarrow> envs \<Rightarrow> u8 list \<Rightarrow> store_ctx \<Rightarrow> nostr_event option \<times> store_ctx" where
  "ctx_get lib envs event_id c =
     (storage_get_event lib (envs (sc_tick c)) event_id (sc_store c), c\<lparr>sc_tick := sc_tick c + 1\<rparr>)"

definition ctx_delete :: "nostr_lib \<Rightarrow> envs \<Rightarrow> u8 list \<Rightarrow> store_ctx \<Rightarrow> storage_error \<times> store_ctx" where
  "ctx_delete lib envs event_id c =
     (let (r, s) = storage_delete_event lib (envs (sc_tick c)) event_id (sc_store c)
      in (r, c\<lparr>sc_store := s, sc_tick := sc_tick c + 1\<rparr>))"

definition ctx_query ::
    "nostr_lib \<Rightarrow> envs \<Rightarrow> nostr_filter \<Rightarrow> u16 \<Rightarrow> store_ctx \<Rightarrow> (storage_error \<times> nostr_event list) \<times> store_ctx" where
  "ctx_query lib envs f limit c =
     (let (r, s) = storage_query_events lib (envs (sc_tick c)) f limit (sc_store c)
      in (r, c\<lparr>sc_store := s, sc_tick := sc_tick c + 1\<rparr>))"

definition ctx_malloc :: "store_ctx \<Rightarrow> bool \<times> store_ctx" where
  "ctx_malloc c = (let (b, h) = malloc (sc_heap c) in (b, c\<lparr>sc_heap := h\<rparr>))"

section \<open>Deletion by event id\<close>

fun delete_ids_loop ::
    "nostr_lib \<Rightarrow> envs \<Rightarrow> deletion_request \<Rightarrow> string list \<Rightarrow> store_ctx \<Rightarrow> int \<Rightarrow> int \<times> store_ctx" where
  "delete_ids_loop lib envs request [] c n = (n, c)"
| "delete_ids_loop lib envs request (s # ids) c n =
     (case lib_hex_to_bytes lib s 64 32 of
        None \<Rightarrow> delete_ids_loop lib envs request ids c n
      | Some event_id \<Rightarrow>
          (case ctx_get lib envs event_id c of
             (None, c) \<Rightarrow> delete_ids_loop lib envs request ids c n
           | (Some target, c) \<Rightarrow>
               if lib_deletion_authorized lib request target then
                 let (r, c) = ctx_delete lib envs event_id c
                 in delete_ids_loop lib envs request ids c (if r = STORAGE_OK then n + 1 else n)
               else delete_ids_loop lib envs request ids c n))"

definition delete_by_event_ids ::
    "nostr_lib \<Rightarrow> envs \<Rightarrow> deletion_request \<Rightarrow> store_ctx \<Rightarrow> int \<times> store_ctx" where
  "delete_by_event_ids lib envs request c = delete_ids_loop lib envs request (dr_event_ids request) c 0"

section \<open>Deletion by address\<close>

text \<open>The loop over the query result; \<open>keep\<close> is the test on an event.\<close>

fun delete_found_loop ::
    "nostr_lib \<Rightarrow> envs \<Rightarrow> (nostr_event \<Rightarrow> bool) \<Rightarrow> nostr_event list \<Rightarrow> store_ctx \<Rightarrow> int \<Rightarrow> int \<times> store_ctx" where
  "delete_found_loop lib envs sel [] c n = (n, c)"
| "delete_found_loop lib envs sel (e # es) c n =
     (if sel e then
        let (r, c) = ctx_delete lib envs (ev_id e) c
        in delete_found_loop lib envs sel es c (if r = STORAGE_OK then n + 1 else n)
      else delete_found_loop lib envs sel es c n)"

definition has_d_tag :: "nostr_lib \<Rightarrow> string \<Rightarrow> nostr_event \<Rightarrow> bool" where
  "has_d_tag lib d_tag e = ((case lib_event_get_d_tag lib e of None \<Rightarrow> '''' | Some d \<Rightarrow> d) = d_tag)"

fun delete_addresses_loop ::
    "nostr_lib \<Rightarrow> envs \<Rightarrow> deletion_request \<Rightarrow> int \<Rightarrow> string list \<Rightarrow> store_ctx \<Rightarrow> int \<Rightarrow> int \<times> store_ctx" where
  "delete_addresses_loop lib envs request before [] c n = (n, c)"
| "delete_addresses_loop lib envs request before (addr # addrs) c n =
     (case scan_address addr of
        None \<Rightarrow> delete_addresses_loop lib envs request before addrs c n
      | Some (kind, pubkey, d_tag) \<Rightarrow>
          if pubkey \<noteq> dr_pubkey request then delete_addresses_loop lib envs request before addrs c n
          else
            let (b1, c) = ctx_malloc c; (b2, c) = ctx_malloc c in
            if \<not> b1 \<or> \<not> b2 then delete_addresses_loop lib envs request before addrs c n
            else
              let f = zero_filter\<lparr>f_kinds := [kind], f_authors := [pubkey], f_until := before, f_limit := 100\<rparr>;
                  ((r, evs), c) = ctx_query lib envs f 100 c;
                  (n, c) = (if r = STORAGE_OK then delete_found_loop lib envs (has_d_tag lib d_tag) evs c n
                                  else (n, c))
              in delete_addresses_loop lib envs request before addrs c n)"

definition delete_by_addresses ::
    "nostr_lib \<Rightarrow> envs \<Rightarrow> deletion_request \<Rightarrow> int \<Rightarrow> store_ctx \<Rightarrow> int \<times> store_ctx" where
  "delete_by_addresses lib envs request before c =
     delete_addresses_loop lib envs request before (dr_addresses request) c 0"

section \<open>Deletion by kind\<close>

fun collect_kinds :: "string list list \<Rightarrow> int list \<Rightarrow> int list" where
  "collect_kinds [] kinds = kinds"
| "collect_kinds (t # ts) kinds =
     (if \<not> length kinds < 32 then kinds
      else if 2 \<le> length t \<and> t ! 0 = ''k'' then collect_kinds ts (kinds @ [atoi (t ! 1)])
      else collect_kinds ts kinds)"

fun delete_kinds_loop ::
    "nostr_lib \<Rightarrow> envs \<Rightarrow> nostr_event \<Rightarrow> int list \<Rightarrow> store_ctx \<Rightarrow> int \<Rightarrow> int \<times> store_ctx" where
  "delete_kinds_loop lib envs ev [] c n = (n, c)"
| "delete_kinds_loop lib envs ev (k # ks) c n =
     (let (b, c) = ctx_malloc c in
      if \<not> b then delete_kinds_loop lib envs ev ks c n
      else
        let f = zero_filter\<lparr>f_kinds := [k], f_authors := [lib_bytes_to_hex lib (ev_pubkey ev)],
                            f_until := ev_created_at ev, f_limit := 500\<rparr>;
            ((r, evs), c) = ctx_query lib envs f 500 c;
            (n, c) = (if r = STORAGE_OK then delete_found_loop lib envs (\<lambda>_. True) evs c n
                            else (n, c))
        in delete_kinds_loop lib envs ev ks c n)"

definition delete_by_kinds :: "nostr_lib \<Rightarrow> envs \<Rightarrow> nostr_event \<Rightarrow> store_ctx \<Rightarrow> int \<times> store_ctx" where
  "delete_by_kinds lib envs ev c =
     (let kinds = collect_kinds (ev_tags ev) [] in
      if kinds = [] then (0, c) else delete_kinds_loop lib envs ev kinds c 0)"

section \<open>The request\<close>

definition NOSTR_KIND_DELETION :: u16 where "NOSTR_KIND_DELETION = 5"

definition deletion_process :: "nostr_lib \<Rightarrow> envs \<Rightarrow> nostr_event \<Rightarrow> store_ctx \<Rightarrow> int \<times> store_ctx" where
  "deletion_process lib envs ev c =
     (if ev_kind ev \<noteq> NOSTR_KIND_DELETION then (0, c)
      else case lib_deletion_parse lib ev of
          None \<Rightarrow> (0, c)
        | Some request \<Rightarrow>
            let (n1, c) = delete_by_event_ids lib envs request c;
                (n2, c) = delete_by_addresses lib envs request (ev_created_at ev) c;
                (n3, c) = delete_by_kinds lib envs ev c
            in (n1 + n2 + n3, c))"

section \<open>What a request can remove\<close>

text \<open>
  Documented behaviour of the deletion and filter functions of the library (NIP-09): a parsed
  request carries its author's key in hex, a target is authorised exactly if it has the same
  author, and a filter on one author and one kind accepts only that author's events of the kind.
\<close>

definition deletion_contract :: "nostr_lib \<Rightarrow> bool" where
  "deletion_contract lib \<longleftrightarrow>
     inj (lib_bytes_to_hex lib) \<and>
     (\<forall>ev req. lib_deletion_parse lib ev = Some req \<longrightarrow> dr_pubkey req = lib_bytes_to_hex lib (ev_pubkey ev)) \<and>
     (\<forall>req t. lib_deletion_authorized lib req t \<longleftrightarrow> dr_pubkey req = lib_bytes_to_hex lib (ev_pubkey t)) \<and>
     (\<forall>f a t. f_authors f = [a] \<longrightarrow> lib_filter_matches lib f t \<longrightarrow> a = lib_bytes_to_hex lib (ev_pubkey t))"

text \<open>Logged events of one author, the clock readings of the request, and the frame.\<close>

definition authored :: "u8 list \<Rightarrow> (storage_index_entry \<times> nostr_event option) set" where
  "authored pk = {x. \<exists>e t. x = (e, Some t) \<and> ev_pubkey t = pk}"

definition clocks :: "envs \<Rightarrow> u32 set" where
  "clocks envs = range (\<lambda>n. now_of (envs n))"

definition shrinks ::
    "nostr_lib \<Rightarrow> envs \<Rightarrow> (storage_index_entry \<times> nostr_event option) set \<Rightarrow> store_ctx \<Rightarrow> store_ctx \<Rightarrow> bool" where
  "shrinks lib envs A c c' \<longleftrightarrow>
     reduces (store_inv lib) (stored lib) (clocks envs) A (sc_store c) (sc_store c')"

lemma shrinks_refl: "store_inv lib (sc_store c) \<Longrightarrow> shrinks lib envs A c c"
  unfolding shrinks_def by (rule engine.reduces_refl)

lemma shrinks_trans: "shrinks lib envs A c c' \<Longrightarrow> shrinks lib envs A c' c'' \<Longrightarrow> shrinks lib envs A c c''"
  unfolding shrinks_def by (rule engine.reduces_trans)

lemma shrinks_inv: "shrinks lib envs A c c' \<Longrightarrow> store_inv lib (sc_store c')"
  unfolding shrinks_def by (rule engine.reduces_inv)

lemma shrinks_subset: "shrinks lib envs A c c' \<Longrightarrow> set (stored lib (sc_store c')) \<subseteq> set (stored lib (sc_store c))"
  unfolding shrinks_def by (rule engine.reduces_subset)

lemma shrinks_length:
  "shrinks lib envs A c c' \<Longrightarrow> length (stored lib (sc_store c')) \<le> length (stored lib (sc_store c))"
  unfolding shrinks_def by (rule engine.reduces_length)

lemma shrinks_same_store:
  "sc_store c' = sc_store c \<Longrightarrow> shrinks lib envs A c d = shrinks lib envs A c' d"
  "sc_store c' = sc_store c \<Longrightarrow> shrinks lib envs A d c = shrinks lib envs A d c'"
  by (simp_all add: shrinks_def)

lemma ctx_get_store [simp]: "sc_store (snd (ctx_get lib envs i c)) = sc_store c"
  by (simp add: ctx_get_def)

lemma ctx_malloc_store [simp]: "sc_store (snd (ctx_malloc c)) = sc_store c"
  by (simp add: ctx_malloc_def split: prod.split)

lemma clock_in: "now_of (envs n) \<in> clocks envs"
  by (auto simp: clocks_def)

lemma ctx_delete_store:
  "ctx_delete lib envs i c = (r, c') \<Longrightarrow>
    storage_delete_event lib (envs (sc_tick c)) i (sc_store c) = (r, sc_store c')"
  by (auto simp: ctx_delete_def split: prod.splits)

lemma ctx_query_store:
  "ctx_query lib envs f l c = ((r, evs), c') \<Longrightarrow>
    storage_query_events lib (envs (sc_tick c)) f l (sc_store c) = ((r, evs), sc_store c')"
  by (auto simp: ctx_query_def split: prod.splits)

lemma ctx_query_shrinks:
  assumes "store_inv lib (sc_store c)" and "ctx_query lib envs f l c = ((r, evs), c')"
  shows "shrinks lib envs A c c'"
  unfolding shrinks_def using clock_in by (rule engine.reduces_query [OF assms(1) ctx_query_store [OF assms(2)]])

text \<open>The loop over a query result.\<close>

lemma delete_found_step:
  assumes "store_inv lib s1" and "\<forall>ev \<in> set evs. \<exists>e. (e, Some ev) \<in> set (stored lib s1) \<and> (sel ev \<longrightarrow> (e, Some ev) \<in> A)"
    and "store_inv lib (sc_store c)" and "set (stored lib (sc_store c)) \<subseteq> set (stored lib s1)"
    and "delete_found_loop lib envs sel evs c n = (n', c')"
  shows "shrinks lib envs A c c' \<and>
    (\<forall>ev \<in> set evs. sel ev \<longrightarrow> ev_id ev \<notin> log_id ` set (stored lib (sc_store c')))"
  using assms
proof (induction evs arbitrary: c n)
  case Nil
  then show ?case by (simp add: shrinks_refl)
next
  case (Cons ev evs)
  show ?case
  proof (cases "sel ev")
    case False
    with Cons show ?thesis by simp
  next
    case True
    obtain r c1 where d: "ctx_delete lib envs (ev_id ev) c = (r, c1)" by force
    obtain e where e: "(e, Some ev) \<in> set (stored lib s1)" "(e, Some ev) \<in> A"
      using Cons.prems(2) True by auto
    have one: "shrinks lib envs A c c1" "ev_id ev \<notin> log_id ` set (stored lib (sc_store c1))"
      using engine.reduces_del_found [OF Cons.prems(1) e Cons.prems(4,3) ctx_delete_store [OF d]]
      by (auto simp: shrinks_def)
    have loop: "delete_found_loop lib envs sel evs c1 (if r = STORAGE_OK then n + 1 else n) = (n', c')"
      using Cons.prems(5) True d by simp
    have rest: "shrinks lib envs A c1 c' \<and>
        (\<forall>ev \<in> set evs. sel ev \<longrightarrow> ev_id ev \<notin> log_id ` set (stored lib (sc_store c')))"
      using Cons.IH [OF Cons.prems(1) _ shrinks_inv [OF one(1)] _ loop] Cons.prems(2,4) shrinks_subset [OF one(1)]
      by auto
    with one shrinks_trans shrinks_subset [of lib envs A c1 c'] show ?thesis by (auto simp: image_iff)
  qed
qed

text \<open>A query for one author, then the deletion of what the test selects.\<close>

lemma query_delete_step:
  assumes con: "deletion_contract lib" and inv: "store_inv lib (sc_store c)"
    and f: "f_authors f = [lib_bytes_to_hex lib pk]"
    and q: "ctx_query lib envs f l c = ((r, evs), c1)"
    and d: "(if r = STORAGE_OK then delete_found_loop lib envs sel evs c1 n else (n, c1)) = (n', c')"
  shows "shrinks lib envs (authored pk) c c'"
    and "r = STORAGE_OK \<Longrightarrow> \<forall>ev \<in> set evs. sel ev \<longrightarrow> ev_id ev \<notin> log_id ` set (stored lib (sc_store c'))"
proof -
  have qs: "shrinks lib envs (authored pk) c c1" using ctx_query_shrinks [OF inv q] .
  have "ev_pubkey ev = pk" if "lib_filter_matches lib f ev" for ev
    using con f that unfolding deletion_contract_def by (metis injD)
  then have "\<forall>ev \<in> set evs. \<exists>e. (e, Some ev) \<in> set (stored lib (sc_store c)) \<and> (sel ev \<longrightarrow> (e, Some ev) \<in> authored pk)"
    using engine.query_log [OF inv ctx_query_store [OF q]] unfolding authored_def by blast
  then have loop: "shrinks lib envs (authored pk) c1 c' \<and>
      (\<forall>ev \<in> set evs. sel ev \<longrightarrow> ev_id ev \<notin> log_id ` set (stored lib (sc_store c')))"
    if "r = STORAGE_OK"
    using delete_found_step [OF inv _ shrinks_inv [OF qs] shrinks_subset [OF qs]] d that by simp
  then show "shrinks lib envs (authored pk) c c'"
    using qs d shrinks_trans by (cases "r = STORAGE_OK") auto
  show "\<forall>ev \<in> set evs. sel ev \<longrightarrow> ev_id ev \<notin> log_id ` set (stored lib (sc_store c'))" if "r = STORAGE_OK"
    using loop [OF that] by blast
qed

lemma delete_ids_step:
  assumes con: "deletion_contract lib" and req: "dr_pubkey request = lib_bytes_to_hex lib pk"
  shows "store_inv lib (sc_store c) \<Longrightarrow> delete_ids_loop lib envs request ids c n = (n', c') \<Longrightarrow>
    shrinks lib envs (authored pk) c c'"
proof (induction ids arbitrary: c n)
  case Nil
  then show ?case by (simp add: shrinks_refl)
next
  case (Cons s ids)
  show ?case
  proof (cases "lib_hex_to_bytes lib s 64 32")
    case None
    with Cons show ?thesis by simp
  next
    case (Some event_id)
    obtain t c1 where g: "ctx_get lib envs event_id c = (t, c1)" by force
    have st1: "sc_store c1 = sc_store c" using ctx_get_store [of lib envs event_id c] g by simp
    have got: "storage_get_event lib (envs (sc_tick c)) event_id (sc_store c) = t"
      using g by (simp add: ctx_get_def)
    show ?thesis
    proof (cases "\<exists>target. t = Some target \<and> lib_deletion_authorized lib request target")
      case False
      then have "delete_ids_loop lib envs request ids c1 n = (n', c')"
        using Cons.prems(2) Some g by (auto split: option.splits)
      with Cons.IH [of c1 n] Cons.prems(1) st1 show ?thesis
        using shrinks_same_store(1) [OF st1] by simp
    next
      case True
      then obtain target where t: "t = Some target" "lib_deletion_authorized lib request target" by blast
      have pk: "ev_pubkey target = pk"
        using con req t(2) unfolding deletion_contract_def by (metis injD)
      obtain r c2 where d: "ctx_delete lib envs event_id c1 = (r, c2)" by force
      have "x \<in> authored pk" if "x \<in> set (stored lib (sc_store c))" "log_id x = event_id" for x
        using engine.get_unique [OF Cons.prems(1) got [unfolded t(1)] that] pk
        unfolding authored_def by (metis (mono_tags) mem_Collect_eq prod.collapse)
      then have one: "shrinks lib envs (authored pk) c c2"
        using engine.reduces_del [OF Cons.prems(1) ctx_delete_store [OF d, unfolded st1]] by (simp add: shrinks_def)
      have "delete_ids_loop lib envs request ids c2 (if r = STORAGE_OK then n + 1 else n) = (n', c')"
        using Cons.prems(2) Some g t d by simp
      from Cons.IH [OF shrinks_inv [OF one] this] one shrinks_trans show ?thesis by blast
    qed
  qed
qed

lemma ctx_malloc_obtain:
  obtains b c1 where "ctx_malloc c = (b, c1)" and "sc_store c1 = sc_store c"
  by (metis ctx_malloc_store prod.collapse)

lemma delete_addresses_step:
  assumes con: "deletion_contract lib" and req: "dr_pubkey request = lib_bytes_to_hex lib pk"
  shows "store_inv lib (sc_store c) \<Longrightarrow> delete_addresses_loop lib envs request before addrs c n = (n', c') \<Longrightarrow>
    shrinks lib envs (authored pk) c c'"
proof (induction addrs arbitrary: c n)
  case Nil
  then show ?case by (simp add: shrinks_refl)
next
  case (Cons addr addrs)
  obtain b1 c1 where m1: "ctx_malloc c = (b1, c1)" "sc_store c1 = sc_store c" by (rule ctx_malloc_obtain)
  obtain b2 c2 where m2: "ctx_malloc c1 = (b2, c2)" "sc_store c2 = sc_store c1" by (rule ctx_malloc_obtain)
  show ?case
  proof (cases "\<exists>kind d_tag. scan_address addr = Some (kind, dr_pubkey request, d_tag)")
    case False
    then have "delete_addresses_loop lib envs request before addrs c n = (n', c')"
      using Cons.prems(2) by (auto split: option.splits)
    with Cons show ?thesis by blast
  next
    case True
    then obtain kind d_tag where a: "scan_address addr = Some (kind, dr_pubkey request, d_tag)" by blast
    show ?thesis
    proof (cases "b1 \<and> b2")
      case False
      then have "delete_addresses_loop lib envs request before addrs c2 n = (n', c')"
        using Cons.prems(2) a m1 m2 by auto
      with Cons.IH [of c2 n] Cons.prems(1) m1 m2 show ?thesis by (simp add: shrinks_def)
    next
      case mem: True
      let ?f = "zero_filter\<lparr>f_kinds := [kind], f_authors := [dr_pubkey request], f_until := before, f_limit := 100\<rparr>"
      obtain r evs c3 where q: "ctx_query lib envs ?f 100 c2 = ((r, evs), c3)" by (metis prod.collapse)
      obtain n1 c4 where d: "(if r = STORAGE_OK then delete_found_loop lib envs (has_d_tag lib d_tag) evs c3 n
          else (n, c3)) = (n1, c4)" by force
      have inv: "store_inv lib (sc_store c2)" using Cons.prems(1) m1 m2 by simp
      have "shrinks lib envs (authored pk) c2 c4"
        using query_delete_step(1) [OF con inv _ q d] req by simp
      then have one: "shrinks lib envs (authored pk) c c4" using m1 m2 by (simp add: shrinks_def)
      have "delete_addresses_loop lib envs request before addrs c4 n1 = (n', c')"
        using Cons.prems(2) a m1 m2 mem q d by (simp add: Let_def)
      from Cons.IH [OF shrinks_inv [OF one] this] one shrinks_trans show ?thesis by blast
    qed
  qed
qed

lemma delete_kinds_step:
  assumes con: "deletion_contract lib"
  shows "store_inv lib (sc_store c) \<Longrightarrow> delete_kinds_loop lib envs ev ks c n = (n', c') \<Longrightarrow>
    shrinks lib envs (authored (ev_pubkey ev)) c c'"
proof (induction ks arbitrary: c n)
  case Nil
  then show ?case by (simp add: shrinks_refl)
next
  case (Cons k ks)
  obtain b c1 where m: "ctx_malloc c = (b, c1)" "sc_store c1 = sc_store c" by (rule ctx_malloc_obtain)
  show ?case
  proof (cases b)
    case False
    then have "delete_kinds_loop lib envs ev ks c1 n = (n', c')" using Cons.prems(2) m by simp
    with Cons.IH [of c1 n] Cons.prems(1) m show ?thesis by (simp add: shrinks_def)
  next
    case True
    let ?f = "zero_filter\<lparr>f_kinds := [k], f_authors := [lib_bytes_to_hex lib (ev_pubkey ev)],
      f_until := ev_created_at ev, f_limit := 500\<rparr>"
    obtain r evs c3 where q: "ctx_query lib envs ?f 500 c1 = ((r, evs), c3)" by (metis prod.collapse)
    obtain n1 c4 where d: "(if r = STORAGE_OK then delete_found_loop lib envs (\<lambda>_. True) evs c3 n
        else (n, c3)) = (n1, c4)" by force
    have inv: "store_inv lib (sc_store c1)" using Cons.prems(1) m by simp
    have "shrinks lib envs (authored (ev_pubkey ev)) c1 c4"
      using query_delete_step(1) [OF con inv _ q d] by simp
    then have one: "shrinks lib envs (authored (ev_pubkey ev)) c c4" using m by (simp add: shrinks_def)
    have "delete_kinds_loop lib envs ev ks c4 n1 = (n', c')"
      using Cons.prems(2) m True q d by (simp add: Let_def)
    from Cons.IH [OF shrinks_inv [OF one] this] one shrinks_trans show ?thesis by blast
  qed
qed

section \<open>Properties\<close>

lemma deletion_step:
  assumes con: "deletion_contract lib" and inv: "store_inv lib (sc_store c)"
    and proc: "deletion_process lib envs ev c = (n, c')"
  shows "shrinks lib envs (authored (ev_pubkey ev)) c c'"
proof (cases "ev_kind ev = NOSTR_KIND_DELETION \<and> lib_deletion_parse lib ev \<noteq> None")
  case False
  then have "c' = c" using proc by (auto simp: deletion_process_def split: if_splits)
  with inv show ?thesis by (simp add: shrinks_refl)
next
  case True
  then obtain request where r: "lib_deletion_parse lib ev = Some request" by blast
  have req: "dr_pubkey request = lib_bytes_to_hex lib (ev_pubkey ev)"
    using con r unfolding deletion_contract_def by blast
  obtain n1 c1 where d1: "delete_by_event_ids lib envs request c = (n1, c1)" by force
  obtain n2 c2 where d2: "delete_by_addresses lib envs request (ev_created_at ev) c1 = (n2, c2)" by force
  obtain n3 c3 where d3: "delete_by_kinds lib envs ev c2 = (n3, c3)" by force
  have c': "c' = c3" using proc True r d1 d2 d3 by (simp add: deletion_process_def Let_def)
  have s1: "shrinks lib envs (authored (ev_pubkey ev)) c c1"
    using delete_ids_step [OF con req inv d1 [unfolded delete_by_event_ids_def]] .
  have s2: "shrinks lib envs (authored (ev_pubkey ev)) c1 c2"
    using delete_addresses_step [OF con req shrinks_inv [OF s1] d2 [unfolded delete_by_addresses_def]] .
  have s3: "shrinks lib envs (authored (ev_pubkey ev)) c2 c3"
    using d3 delete_kinds_step [OF con shrinks_inv [OF s2]] shrinks_refl [OF shrinks_inv [OF s2]]
    by (auto simp: delete_by_kinds_def Let_def split: if_splits)
  from s1 s2 s3 shrinks_trans show ?thesis unfolding c' by blast
qed

text \<open>
  Property C11. A deletion request never touches another author: whatever ids, addresses and
  kinds it names and whatever fails on the way, every entry that has left the log afterwards was
  an event of the request's own author or had expired at one of the clock readings taken
  meanwhile; the order of the rest is kept and the store stays valid.
\<close>

theorem deletion_only_own_events:
  assumes "deletion_contract lib" and "store_inv lib (sc_store c)"
    and "deletion_process lib envs ev c = (n, c')"
  shows "store_inv lib (sc_store c') \<and>
    (\<exists>K. stored lib (sc_store c') = filter K (stored lib (sc_store c)) \<and>
      (\<forall>x \<in> set (stored lib (sc_store c)). \<not> K x \<longrightarrow>
        (\<exists>e t. x = (e, Some t) \<and> ev_pubkey t = ev_pubkey ev) \<or>
        (\<exists>i. expired (now_of (envs i)) (fst x))))"
  using deletion_step [OF assms] unfolding shrinks_def reduces_def authored_def clocks_def by blast

lemma demo_deletion_contract: "deletion_contract (demo_lib evs)"
proof -
  have "inj demo_hex" by (metis injI unhex_demo_hex option.inject)
  then show ?thesis
    by (auto simp: deletion_contract_def demo_lib_def demo_match_def inj_def)
qed

text \<open>A request of a stranger for the id of the second demonstration note.\<close>

definition deletion_by :: "nat \<Rightarrow> string list list \<Rightarrow> nostr_event" where
  "deletion_by k tags = \<lparr>ev_id = replicate 32 99, ev_pubkey = replicate 32 (of_nat k), ev_created_at = 2500,
     ev_kind = 5, ev_tags = tags, ev_content = '''', ev_sig = []\<rparr>"

definition demo_ctx :: store_ctx where
  "demo_ctx = \<lparr>sc_store = two_notes, sc_tick = 0, sc_heap = []\<rparr>"

theorem deletion_only_own_events_witness:
  "stored (demo_lib demo_notes) (sc_store (snd (deletion_process (demo_lib demo_notes) (\<lambda>_. good_env 3000)
     (deletion_by 2 [[''e'', demo_hex (replicate 32 9)], [''k'', ''1'']]) demo_ctx))) =
   [(note_entry 7 0, Some (demo_note 7)), (note_entry 9 1, Some (demo_note 9))]"
proof -
  let ?lib = "demo_lib demo_notes" and ?envs = "\<lambda>_ :: nat. good_env 3000"
    and ?ev = "deletion_by 2 [[''e'', demo_hex (replicate 32 9)], [''k'', ''1'']]"
  obtain n c' where d: "deletion_process ?lib ?envs ?ev demo_ctx = (n, c')" by force
  have inv: "store_inv ?lib (sc_store demo_ctx)" using two_notes(1) by (simp add: demo_ctx_def)
  have log: "stored ?lib (sc_store demo_ctx) =
      [(note_entry 7 0, Some (demo_note 7)), (note_entry 9 1, Some (demo_note 9))]"
    using two_notes(2) by (simp add: demo_ctx_def)
  have "\<not> expired (now_of (good_env 3000)) (note_entry k i)" for k i
    by (simp add: expired_def now_of_def note_entry_def good_env_def)
  moreover have "ev_pubkey (demo_note k) \<noteq> ev_pubkey ?ev" for k
    by (simp add: demo_note_def deletion_by_def)
  ultimately have "K x" if "x \<in> set (stored ?lib (sc_store demo_ctx))"
    "\<forall>x \<in> set (stored ?lib (sc_store demo_ctx)). \<not> K x \<longrightarrow>
        (\<exists>e t. x = (e, Some t) \<and> ev_pubkey t = ev_pubkey ?ev) \<or> (\<exists>i. expired (now_of (?envs i)) (fst x))" for K x
    using that log by auto
  with deletion_only_own_events [OF demo_deletion_contract inv d] log d show ?thesis
    by (metis (no_types, lifting) filter_True snd_conv)
qed

lemma delete_ids_Cons:
  "delete_ids_loop lib envs request (s # ids) c n =
    (case delete_ids_loop lib envs request [s] c n of (n1, c1) \<Rightarrow> delete_ids_loop lib envs request ids c1 n1)"
  by (auto simp: Let_def split: option.split prod.split)

text \<open>An id in the request that names a readable event of the author is gone after the first loop.\<close>

lemma delete_ids_gone:
  assumes con: "deletion_contract lib" and req: "dr_pubkey request = lib_bytes_to_hex lib pk"
    and read: "\<forall>i p. env_read (envs i) p"
  shows "store_inv lib (sc_store c) \<Longrightarrow> delete_ids_loop lib envs request ids c n = (n', c') \<Longrightarrow>
    s \<in> set ids \<Longrightarrow> lib_hex_to_bytes lib s 64 32 = Some event_id \<Longrightarrow>
    \<forall>x \<in> set (stored lib (sc_store c)). log_id x = event_id \<longrightarrow> x \<in> authored pk \<Longrightarrow>
    event_id \<notin> log_id ` set (stored lib (sc_store c'))"
proof (induction ids arbitrary: c n)
  case Nil
  then show ?case by simp
next
  case (Cons s0 ids)
  obtain c1 n1 where step: "delete_ids_loop lib envs request [s0] c n = (n1, c1)"
      "delete_ids_loop lib envs request ids c1 n1 = (n', c')"
    using Cons.prems(2) unfolding delete_ids_Cons [of lib envs request s0 ids] by (auto split: prod.splits)
  have sh: "shrinks lib envs (authored pk) c c1" using delete_ids_step [OF con req Cons.prems(1) step(1)] .
  have rest: "shrinks lib envs (authored pk) c1 c'" using delete_ids_step [OF con req shrinks_inv [OF sh] step(2)] .
  show ?case
  proof (cases "s = s0")
    case False
    then have "s \<in> set ids" using Cons.prems(3) by simp
    moreover have "\<forall>x \<in> set (stored lib (sc_store c1)). log_id x = event_id \<longrightarrow> x \<in> authored pk"
      using Cons.prems(5) shrinks_subset [OF sh] by blast
    ultimately show ?thesis using Cons.IH [OF shrinks_inv [OF sh] step(2)] Cons.prems(4) by blast
  next
    case True
    have "event_id \<notin> log_id ` set (stored lib (sc_store c1))"
    proof (cases "event_id \<in> log_id ` set (stored lib (sc_store c))")
      case False
      then show ?thesis using shrinks_subset [OF sh] by blast
    next
      case in_log: True
      then obtain e t where e: "(e, Some t) \<in> set (stored lib (sc_store c))" "ie_event_id e = event_id" "ev_pubkey t = pk"
        using Cons.prems(5) by (auto simp: authored_def)
      obtain g c2 where g: "ctx_get lib envs event_id c = (g, c2)" by force
      have st2: "sc_store c2 = sc_store c" using ctx_get_store [of lib envs event_id c] g by simp
      have "st_inv lib (sc_store c)" "initialized (eng (sc_store c))"
        using Cons.prems(1) by (simp_all add: store_inv_def)
      from get_step [OF this, of "envs (sc_tick c)" event_id t] have "g = Some t"
        using g e read by (auto simp: ctx_get_def)
      moreover have "lib_deletion_authorized lib request t"
        using con req e(3) unfolding deletion_contract_def by simp
      moreover obtain r c3 where d: "ctx_delete lib envs event_id c2 = (r, c3)" by force
      ultimately have "c1 = c3" using step(1) True Cons.prems(4) g by simp
      then show ?thesis
        using engine.del_log [OF Cons.prems(1) ctx_delete_store [OF d, unfolded st2]] by auto
    qed
    then show ?thesis using shrinks_subset [OF rest] by blast
  qed
qed

text \<open>
  A deletion request does remove what its author names: when the event files can
  be read, every well-formed id of the request that belongs to a logged event of the request's
  author is out of the log afterwards.
\<close>

lemma deletion_removes_named:
  assumes "deletion_contract lib" and "store_inv lib (sc_store c)" and "\<forall>i p. env_read (envs i) p"
    and "ev_kind ev = NOSTR_KIND_DELETION" and "lib_deletion_parse lib ev = Some request"
    and "s \<in> set (dr_event_ids request)" and "lib_hex_to_bytes lib s 64 32 = Some event_id"
    and "(e, Some t) \<in> set (stored lib (sc_store c))" and "ie_event_id e = event_id"
    and "ev_pubkey t = ev_pubkey ev" and "deletion_process lib envs ev c = (n, c')"
  shows "event_id \<notin> log_id ` set (stored lib (sc_store c'))"
proof -
  have req: "dr_pubkey request = lib_bytes_to_hex lib (ev_pubkey ev)"
    using assms(1,5) unfolding deletion_contract_def by blast
  obtain n1 c1 where d1: "delete_by_event_ids lib envs request c = (n1, c1)" by force
  obtain n2 c2 where d2: "delete_by_addresses lib envs request (ev_created_at ev) c1 = (n2, c2)" by force
  obtain n3 c3 where d3: "delete_by_kinds lib envs ev c2 = (n3, c3)" by force
  have c': "c' = c3" using assms(4,5,11) d1 d2 d3 by (simp add: deletion_process_def Let_def)
  note d1 = d1 [unfolded delete_by_event_ids_def] and d2 = d2 [unfolded delete_by_addresses_def]
  have s1: "shrinks lib envs (authored (ev_pubkey ev)) c c1"
    using delete_ids_step [OF assms(1) req assms(2) d1] .
  have s2: "shrinks lib envs (authored (ev_pubkey ev)) c1 c2"
    using delete_addresses_step [OF assms(1) req shrinks_inv [OF s1] d2] .
  have s3: "shrinks lib envs (authored (ev_pubkey ev)) c2 c3"
    using d3 delete_kinds_step [OF assms(1) shrinks_inv [OF s2]] shrinks_refl [OF shrinks_inv [OF s2]]
    by (auto simp: delete_by_kinds_def Let_def split: if_splits)
  have "\<forall>x \<in> set (stored lib (sc_store c)). log_id x = event_id \<longrightarrow> x \<in> authored (ev_pubkey ev)"
    using engine.log_unique [OF assms(2) _ assms(8)] assms(9,10) by (fastforce simp: authored_def)
  then have "event_id \<notin> log_id ` set (stored lib (sc_store c1))"
    using delete_ids_gone [OF assms(1) req assms(3,2) d1 assms(6,7)] by blast
  then show ?thesis unfolding c' using shrinks_subset [OF s2] shrinks_subset [OF s3] by blast
qed

text \<open>
  A handler run is a sequence of store calls and allocations; what each of them keeps, every
  run keeps.
\<close>

inductive calls :: "nostr_lib \<Rightarrow> envs \<Rightarrow> store_ctx \<Rightarrow> store_ctx \<Rightarrow> bool" for lib envs where
  no_call: "calls lib envs c c"
| call_get: "ctx_get lib envs i c = (g, c1) \<Longrightarrow> calls lib envs c1 c2 \<Longrightarrow> calls lib envs c c2"
| call_delete: "ctx_delete lib envs i c = (r, c1) \<Longrightarrow> calls lib envs c1 c2 \<Longrightarrow> calls lib envs c c2"
| call_query: "ctx_query lib envs f l c = (q, c1) \<Longrightarrow> calls lib envs c1 c2 \<Longrightarrow> calls lib envs c c2"
| call_malloc: "ctx_malloc c = (b, c1) \<Longrightarrow> calls lib envs c1 c2 \<Longrightarrow> calls lib envs c c2"

lemma calls_trans: "calls lib envs c c' \<Longrightarrow> calls lib envs c' c'' \<Longrightarrow> calls lib envs c c''"
  by (induction rule: calls.induct) (blast intro: calls.intros)+

lemma delete_found_calls: "calls lib envs c (snd (delete_found_loop lib envs sel evs c n))"
  by (induction evs arbitrary: c n) (auto split: prod.split intro: calls.intros)

lemma delete_ids_calls: "calls lib envs c (snd (delete_ids_loop lib envs request ids c n))"
proof (induction ids arbitrary: c n)
  case (Cons s ids)
  show ?case
  proof (cases "lib_hex_to_bytes lib s 64 32")
    case (Some i)
    obtain g c1 where g: "ctx_get lib envs i c = (g, c1)" by force
    obtain r c2 where d: "ctx_delete lib envs i c1 = (r, c2)" by force
    show ?thesis using Some g d Cons by (cases g) (auto intro: call_get [OF g] call_delete [OF d])
  qed (use Cons in simp)
qed (simp add: no_call)

lemma delete_addresses_calls:
  "calls lib envs c (snd (delete_addresses_loop lib envs request before addrs c n))"
proof (induction addrs arbitrary: c n)
  case (Cons addr addrs)
  show ?case
  proof (cases "\<exists>kind d_tag. scan_address addr = Some (kind, dr_pubkey request, d_tag)")
    case False
    with Cons show ?thesis by (auto split: option.splits)
  next
    case True
    then obtain kind d_tag where a: "scan_address addr = Some (kind, dr_pubkey request, d_tag)" by blast
    let ?f = "zero_filter\<lparr>f_kinds := [kind], f_authors := [dr_pubkey request], f_until := before, f_limit := 100\<rparr>"
    obtain b1 c1 where m1: "ctx_malloc c = (b1, c1)" by force
    obtain b2 c2 where m2: "ctx_malloc c1 = (b2, c2)" by force
    obtain r evs c3 where q: "ctx_query lib envs ?f 100 c2 = ((r, evs), c3)" by (metis prod.collapse)
    obtain n1 c4 where d: "(if r = STORAGE_OK then delete_found_loop lib envs (has_d_tag lib d_tag) evs c3 n
        else (n, c3)) = (n1, c4)" by force
    then have "calls lib envs c3 c4"
      using delete_found_calls [of lib envs c3 "has_d_tag lib d_tag" evs n] no_call by (auto split: if_splits)
    then have "calls lib envs c c4"
      by (intro call_malloc [OF m1] call_malloc [OF m2] call_query [OF q])
    moreover have "calls lib envs c c2"
      by (intro call_malloc [OF m1] call_malloc [OF m2] no_call)
    moreover have "delete_addresses_loop lib envs request before (addr # addrs) c n =
        (if \<not> b1 \<or> \<not> b2 then delete_addresses_loop lib envs request before addrs c2 n
         else delete_addresses_loop lib envs request before addrs c4 n1)"
      using a m1 m2 q d by (simp add: Let_def)
    ultimately show ?thesis using Cons calls_trans by (auto split: if_splits)
  qed
qed (simp add: no_call)

lemma delete_kinds_calls: "calls lib envs c (snd (delete_kinds_loop lib envs ev ks c n))"
proof (induction ks arbitrary: c n)
  case (Cons k ks)
  let ?f = "zero_filter\<lparr>f_kinds := [k], f_authors := [lib_bytes_to_hex lib (ev_pubkey ev)],
      f_until := ev_created_at ev, f_limit := 500\<rparr>"
  obtain b c1 where m: "ctx_malloc c = (b, c1)" by force
  obtain r evs c3 where q: "ctx_query lib envs ?f 500 c1 = ((r, evs), c3)" by (metis prod.collapse)
  obtain n1 c4 where d: "(if r = STORAGE_OK then delete_found_loop lib envs (\<lambda>_. True) evs c3 n
      else (n, c3)) = (n1, c4)" by force
  then have "calls lib envs c3 c4"
    using delete_found_calls [of lib envs c3 "\<lambda>_. True" evs n] no_call by (auto split: if_splits)
  then have "calls lib envs c c4" by (intro call_malloc [OF m] call_query [OF q])
  moreover have "calls lib envs c c1" by (intro call_malloc [OF m] no_call)
  moreover have "delete_kinds_loop lib envs ev (k # ks) c n =
      (if \<not> b then delete_kinds_loop lib envs ev ks c1 n else delete_kinds_loop lib envs ev ks c4 n1)"
    using m q d by (simp add: Let_def)
  ultimately show ?case using Cons calls_trans by (auto split: if_splits)
qed (simp add: no_call)

lemma deletion_calls: "calls lib envs c (snd (deletion_process lib envs ev c))"
proof (cases "ev_kind ev = NOSTR_KIND_DELETION \<and> lib_deletion_parse lib ev \<noteq> None")
  case False
  then show ?thesis by (auto simp: deletion_process_def no_call)
next
  case True
  then obtain request where r: "lib_deletion_parse lib ev = Some request" by blast
  obtain n1 c1 where d1: "delete_by_event_ids lib envs request c = (n1, c1)" by force
  obtain n2 c2 where d2: "delete_by_addresses lib envs request (ev_created_at ev) c1 = (n2, c2)" by force
  obtain n3 c3 where d3: "delete_by_kinds lib envs ev c2 = (n3, c3)" by force
  have "calls lib envs c c1"
    using d1 delete_ids_calls [of lib envs c request "dr_event_ids request" 0] by (simp add: delete_by_event_ids_def)
  moreover have "calls lib envs c1 c2"
    using d2 delete_addresses_calls [of lib envs c1 request "ev_created_at ev" "dr_addresses request" 0]
    by (simp add: delete_by_addresses_def)
  moreover have "calls lib envs c2 c3"
    using d3 delete_kinds_calls [of lib envs c2 ev "collect_kinds (ev_tags ev) []" 0] no_call
    by (auto simp: delete_by_kinds_def Let_def split: if_splits)
  ultimately have "calls lib envs c c3" by (blast intro: calls_trans)
  then show ?thesis using True r d1 d2 d3 by (simp add: deletion_process_def)
qed

lemma calls_heap: "calls lib envs c c' \<Longrightarrow> sc_heap c = [] \<Longrightarrow> sc_heap c' = []"
  by (induction rule: calls.induct)
    (auto simp: ctx_get_def ctx_delete_def ctx_query_def ctx_malloc_def split: prod.splits)

lemma calls_next_file:
  "calls lib envs c c' \<Longrightarrow> next_file_index (eng (sc_store c')) = next_file_index (eng (sc_store c))"
  by (induction rule: calls.induct)
    (auto simp: ctx_get_def ctx_delete_def ctx_query_def ctx_malloc_def delete_next_file query_next_file
      split: prod.splits)

lemma ctx_malloc_ok: "sc_heap c = [] \<Longrightarrow> ctx_malloc c = (True, c\<lparr>sc_heap := []\<rparr>)"
  by (simp add: ctx_malloc_def)

lemma kind_query_finds:
  assumes inv: "store_inv lib s" and log: "(e, Some t) \<in> set (stored lib s)" and len: "length (stored lib s) \<le> 500"
    and f: "match_contract lib f t" "times_fit f t" "lib_filter_matches lib f t"
    and env: "env_malloc env" "\<forall>p. env_read env p" "\<not> expired (now_of env) e"
    and q: "storage_query_events lib env f 500 s = ((r, evs), s')"
  shows "r = STORAGE_OK \<and> t \<in> set evs"
proof -
  have I: "st_inv lib s" "hex_lengths lib" "initialized (eng s)"
    using inv by (simp_all add: store_inv_def)
  let ?vs = "List.map_filter (visible lib env f (now_of env)) (rev (stored lib s))"
  have r: "r = STORAGE_OK" "evs = take (capped 500) ?vs" using query_step [OF I q] env(1) by simp_all
  have "length ?vs \<le> 500"
    using len length_map_filter [of "visible lib env f (now_of env)" "rev (stored lib s)"] by simp
  then have "evs = ?vs" using r(2) by (simp add: capped_def)
  moreover have "index_matches_filter lib e f"
    using prefilter_accepts [OF f(3,1) logged_describes [OF I(1) log] f(2)] .
  then have "visible lib env f (now_of env) (e, Some t) = Some t"
    using env f(3) by (simp add: visible_def)
  then have "t \<in> set ?vs" using log by (force simp: set_map_filter)
  ultimately show ?thesis using r(1) by simp
qed

lemma delete_kinds_gone:
  assumes con: "deletion_contract lib"
    and env: "\<forall>i. env_malloc (envs i) \<and> (\<forall>p. env_read (envs i) p) \<and> \<not> expired (now_of (envs i)) e"
    and f: "f = zero_filter\<lparr>f_kinds := [k], f_authors := [lib_bytes_to_hex lib (ev_pubkey ev)],
      f_until := ev_created_at ev, f_limit := 500\<rparr>"
    and t: "match_contract lib f t" "times_fit f t" "lib_filter_matches lib f t"
  shows "store_inv lib (sc_store c) \<Longrightarrow> sc_heap c = [] \<Longrightarrow> length (stored lib (sc_store c)) \<le> 500 \<Longrightarrow>
    k \<in> set ks \<Longrightarrow> delete_kinds_loop lib envs ev ks c n = (n', c') \<Longrightarrow>
    (e, Some t) \<notin> set (stored lib (sc_store c'))"
proof (induction ks arbitrary: c n)
  case Nil
  then show ?case by simp
next
  case (Cons k0 ks)
  let ?f = "zero_filter\<lparr>f_kinds := [k0], f_authors := [lib_bytes_to_hex lib (ev_pubkey ev)],
      f_until := ev_created_at ev, f_limit := 500\<rparr>"
  let ?c = "c\<lparr>sc_heap := []\<rparr>"
  obtain r evs c1 where q: "ctx_query lib envs ?f 500 ?c = ((r, evs), c1)" by (metis prod.collapse)
  obtain n1 c2 where d: "(if r = STORAGE_OK then delete_found_loop lib envs (\<lambda>_. True) evs c1 n
      else (n, c1)) = (n1, c2)" by force
  have inv: "store_inv lib (sc_store ?c)" using Cons.prems(1) by simp
  note qd = query_delete_step [OF con inv _ q d, of "ev_pubkey ev"]
  have sh: "shrinks lib envs (authored (ev_pubkey ev)) ?c c2" using qd(1) by simp
  have loop: "delete_kinds_loop lib envs ev ks c2 n1 = (n', c')"
    using Cons.prems(2,5) q d by (simp add: ctx_malloc_ok Let_def)
  have rest: "shrinks lib envs (authored (ev_pubkey ev)) c2 c'"
    using delete_kinds_step [OF con shrinks_inv [OF sh] loop] .
  have sub: "set (stored lib (sc_store c2)) \<subseteq> set (stored lib (sc_store c))"
    using shrinks_subset [OF sh] by simp
  show ?case
  proof (cases "k = k0 \<and> (e, Some t) \<in> set (stored lib (sc_store c))")
    case True
    then have ff: "?f = f" using f by simp
    have "r = STORAGE_OK \<and> t \<in> set evs"
      using kind_query_finds [OF inv _ _ t _ _ _ ctx_query_store [OF q [unfolded ff]], of e] True env Cons.prems(3)
      by simp
    then have gone: "ev_id t \<notin> log_id ` set (stored lib (sc_store c2))" using qd(2) by simp
    have "(e, Some t) \<notin> set (stored lib (sc_store c2))"
      using gone engine.logged_id [OF shrinks_inv [OF sh]] by force
    then show ?thesis using shrinks_subset [OF rest] by blast
  next
    case False
    show ?thesis
    proof (cases "(e, Some t) \<in> set (stored lib (sc_store c))")
      case no: False
      then show ?thesis using sub shrinks_subset [OF rest] by blast
    next
      case True
      with False Cons.prems(4) have ks: "k \<in> set ks" by simp
      have heap: "sc_heap c2 = []"
      proof -
        have "calls lib envs c1 c2"
          using d delete_found_calls [of lib envs c1 "\<lambda>_. True" evs n] no_call by (auto split: if_splits)
        then have "calls lib envs ?c c2" by (rule call_query [OF q])
        then show ?thesis using calls_heap [of lib envs ?c c2] by simp
      qed
      have len: "length (stored lib (sc_store c2)) \<le> 500"
        using shrinks_length [OF sh] Cons.prems(3) by simp
      from Cons.IH [OF shrinks_inv [OF sh] heap len ks loop] show ?thesis .
    qed
  qed
qed

text \<open>
  A \<open>k\<close> tag of a deletion request is an order to delete, not a hint: when
  nothing fails and the store holds at most 500 events, a request with a \<open>k\<close> tag removes
  every unexpired event of its author that the library matches for that kind up to the time of
  the request, whether or not the request names the event by id or address.
\<close>

lemma kind_tag_removes_all:
  assumes "deletion_contract lib" and "store_inv lib (sc_store c)" and "sc_heap c = []"
    and "length (stored lib (sc_store c)) \<le> 500"
    and "ev_kind ev = NOSTR_KIND_DELETION" and "lib_deletion_parse lib ev = Some request"
    and "k \<in> set (collect_kinds (ev_tags ev) [])"
    and "\<forall>i. env_malloc (envs i) \<and> (\<forall>p. env_read (envs i) p) \<and> \<not> expired (now_of (envs i)) e"
    and "f = zero_filter\<lparr>f_kinds := [k], f_authors := [lib_bytes_to_hex lib (ev_pubkey ev)],
      f_until := ev_created_at ev, f_limit := 500\<rparr>"
    and "match_contract lib f t" and "times_fit f t" and "lib_filter_matches lib f t"
    and "deletion_process lib envs ev c = (n, c')"
  shows "(e, Some t) \<notin> set (stored lib (sc_store c'))"
proof -
  have req: "dr_pubkey request = lib_bytes_to_hex lib (ev_pubkey ev)"
    using assms(1,6) unfolding deletion_contract_def by blast
  obtain n1 c1 where d1: "delete_by_event_ids lib envs request c = (n1, c1)" by force
  obtain n2 c2 where d2: "delete_by_addresses lib envs request (ev_created_at ev) c1 = (n2, c2)" by force
  obtain n3 c3 where d3: "delete_by_kinds lib envs ev c2 = (n3, c3)" by force
  have c': "c' = c3" using assms(5,6,13) d1 d2 d3 by (simp add: deletion_process_def Let_def)
  note d1 = d1 [unfolded delete_by_event_ids_def] and d2 = d2 [unfolded delete_by_addresses_def]
  have s1: "shrinks lib envs (authored (ev_pubkey ev)) c c1"
    using delete_ids_step [OF assms(1) req assms(2) d1] .
  have s2: "shrinks lib envs (authored (ev_pubkey ev)) c1 c2"
    using delete_addresses_step [OF assms(1) req shrinks_inv [OF s1] d2] .
  have "calls lib envs c c2"
    using delete_ids_calls [of lib envs c request "dr_event_ids request" 0] d1 d2
      delete_addresses_calls [of lib envs c1 request "ev_created_at ev" "dr_addresses request" 0] calls_trans by simp
  then have heap: "sc_heap c2 = []" using calls_heap assms(3) by blast
  have len: "length (stored lib (sc_store c2)) \<le> 500"
    using shrinks_length [OF s1] shrinks_length [OF s2] assms(4) by simp
  have loop: "delete_kinds_loop lib envs ev (collect_kinds (ev_tags ev) []) c2 0 = (n3, c3)"
    using d3 assms(7) by (auto simp: delete_by_kinds_def Let_def split: if_splits)
  show ?thesis unfolding c'
    using delete_kinds_gone [OF assms(1,8-12) shrinks_inv [OF s2] heap len assms(7) loop] .
qed

text \<open>The request below names nothing; its \<open>k\<close> tag removes a note.\<close>

end
