(* ===== verification/Validator.thy ===== *)
theory Validator
  imports Nostr_Interface
begin

text \<open>
  Event validation (\<open>main/validator.c\<close>, \<open>main/validator.h\<close>).  Schema, id, signature and
  times are checked by libnostr-c; the relay adds the age limit and the proof-of-work limit
  and translates the results.  The two arguments \<open>now_lib\<close> and \<open>now\<close> are the clock
  readings of the library and of \<open>check_event_age\<close>.
\<close>

section \<open>Data\<close>

datatype validation_result =
    VALIDATION_OK
  | VALIDATION_ERR_SCHEMA
  | VALIDATION_ERR_ID
  | VALIDATION_ERR_SIG
  | VALIDATION_ERR_EXPIRED
  | VALIDATION_ERR_FUTURE
  | VALIDATION_ERR_DUPLICATE
  | VALIDATION_ERR_POW
  | VALIDATION_ERR_BLOCKED
  | VALIDATION_ERR_TOO_OLD

record validator_config =
  vc_max_event_age_sec :: u32
  vc_max_future_sec :: int
  vc_min_pow_difficulty :: u8
  vc_check_duplicates :: bool

section \<open>Checks\<close>

fun map_relay_error :: "nostr_relay_error \<Rightarrow> validation_result" where
  "map_relay_error NOSTR_RELAY_OK = VALIDATION_OK"
| "map_relay_error NOSTR_RELAY_ERR_MISSING_FIELD = VALIDATION_ERR_SCHEMA"
| "map_relay_error NOSTR_RELAY_ERR_INVALID_ID = VALIDATION_ERR_SCHEMA"
| "map_relay_error NOSTR_RELAY_ERR_INVALID_PUBKEY = VALIDATION_ERR_SCHEMA"
| "map_relay_error NOSTR_RELAY_ERR_INVALID_CREATED_AT = VALIDATION_ERR_SCHEMA"
| "map_relay_error NOSTR_RELAY_ERR_INVALID_KIND = VALIDATION_ERR_SCHEMA"
| "map_relay_error NOSTR_RELAY_ERR_INVALID_TAGS = VALIDATION_ERR_SCHEMA"
| "map_relay_error NOSTR_RELAY_ERR_INVALID_CONTENT = VALIDATION_ERR_SCHEMA"
| "map_relay_error NOSTR_RELAY_ERR_ID_MISMATCH = VALIDATION_ERR_ID"
| "map_relay_error NOSTR_RELAY_ERR_SIG_MISMATCH = VALIDATION_ERR_SIG"
| "map_relay_error NOSTR_RELAY_ERR_INVALID_SIG = VALIDATION_ERR_SIG"
| "map_relay_error NOSTR_RELAY_ERR_FUTURE_EVENT = VALIDATION_ERR_FUTURE"
| "map_relay_error NOSTR_RELAY_ERR_EXPIRED_EVENT = VALIDATION_ERR_EXPIRED"
| "map_relay_error _ = VALIDATION_ERR_SCHEMA"

text \<open>The age is a signed 64-bit difference; the limit is widened to it.\<close>

definition check_event_age :: "int \<Rightarrow> nostr_event \<Rightarrow> u32 \<Rightarrow> validation_result" where
  "check_event_age now ev max_age_sec =
     (if max_age_sec = 0 then VALIDATION_OK
      else
        let age = now - ev_created_at ev
        in if uint max_age_sec < age then VALIDATION_ERR_TOO_OLD else VALIDATION_OK)"

definition validator_check_pow :: "nostr_lib \<Rightarrow> nostr_event \<Rightarrow> u8 \<Rightarrow> validation_result" where
  "validator_check_pow lib ev min_difficulty =
     (if min_difficulty = 0 then VALIDATION_OK
      else
        let difficulty = lib_nip13_calculate_difficulty lib (ev_id ev)
        in if difficulty < uint min_difficulty then VALIDATION_ERR_POW else VALIDATION_OK)"

text \<open>The duplicate check answers the same with and without a store.\<close>

definition check_duplicate :: "bool \<Rightarrow> validation_result" where
  "check_duplicate has_storage = (if \<not> has_storage then VALIDATION_OK else VALIDATION_OK)"

definition validator_check_event ::
    "nostr_lib \<Rightarrow> int \<Rightarrow> int \<Rightarrow> nostr_event \<Rightarrow> validator_config \<Rightarrow> bool \<Rightarrow> validation_result" where
  "validator_check_event lib now_lib now ev config has_storage =
     (let err = lib_event_validate_full lib ev (vc_max_future_sec config) now_lib in
      if err \<noteq> NOSTR_RELAY_OK then map_relay_error err
      else
        let result = check_event_age now ev (vc_max_event_age_sec config) in
        if result \<noteq> VALIDATION_OK then result
        else
          let result = validator_check_pow lib ev (vc_min_pow_difficulty config) in
          if result \<noteq> VALIDATION_OK then result
          else if vc_check_duplicates config \<and> \<not> lib_kind_is_ephemeral lib (ev_kind ev)
          then
            let result = check_duplicate has_storage in
            if result \<noteq> VALIDATION_OK then result else VALIDATION_OK
          else VALIDATION_OK)"

section \<open>Translations of the result\<close>

fun validator_result_string :: "validation_result \<Rightarrow> string" where
  "validator_result_string VALIDATION_OK = ''ok''"
| "validator_result_string VALIDATION_ERR_SCHEMA = ''invalid: missing or malformed fields''"
| "validator_result_string VALIDATION_ERR_ID = ''invalid: event id does not match''"
| "validator_result_string VALIDATION_ERR_SIG = ''invalid: signature verification failed''"
| "validator_result_string VALIDATION_ERR_EXPIRED = ''invalid: event has expired''"
| "validator_result_string VALIDATION_ERR_FUTURE = ''invalid: created_at too far in future''"
| "validator_result_string VALIDATION_ERR_DUPLICATE = ''duplicate: event already exists''"
| "validator_result_string VALIDATION_ERR_POW = ''pow: insufficient proof of work''"
| "validator_result_string VALIDATION_ERR_BLOCKED = ''blocked: policy violation''"
| "validator_result_string VALIDATION_ERR_TOO_OLD = ''invalid: event too old''"

fun validator_result_prefix :: "nostr_lib \<Rightarrow> validation_result \<Rightarrow> string" where
  "validator_result_prefix lib VALIDATION_OK = ''''"
| "validator_result_prefix lib VALIDATION_ERR_DUPLICATE = lib_PREFIX_DUPLICATE lib"
| "validator_result_prefix lib VALIDATION_ERR_POW = lib_PREFIX_POW lib"
| "validator_result_prefix lib VALIDATION_ERR_BLOCKED = lib_PREFIX_BLOCKED lib"
| "validator_result_prefix lib _ = lib_PREFIX_INVALID lib"

fun validator_result_to_relay_error :: "validation_result \<Rightarrow> nostr_relay_error" where
  "validator_result_to_relay_error VALIDATION_OK = NOSTR_RELAY_OK"
| "validator_result_to_relay_error VALIDATION_ERR_SIG = NOSTR_RELAY_ERR_SIG_MISMATCH"
| "validator_result_to_relay_error VALIDATION_ERR_ID = NOSTR_RELAY_ERR_ID_MISMATCH"
| "validator_result_to_relay_error VALIDATION_ERR_FUTURE = NOSTR_RELAY_ERR_FUTURE_EVENT"
| "validator_result_to_relay_error VALIDATION_ERR_EXPIRED = NOSTR_RELAY_ERR_EXPIRED_EVENT"
| "validator_result_to_relay_error VALIDATION_ERR_TOO_OLD = NOSTR_RELAY_ERR_EXPIRED_EVENT"
| "validator_result_to_relay_error _ = NOSTR_RELAY_ERR_INVALID_JSON"

section \<open>Lemmas\<close>

lemma map_relay_error_ok: "map_relay_error e = VALIDATION_OK \<longleftrightarrow> e = NOSTR_RELAY_OK"
  by (cases e) simp_all

lemma relay_error_ok: "validator_result_to_relay_error r = NOSTR_RELAY_OK \<longleftrightarrow> r = VALIDATION_OK"
  by (cases r) simp_all

lemma check_duplicate_ok [simp]: "check_duplicate b = VALIDATION_OK"
  by (simp add: check_duplicate_def)

text \<open>What an event must satisfy.\<close>

definition acceptable :: "nostr_lib \<Rightarrow> int \<Rightarrow> int \<Rightarrow> nostr_event \<Rightarrow> validator_config \<Rightarrow> bool" where
  "acceptable lib now_lib now ev config \<longleftrightarrow>
     lib_event_validate_full lib ev (vc_max_future_sec config) now_lib = NOSTR_RELAY_OK \<and>
     (vc_max_event_age_sec config = 0 \<or> now - ev_created_at ev \<le> uint (vc_max_event_age_sec config)) \<and>
     (vc_min_pow_difficulty config = 0 \<or>
        uint (vc_min_pow_difficulty config) \<le> lib_nip13_calculate_difficulty lib (ev_id ev))"

lemma check_ok_iff:
  "validator_check_event lib now_lib now ev config st = VALIDATION_OK \<longleftrightarrow> acceptable lib now_lib now ev config"
  by (auto simp: validator_check_event_def acceptable_def Let_def map_relay_error_ok check_event_age_def
        validator_check_pow_def not_less)

text \<open>The first failing check decides the answer.\<close>

lemma check_result:
  "validator_check_event lib now_lib now ev config st =
     (let err = lib_event_validate_full lib ev (vc_max_future_sec config) now_lib in
      if err \<noteq> NOSTR_RELAY_OK then map_relay_error err
      else if vc_max_event_age_sec config \<noteq> 0 \<and> uint (vc_max_event_age_sec config) < now - ev_created_at ev
      then VALIDATION_ERR_TOO_OLD
      else if vc_min_pow_difficulty config \<noteq> 0 \<and>
          lib_nip13_calculate_difficulty lib (ev_id ev) < uint (vc_min_pow_difficulty config)
      then VALIDATION_ERR_POW else VALIDATION_OK)"
  by (auto simp: validator_check_event_def Let_def check_event_age_def validator_check_pow_def)

section \<open>Properties\<close>

text \<open>
  Property C35. Validation accepts exactly the events that the library accepts, that are no older
  than the age limit (when there is one) and that carry the required work (when any is
  required); it never reports a duplicate, whatever the duplicate option says; and the code the
  router gets is OK exactly for an accepted event, so that no rejected event is confirmed.
\<close>

theorem validation_exact:
  "let r = validator_check_event lib now_lib now ev config has_storage in
    (r = VALIDATION_OK \<longleftrightarrow> acceptable lib now_lib now ev config) \<and>
    r \<noteq> VALIDATION_ERR_DUPLICATE \<and> r \<noteq> VALIDATION_ERR_BLOCKED \<and>
    (validator_result_to_relay_error r = NOSTR_RELAY_OK \<longleftrightarrow> r = VALIDATION_OK)"
proof -
  have "map_relay_error e \<noteq> VALIDATION_ERR_DUPLICATE \<and> map_relay_error e \<noteq> VALIDATION_ERR_BLOCKED" for e
    by (cases e) simp_all
  then have "validator_check_event lib now_lib now ev config has_storage \<noteq> VALIDATION_ERR_DUPLICATE \<and>
      validator_check_event lib now_lib now ev config has_storage \<noteq> VALIDATION_ERR_BLOCKED"
    unfolding check_result Let_def by simp
  then show ?thesis by (simp add: check_ok_iff relay_error_ok Let_def)
qed

end
