(* ===== verification/Ws_Server.thy ===== *)
theory Ws_Server
  imports Nostr_Interface
begin

text \<open>
  The WebSocket server (\<open>main/ws_server.c\<close>, \<open>main/ws_server.h\<close>) and the NIP-11 handlers
  it delegates to (\<open>main/nip11.c\<close>).  The state is the connection table, the static variables
  of the file and the frames handed to the HTTP server so far; the HTTP server itself, sockets
  and timers are the environment.  A callback registered by the relay is an argument that works
  on the relay's own state next to this one.
\<close>

section \<open>State\<close>

definition WS_MAX_CONNECTIONS :: nat where "WS_MAX_CONNECTIONS = 8"
definition WS_MAX_FRAME_SIZE :: nat where "WS_MAX_FRAME_SIZE = 65536"

record ws_connection =
  wc_fd :: int
  wc_active :: bool
  wc_connected_at :: u32
  wc_last_activity :: u32
  wc_remote_ip :: string

text \<open>\<open>ws_httpd\<close> says whether the server handle is set, \<open>ws_lock\<close> whether the mutex is.\<close>

record ws_server =
  ws_httpd :: bool
  connections :: "ws_connection list"
  ws_lock :: bool
  connection_count :: u8

datatype frame_type = WS_TEXT | WS_PING | WS_PONG | WS_CLOSE | WS_OTHER

datatype ws_out =
    Out_Frame int frame_type string \<comment> \<open>sent on the request being handled\<close>
  | Out_Queued int string \<comment> \<open>queued for \<open>ws_async_send\<close>\<close>
  | Out_Async int string \<comment> \<open>sent by \<open>ws_async_send\<close>\<close>
  | Out_Http "(string \<times> string) list" "string option" \<comment> \<open>HTTP response: headers, body\<close>
  | Out_Trigger_Close int

text \<open>
  The struct, the static variables (\<open>g_server\<close>, the callbacks and \<open>g_current_req\<close>, of which
  the socket is what matters), the queue of the HTTP server, and the output so far, latest last.
\<close>

record ws_state =
  ws :: ws_server
  g_server :: bool
  g_message_callback :: bool
  g_disconnect_callback :: bool
  g_current_req :: "int option"
  ws_queue :: "(int \<times> string) list"
  outbox :: "ws_out list"
  send_tick :: nat

definition zero_connection :: ws_connection where
  "zero_connection = \<lparr>wc_fd = 0, wc_active = False, wc_connected_at = 0, wc_last_activity = 0,
     wc_remote_ip = []\<rparr>"

definition emit :: "ws_out \<Rightarrow> ws_state \<Rightarrow> ws_state" where
  "emit out st = st\<lparr>outbox := outbox st @ [out]\<rparr>"

definition ws_seconds :: "int \<Rightarrow> u32" where
  "ws_seconds us = word_of_int (us sdiv 1000000)"

section \<open>The connection table\<close>

definition ws_find_free_slot :: "ws_server \<Rightarrow> nat option" where
  "ws_find_free_slot srv = find_slot (\<lambda>c. \<not> wc_active c) (connections srv)"

definition find_connection_by_fd :: "ws_server \<Rightarrow> int \<Rightarrow> nat option" where
  "find_connection_by_fd srv fd = find_slot (\<lambda>c. wc_active c \<and> wc_fd c = fd) (connections srv)"

definition set_connection :: "nat \<Rightarrow> ws_connection \<Rightarrow> ws_server \<Rightarrow> ws_server" where
  "set_connection i c srv = srv\<lparr>connections := (connections srv)[i := c]\<rparr>"

definition update_connection_activity :: "int \<Rightarrow> int \<Rightarrow> ws_server \<Rightarrow> ws_server" where
  "update_connection_activity us fd srv =
     (case find_connection_by_fd srv fd of
        None \<Rightarrow> srv
      | Some i \<Rightarrow> set_connection i ((connections srv ! i)\<lparr>wc_last_activity := ws_seconds us\<rparr>) srv)"

text \<open>The buffer for the address has 46 bytes (\<open>INET6_ADDRSTRLEN\<close>).\<close>

definition set_unknown_ip :: "nat \<Rightarrow> string \<Rightarrow> string" where
  "set_unknown_ip buf_len ip_buf = (if buf_len = 0 then ip_buf else strncpy_z ''unknown'' (buf_len - 1))"

text \<open>
  \<open>peer\<close> is the printed peer address, or none when \<open>getpeername\<close> fails, the family is
  unknown or \<open>inet_ntop\<close> fails.
\<close>

definition get_client_ip :: "string option \<Rightarrow> nat \<Rightarrow> string \<Rightarrow> string" where
  "get_client_ip peer buf_len ip_buf =
     (if buf_len = 0 then ip_buf
      else case peer of None \<Rightarrow> set_unknown_ip buf_len ip_buf | Some ip \<Rightarrow> ip)"

definition on_open :: "int \<Rightarrow> string option \<Rightarrow> int \<Rightarrow> ws_state \<Rightarrow> esp_err \<times> ws_state" where
  "on_open us peer sockfd st =
     (if \<not> g_server st then (ESP_FAIL, st)
      else
        let srv = ws st in
        if of_nat WS_MAX_CONNECTIONS \<le> connection_count srv then (ESP_FAIL, st)
        else case ws_find_free_slot srv of
            None \<Rightarrow> (ESP_FAIL, st)
          | Some i \<Rightarrow>
              let old = connections srv ! i;
                  c = old\<lparr>wc_fd := sockfd, wc_active := True, wc_connected_at := ws_seconds us,
                        wc_last_activity := ws_seconds us,
                        wc_remote_ip := get_client_ip peer 46 (wc_remote_ip old)\<rparr>;
                  srv = set_connection i c srv
              in (ESP_OK, st\<lparr>ws := srv\<lparr>connection_count := connection_count srv + 1\<rparr>\<rparr>))"

text \<open>The disconnect callback runs before the slot is released.\<close>

definition on_close :: "(int \<Rightarrow> 's \<Rightarrow> 's) \<Rightarrow> int \<Rightarrow> ws_state \<times> 's \<Rightarrow> ws_state \<times> 's" where
  "on_close disconnect sockfd st_r =
     (let (st, r) = st_r in
      if \<not> g_server st then (st, r)
      else
        let r = (if g_disconnect_callback st then disconnect sockfd r else r) in
        case find_connection_by_fd (ws st) sockfd of
          None \<Rightarrow> (st, r)
        | Some i \<Rightarrow>
            let srv = set_connection i zero_connection (ws st)
            in (st\<lparr>ws := srv\<lparr>connection_count := connection_count srv - 1\<rparr>\<rparr>, r))"

definition ws_server_set_disconnect_cb :: "ws_state \<Rightarrow> ws_state" where
  "ws_server_set_disconnect_cb st = st\<lparr>g_disconnect_callback := True\<rparr>"

section \<open>Sending\<close>

text \<open>The outcomes of the calls one send makes.\<close>

record send_env =
  sd_buf :: bool
  sd_sync :: esp_err
  sd_arg :: bool
  sd_data :: bool
  sd_queue :: esp_err

type_synonym send_envs = "nat \<Rightarrow> send_env"

definition good_send :: send_env where
  "good_send = \<lparr>sd_buf = True, sd_sync = ESP_OK, sd_arg = True, sd_data = True, sd_queue = ESP_OK\<rparr>"

text \<open>
  A frame counts as sent when it is handed to the HTTP server; on the connection whose request is
  being handled at once, on any other through the work queue.
\<close>

definition ws_server_send :: "send_env \<Rightarrow> int \<Rightarrow> string \<Rightarrow> ws_state \<Rightarrow> esp_err \<times> ws_state" where
  "ws_server_send env fd data st =
     (if \<not> ws_httpd (ws st) then (ESP_ERR_INVALID_STATE, st)
      else if g_current_req st = Some fd then (sd_sync env, emit (Out_Frame fd WS_TEXT data) st)
      else if \<not> sd_arg env then (ESP_ERR_NO_MEM, st)
      else if \<not> sd_data env then (ESP_ERR_NO_MEM, st)
      else if sd_queue env \<noteq> ESP_OK then (sd_queue env, st)
      else (ESP_OK, emit (Out_Queued fd data) (st\<lparr>ws_queue := ws_queue st @ [(fd, data)]\<rparr>)))"

text \<open>The HTTP server runs the first queued work item.\<close>

definition ws_async_send :: "ws_state \<Rightarrow> ws_state" where
  "ws_async_send st =
     (case ws_queue st of
        [] \<Rightarrow> st
      | (fd, data) # rest \<Rightarrow> emit (Out_Async fd data) (st\<lparr>ws_queue := rest\<rparr>))"

text \<open>A send that takes the next outcome of a sequence.\<close>

definition send_next :: "send_envs \<Rightarrow> int \<Rightarrow> string \<Rightarrow> ws_state \<Rightarrow> esp_err \<times> ws_state" where
  "send_next envs fd data st =
     ws_server_send (envs (send_tick st)) fd data (st\<lparr>send_tick := send_tick st + 1\<rparr>)"

fun broadcast_loop :: "send_envs \<Rightarrow> string \<Rightarrow> ws_connection list \<Rightarrow> ws_state \<Rightarrow> ws_state" where
  "broadcast_loop envs data [] st = st"
| "broadcast_loop envs data (c # cs) st =
     (if wc_active c then broadcast_loop envs data cs (snd (send_next envs (wc_fd c) data st))
      else broadcast_loop envs data cs st)"

definition ws_server_broadcast :: "send_envs \<Rightarrow> string \<Rightarrow> ws_state \<Rightarrow> esp_err \<times> ws_state" where
  "ws_server_broadcast envs data st = (ESP_OK, broadcast_loop envs data (connections (ws st)) st)"

definition ws_server_close_connection :: "int \<Rightarrow> ws_state \<Rightarrow> ws_state" where
  "ws_server_close_connection fd st =
     (if \<not> ws_httpd (ws st) then st else emit (Out_Trigger_Close fd) st)"

section \<open>Starting and stopping\<close>

definition cleanup_server_init :: "bool \<Rightarrow> ws_state \<Rightarrow> ws_state" where
  "cleanup_server_init stop_httpd st =
     (let srv = ws st;
          srv = (if stop_httpd \<and> ws_httpd srv then srv\<lparr>ws_httpd := False\<rparr> else srv);
          srv = (if ws_lock srv then srv\<lparr>ws_lock := False\<rparr> else srv)
      in st\<lparr>g_server := False, g_message_callback := False, ws := srv\<rparr>)"

record start_env =
  st_mutex :: bool
  st_start :: esp_err
  st_register_ws :: esp_err
  st_register_options :: esp_err

text \<open>
  A failed \<open>httpd_start\<close> leaves the handle NULL.  The configuration of the HTTP server (at
  most \<open>WS_MAX_CONNECTIONS\<close> sockets) is part of the environment.
\<close>

definition ws_server_init :: "start_env \<Rightarrow> ws_state \<Rightarrow> esp_err \<times> ws_state" where
  "ws_server_init env st =
     (if ws_httpd (ws st) then (ESP_ERR_INVALID_STATE, st)
      else
        let srv = \<lparr>ws_httpd = False, connections = replicate WS_MAX_CONNECTIONS zero_connection,
                   ws_lock = st_mutex env, connection_count = 0\<rparr>;
            st = st\<lparr>ws := srv\<rparr> in
        if \<not> ws_lock srv then (ESP_ERR_NO_MEM, st)
        else
          let st = st\<lparr>g_server := True, g_message_callback := True\<rparr> in
          if st_start env \<noteq> ESP_OK then (st_start env, cleanup_server_init False st)
          else
            let st = st\<lparr>ws := (ws st)\<lparr>ws_httpd := True\<rparr>\<rparr> in
            if st_register_ws env \<noteq> ESP_OK then (st_register_ws env, cleanup_server_init True st)
            else (ESP_OK, st))"

definition ws_server_stop :: "ws_state \<Rightarrow> ws_state" where
  "ws_server_stop st =
     st\<lparr>g_server := False, g_message_callback := False, g_disconnect_callback := False,
        ws := \<lparr>ws_httpd = False, connections = replicate WS_MAX_CONNECTIONS zero_connection,
               ws_lock = False, connection_count = 0\<rparr>\<rparr>"

definition ws_server_is_running :: "ws_state \<Rightarrow> bool" where
  "ws_server_is_running st = ws_httpd (ws st)"

section \<open>The relay information document (NIP-11)\<close>

definition NIP11_JSON :: string where
  "NIP11_JSON =
     ''{\"name\":\"wisp-esp32\",\"description\":\"Minimal Nostr relay with 21-day TTL\",'' @
     ''\"pubkey\":\"\",\"contact\":\"\",\"supported_nips\":[1,9,11,20,40],'' @
     ''\"software\":\"https://github.com/privkeyio/wisp-esp32\",\"version\":\"0.1.0\",'' @
     ''\"limitation\":{\"max_message_length\":65536,\"max_subscriptions\":8,\"max_filters\":4,'' @
     ''\"max_limit\":500,\"max_subid_length\":64,\"max_event_tags\":100,\"max_content_length\":32768,'' @
     ''\"min_pow_difficulty\":0,\"auth_required\":false,\"payment_required\":false},'' @
     ''\"retention\":[{\"kinds\":[0,1,2,3,4,5,6,7],\"time\":1814400}],\"relay_countries\":[]}''"

text \<open>\<open>strstr (s, pat) != NULL\<close>\<close>

definition contains :: "string \<Rightarrow> string \<Rightarrow> bool" where
  "contains s pat \<longleftrightarrow> list_ex (\<lambda>n. take (length pat) (drop n s) = pat) [0 ..< Suc (length s)]"

definition cors_headers :: "(string \<times> string) list" where
  "cors_headers = [(''Access-Control-Allow-Origin'', ''*''),
     (''Access-Control-Allow-Headers'', ''Content-Type, Accept''),
     (''Access-Control-Allow-Methods'', ''GET, OPTIONS'')]"

text \<open>\<open>accept\<close> is what the 64-byte buffer holds after the header was read.\<close>

definition nip11_handler :: "string \<Rightarrow> ws_state \<Rightarrow> ws_state" where
  "nip11_handler accept st =
     emit (Out_Http
       ((''Content-Type'', if contains accept ''application/nostr+json'' then ''application/nostr+json''
                         else ''application/json'') # cors_headers)
       (Some NIP11_JSON)) st"

definition nip11_options_handler :: "ws_state \<Rightarrow> ws_state" where
  "nip11_options_handler st = emit (Out_Http (cors_headers @ [(''Status'', ''204 No Content'')]) None) st"

section \<open>Requests\<close>

text \<open>
  A request as the handler sees it: the outcome of each call it may make.  \<open>rq_upgrade\<close> is
  the Upgrade header if it was read into the 16-byte buffer; the length of the frame is the
  length of \<open>rq_payload\<close>.
\<close>

record ws_request =
  rq_fd :: int
  rq_time :: int
  rq_get :: bool
  rq_upgrade :: "string option"
  rq_accept :: string
  rq_http :: esp_err
  rq_head :: esp_err
  rq_malloc :: bool
  rq_body :: esp_err
  rq_type :: frame_type
  rq_payload :: string
  rq_pong :: esp_err

definition to_lower :: "char \<Rightarrow> char" where
  "to_lower c = (let n = of_char c :: nat in if 65 \<le> n \<and> n \<le> 90 then char_of (n + 32) else c)"

definition strcasecmp_eq :: "string \<Rightarrow> string \<Rightarrow> bool" where
  "strcasecmp_eq s t \<longleftrightarrow> map to_lower s = map to_lower t"

definition ws_handler ::
    "(int \<Rightarrow> string \<Rightarrow> ws_state \<times> 's \<Rightarrow> ws_state \<times> 's) \<Rightarrow> ws_request \<Rightarrow> ws_state \<times> 's \<Rightarrow>
     esp_err \<times> (ws_state \<times> 's)" where
  "ws_handler on_message req st_r =
     (let (st, r) = st_r in
      if rq_get req then
        if (case rq_upgrade req of None \<Rightarrow> True | Some u \<Rightarrow> \<not> strcasecmp_eq u ''websocket'')
        then (rq_http req, (nip11_handler (rq_accept req) st, r))
        else (ESP_OK, (st, r))
      else if rq_head req \<noteq> ESP_OK then (rq_head req, (st, r))
      else if length (rq_payload req) = 0 then (ESP_OK, (st, r))
      else if WS_MAX_FRAME_SIZE < length (rq_payload req) then (ESP_FAIL, (st, r))
      else if \<not> rq_malloc req then (ESP_ERR_NO_MEM, (st, r))
      else if rq_body req \<noteq> ESP_OK then (rq_body req, (st, r))
      else
        let fd = rq_fd req;
            st = (if g_server st then st\<lparr>ws := update_connection_activity (rq_time req) fd (ws st)\<rparr> else st) in
        case rq_type req of
          WS_TEXT \<Rightarrow>
            if g_message_callback st then
              let (st, r) = on_message fd (rq_payload req) (st\<lparr>g_current_req := Some fd\<rparr>, r)
              in (ESP_OK, (st\<lparr>g_current_req := None\<rparr>, r))
            else (ESP_OK, (st, r))
        | WS_PING \<Rightarrow>
            if rq_pong req \<noteq> ESP_OK then (rq_pong req, (st, r))
            else (ESP_OK, (emit (Out_Frame fd WS_PONG (rq_payload req)) st, r))
        | WS_CLOSE \<Rightarrow> (ESP_FAIL, (emit (Out_Frame fd WS_CLOSE '''') st, r))
        | _ \<Rightarrow> (ESP_OK, (st, r)))"

section \<open>The table of connections\<close>

interpretation conn_table: slot_table wc_active wc_fd zero_connection
  by unfold_locales (simp add: zero_connection_def)

definition ws_view :: "ws_server \<Rightarrow> int \<Rightarrow> ws_connection option" where
  "ws_view srv = slot_map wc_active wc_fd (connections srv)"

definition ws_inv :: "ws_server \<Rightarrow> bool" where
  "ws_inv srv \<longleftrightarrow> length (connections srv) = WS_MAX_CONNECTIONS \<and>
     slots_distinct wc_active wc_fd (connections srv) \<and>
     unat (connection_count srv) = count_slots wc_active (connections srv)"

abbreviation open_fds :: "ws_server \<Rightarrow> int set" where
  "open_fds srv \<equiv> dom (ws_view srv)"

lemma open_fds_card: "ws_inv srv \<Longrightarrow> card (open_fds srv) = unat (connection_count srv)"
  by (simp add: ws_inv_def ws_view_def conn_table.card_dom)

lemma open_fds_max: "ws_inv srv \<Longrightarrow> card (open_fds srv) \<le> 8"
  using count_slots_le [of wc_active "connections srv"]
  by (simp add: open_fds_card ws_inv_def WS_MAX_CONNECTIONS_def)

lemma open_fds_finite: "finite (open_fds srv)"
  by (simp add: ws_view_def conn_table.finite_dom)

lemma count_u8:
  assumes "ws_inv srv"
  shows "unat (connection_count srv) \<le> 8"
  using assms count_slots_le [of wc_active "connections srv"] by (simp add: ws_inv_def WS_MAX_CONNECTIONS_def)

lemma free_slot:
  assumes "ws_inv srv"
  shows "ws_find_free_slot srv = None \<longleftrightarrow> of_nat WS_MAX_CONNECTIONS \<le> connection_count srv"
proof -
  have "ws_find_free_slot srv = None \<longleftrightarrow> \<not> count_slots wc_active (connections srv) < length (connections srv)"
    by (auto simp: ws_find_free_slot_def find_slot_None count_slots_full)
  then show ?thesis
    using assms by (simp add: ws_inv_def WS_MAX_CONNECTIONS_def word_le_nat_alt not_less)
qed

text \<open>The HTTP server reports a socket as opened only while it is not open.\<close>

lemma on_open_step:
  assumes inv: "ws_inv (ws st)" and new: "sockfd \<notin> open_fds (ws st)"
    and opn: "on_open us peer sockfd st = (r, st')"
  shows "ws_inv (ws st') \<and>
    (if r = ESP_OK
     then open_fds (ws st') = insert sockfd (open_fds (ws st)) \<and>
       (\<forall>fd. fd \<noteq> sockfd \<longrightarrow> ws_view (ws st') fd = ws_view (ws st) fd)
     else st' = st) \<and>
    (r = ESP_OK \<longleftrightarrow> g_server st \<and> card (open_fds (ws st)) < WS_MAX_CONNECTIONS)"
proof (cases "g_server st \<and> connection_count (ws st) < of_nat WS_MAX_CONNECTIONS")
  case False
  then have "r = ESP_FAIL" "st' = st" using opn by (auto simp: on_open_def Let_def not_less split: if_splits)
  with False inv show ?thesis
    by (auto simp: open_fds_card WS_MAX_CONNECTIONS_def word_less_nat_alt)
next
  case True
  let ?xs = "connections (ws st)"
  obtain i where i: "ws_find_free_slot (ws st) = Some i"
    using free_slot [OF inv] True by (cases "ws_find_free_slot (ws st)") auto
  have slot: "i < length ?xs" "\<not> wc_active (?xs ! i)"
    using i find_slot_SomeD [of "\<lambda>c. \<not> wc_active c" ?xs i] by (auto simp: ws_find_free_slot_def)
  let ?c = "(?xs ! i)\<lparr>wc_fd := sockfd, wc_active := True, wc_connected_at := ws_seconds us,
                        wc_last_activity := ws_seconds us,
                        wc_remote_ip := get_client_ip peer 46 (wc_remote_ip (?xs ! i))\<rparr>"
  have r: "r = ESP_OK" and st': "connections (ws st') = ?xs[i := ?c]"
      "connection_count (ws st') = connection_count (ws st) + 1"
    using opn True i by (auto simp: on_open_def Let_def set_connection_def not_less [symmetric] split: if_splits)
  have d: "slots_distinct wc_active wc_fd ?xs" using inv by (simp add: ws_inv_def)
  have none: "slot_map wc_active wc_fd ?xs sockfd = None"
    using new by (auto simp: ws_view_def)
  have view: "ws_view (ws st') = (ws_view (ws st))(sockfd \<mapsto> ?c)"
    unfolding ws_view_def st' using conn_table.map_fresh [OF d slot, of ?c] none by simp
  have "count_slots wc_active (?xs[i := ?c]) = count_slots wc_active ?xs + 1"
    using count_slots_update [OF slot(1), of wc_active ?c] slot(2) by simp
  moreover have "unat (connection_count (ws st) + 1) = unat (connection_count (ws st)) + 1"
    using True unat_inc by blast
  moreover have "slots_distinct wc_active wc_fd (?xs[i := ?c])"
    using conn_table.distinct_fresh [OF d slot(1), of ?c] none by simp
  ultimately have "ws_inv (ws st')" using inv st' by (simp add: ws_inv_def)
  moreover have "card (open_fds (ws st)) < WS_MAX_CONNECTIONS"
    using True inv by (simp add: open_fds_card WS_MAX_CONNECTIONS_def word_less_nat_alt)
  ultimately show ?thesis using r view True by (auto simp: fun_upd_apply)
qed

lemma on_close_step:
  assumes inv: "ws_inv (ws st)" and cl: "on_close disconnect sockfd (st, r) = (st', r')"
  shows "ws_inv (ws st') \<and>
    (if g_server st then ws_view (ws st') = (ws_view (ws st))(sockfd := None) else st' = st) \<and>
    r' = (if g_server st \<and> g_disconnect_callback st then disconnect sockfd r else r)"
proof (cases "g_server st")
  case False
  then show ?thesis using cl inv by (simp add: on_close_def)
next
  case run: True
  let ?xs = "connections (ws st)"
  have d: "slots_distinct wc_active wc_fd ?xs" using inv by (simp add: ws_inv_def)
  show ?thesis
  proof (cases "find_connection_by_fd (ws st) sockfd")
    case None
    then have "ws_view (ws st) sockfd = None"
      by (simp add: find_connection_by_fd_def ws_view_def conn_table.scan_miss)
    with None cl inv run show ?thesis by (auto simp: on_close_def Let_def fun_eq_iff)
  next
    case (Some i)
    have i: "i < length ?xs" "wc_active (?xs ! i)" "wc_fd (?xs ! i) = sockfd"
      using find_slot_SomeD [OF Some [unfolded find_connection_by_fd_def]] by auto
    have st': "connections (ws st') = ?xs[i := zero_connection]"
        "connection_count (ws st') = connection_count (ws st) - 1"
      using cl Some run by (auto simp: on_close_def Let_def set_connection_def)
    have "ws_view (ws st') = (ws_view (ws st))(sockfd := None)"
      unfolding ws_view_def st' using conn_table.map_clear [OF d i(1,2), of zero_connection] i(3) by simp
    moreover have "count_slots wc_active (?xs[i := zero_connection]) + 1 = count_slots wc_active ?xs"
      using count_slots_update [OF i(1), of wc_active zero_connection] i(2) by simp
    moreover have "unat (connection_count (ws st) - 1) = unat (connection_count (ws st)) - 1"
      using inv count_slots_pos [of i ?xs wc_active, OF i(1,2)] by (simp add: ws_inv_def unat_minus_one unat_eq_0 [symmetric])
    moreover have "slots_distinct wc_active wc_fd (?xs[i := zero_connection])"
      using conn_table.distinct_clear [OF d i(1)] by simp
    ultimately show ?thesis
      using inv st' cl Some run by (auto simp: ws_inv_def on_close_def Let_def)
  qed
qed

lemma activity_step:
  assumes "ws_inv srv"
  shows "ws_inv (update_connection_activity us fd srv) \<and>
    open_fds (update_connection_activity us fd srv) = open_fds srv"
proof (cases "find_connection_by_fd srv fd")
  case None
  with assms show ?thesis by (simp add: update_connection_activity_def)
next
  case (Some i)
  let ?xs = "connections srv"
  let ?c = "(?xs ! i)\<lparr>wc_last_activity := ws_seconds us\<rparr>"
  have i: "i < length ?xs" "wc_active (?xs ! i)" "wc_fd (?xs ! i) = fd"
    using find_slot_SomeD [OF Some [unfolded find_connection_by_fd_def]] by auto
  have d: "slots_distinct wc_active wc_fd ?xs" using assms by (simp add: ws_inv_def)
  have "slot_map wc_active wc_fd (?xs[i := ?c]) = (slot_map wc_active wc_fd ?xs)(fd \<mapsto> ?c)"
    using conn_table.map_same [OF d i(1,2), of ?c] i by simp
  moreover have "fd \<in> dom (slot_map wc_active wc_fd ?xs)"
    using conn_table.map_nth [OF d i(1,2)] i(3) by auto
  moreover have "count_slots wc_active (?xs[i := ?c]) = count_slots wc_active ?xs"
    using count_slots_update [OF i(1), of wc_active ?c] i(2) by simp
  moreover have "slots_distinct wc_active wc_fd (?xs[i := ?c])"
    using conn_table.distinct_same [OF d i(1,2), of ?c] by simp
  ultimately show ?thesis
    using assms Some by (auto simp: update_connection_activity_def set_connection_def ws_inv_def ws_view_def)
qed

section \<open>What operations leave alone\<close>

lemma send_frame [simp]:
  "ws (snd (ws_server_send env fd data st)) = ws st"
  "g_current_req (snd (ws_server_send env fd data st)) = g_current_req st"
  "g_server (snd (ws_server_send env fd data st)) = g_server st"
  "g_message_callback (snd (ws_server_send env fd data st)) = g_message_callback st"
  "g_disconnect_callback (snd (ws_server_send env fd data st)) = g_disconnect_callback st"
  by (simp_all add: ws_server_send_def emit_def)

lemma send_next_frame [simp]:
  "ws (snd (send_next envs fd data st)) = ws st"
  "g_current_req (snd (send_next envs fd data st)) = g_current_req st"
  "g_server (snd (send_next envs fd data st)) = g_server st"
  "g_message_callback (snd (send_next envs fd data st)) = g_message_callback st"
  "g_disconnect_callback (snd (send_next envs fd data st)) = g_disconnect_callback st"
  by (simp_all add: send_next_def)

text \<open>The frame a send hands over when nothing fails.\<close>

definition frame_for :: "ws_state \<Rightarrow> int \<Rightarrow> string \<Rightarrow> ws_out" where
  "frame_for st fd data =
     (if g_current_req st = Some fd then Out_Frame fd WS_TEXT data else Out_Queued fd data)"

lemma frame_for_cong: "g_current_req st' = g_current_req st \<Longrightarrow> frame_for st' = frame_for st"
  by (simp add: frame_for_def fun_eq_iff)

lemma send_next_good:
  assumes "ws_httpd (ws st)"
  shows "fst (send_next (\<lambda>_. good_send) fd data st) = ESP_OK \<and>
    outbox (snd (send_next (\<lambda>_. good_send) fd data st)) = outbox st @ [frame_for st fd data]"
  using assms by (simp add: send_next_def ws_server_send_def emit_def frame_for_def good_send_def)

text \<open>A send adds at most one frame, to the socket it names and with the data it is given.\<close>

lemma send_outbox:
  "outbox (snd (send_next envs fd data st)) = outbox st \<or>
   outbox (snd (send_next envs fd data st)) = outbox st @ [frame_for st fd data]"
  by (simp add: send_next_def ws_server_send_def emit_def frame_for_def)

lemma broadcast_loop_good:
  assumes "ws_httpd (ws st)"
  shows "outbox (broadcast_loop (\<lambda>_. good_send) data cs st) =
    outbox st @ map (\<lambda>c. frame_for st (wc_fd c) data) (filter wc_active cs)"
  using assms
proof (induction cs arbitrary: st)
  case Nil
  then show ?case by simp
next
  case (Cons c cs)
  let ?st = "snd (send_next (\<lambda>_. good_send) (wc_fd c) data st)"
  have f: "frame_for ?st = frame_for st" by (rule frame_for_cong) simp
  have r: "ws_httpd (ws ?st)" using Cons.prems by simp
  show ?case
    using Cons.IH [OF r] Cons.IH [OF Cons.prems] send_next_good [OF Cons.prems, of "wc_fd c" data]
    by (cases "wc_active c") (simp_all add: f)
qed

section \<open>Properties\<close>

text \<open>
  Property C28. The connection table is the set of open sockets: opening a new socket succeeds
  exactly when the server runs and fewer than 8 are open, and then adds that socket and leaves
  the others; closing runs the disconnect callback, when one is set, and removes exactly that
  socket; the 8-bit counter is always the number of open sockets.
\<close>

theorem connections_exact:
  assumes "ws_inv (ws st)" and "sockfd \<notin> open_fds (ws st)"
    and "on_open us peer sockfd st = (e, st1)"
    and "on_close disconnect fd (st1, r) = (st2, r')"
  shows "(e = ESP_OK \<longleftrightarrow> g_server st \<and> card (open_fds (ws st)) < 8) \<and>
    ws_inv (ws st1) \<and> open_fds (ws st1) = open_fds (ws st) \<union> (if e = ESP_OK then {sockfd} else {}) \<and>
    ws_inv (ws st2) \<and> open_fds (ws st2) = open_fds (ws st1) - (if g_server st1 then {fd} else {}) \<and>
    r' = (if g_server st1 \<and> g_disconnect_callback st1 then disconnect fd r else r) \<and>
    unat (connection_count (ws st2)) = card (open_fds (ws st2))"
proof -
  note o = on_open_step [OF assms(1-3)]
  then have i1: "ws_inv (ws st1)" by blast
  note c = on_close_step [OF i1 assms(4)]
  have "open_fds (ws st2) = open_fds (ws st1) - (if g_server st1 then {fd} else {})"
    using c by (cases "g_server st1") simp_all
  with o c open_fds_card [of "ws st2"] show ?thesis
    by (auto simp: WS_MAX_CONNECTIONS_def split: if_splits)
qed

definition fresh_ws :: ws_state where
  "fresh_ws = \<lparr>ws = \<lparr>ws_httpd = True, connections = replicate WS_MAX_CONNECTIONS zero_connection,
     ws_lock = True, connection_count = 0\<rparr>, g_server = True, g_message_callback = True,
     g_disconnect_callback = True, g_current_req = None, ws_queue = [], outbox = [], send_tick = 0\<rparr>"

lemma fresh_ws_inv: "ws_inv (ws fresh_ws)" "open_fds (ws fresh_ws) = {}"
proof -
  have "count_slots wc_active (replicate n zero_connection) = 0" for n
    by (auto simp: count_slots_0 zero_connection_def)
  then show "ws_inv (ws fresh_ws)"
    by (simp add: fresh_ws_def ws_inv_def conn_table.distinct_blank)
  show "open_fds (ws fresh_ws) = {}"
    by (simp add: fresh_ws_def ws_view_def conn_table.all_blank)
qed

theorem connections_exact_witness:
  "\<exists>st1 st2 closed. on_open 5000000 (Some ''10.0.0.7'') 54 fresh_ws = (ESP_OK, st1) \<and>
     on_close (#) 54 (st1, []) = (st2, closed) \<and> open_fds (ws st1) = {54} \<and>
     open_fds (ws st2) = {} \<and> closed = [54]"
proof -
  obtain e st1 where o: "on_open 5000000 (Some ''10.0.0.7'') 54 fresh_ws = (e, st1)" by force
  obtain st2 closed where c: "on_close (#) 54 (st1, []) = (st2, closed)" by force
  have "g_server st1 = g_server fresh_ws \<and> g_disconnect_callback st1 = g_disconnect_callback fresh_ws"
    using o by (auto simp: on_open_def Let_def split: if_splits option.splits)
  then have "g_server st1" "g_disconnect_callback st1" by (simp_all add: fresh_ws_def)
  moreover have new: "54 \<notin> open_fds (ws fresh_ws)" "card (open_fds (ws fresh_ws)) < 8"
    using fresh_ws_inv(2) by auto
  moreover have "g_server fresh_ws" by (simp add: fresh_ws_def)
  ultimately have "e = ESP_OK" "open_fds (ws st1) = {54}" "open_fds (ws st2) = {}" "closed = [54]"
    using connections_exact [OF fresh_ws_inv(1) new(1) o c] fresh_ws_inv(2) by simp_all
  with o c show ?thesis by blast
qed

text \<open>
  A broadcast reaches every open connection exactly once and no other socket, in
  slot order, when the server runs and nothing fails.
\<close>

lemma broadcast_exact:
  assumes "ws_inv (ws st)" and "ws_httpd (ws st)"
  shows "\<exists>fds. outbox (snd (ws_server_broadcast (\<lambda>_. good_send) data st)) = outbox st @ map (\<lambda>fd. frame_for st fd data) fds \<and>
    distinct fds \<and> set fds = open_fds (ws st)"
proof (intro exI conjI)
  let ?fds = "map wc_fd (filter wc_active (connections (ws st)))"
  show "outbox (snd (ws_server_broadcast (\<lambda>_. good_send) data st)) = outbox st @ map (\<lambda>fd. frame_for st fd data) ?fds"
    using broadcast_loop_good [OF assms(2)] by (simp add: ws_server_broadcast_def comp_def)
  show "set ?fds = open_fds (ws st)"
    unfolding ws_view_def conn_table.dom_map by auto
  have "card (open_fds (ws st)) = length ?fds"
    using assms(1) by (simp add: open_fds_card ws_inv_def count_slots_def)
  with \<open>set ?fds = open_fds (ws st)\<close> show "distinct ?fds"
    by (metis card_distinct)
qed

text \<open>When a frame reaches the message callback, and the slots as sockets only.\<close>

definition delivers :: "ws_request \<Rightarrow> ws_state \<Rightarrow> bool" where
  "delivers req st \<longleftrightarrow> \<not> rq_get req \<and> rq_head req = ESP_OK \<and> 0 < length (rq_payload req) \<and>
     length (rq_payload req) \<le> 65536 \<and> rq_malloc req \<and> rq_body req = ESP_OK \<and>
     rq_type req = WS_TEXT \<and> g_message_callback st"

definition sockets :: "ws_server \<Rightarrow> (bool \<times> int) list" where
  "sockets srv = map (\<lambda>c. (wc_active c, wc_fd c)) (connections srv)"

lemma sockets_activity: "sockets (update_connection_activity us fd srv) = sockets srv"
proof (cases "find_connection_by_fd srv fd")
  case (Some i)
  then have "i < length (connections srv)"
    using find_slot_SomeD(1) unfolding find_connection_by_fd_def by fastforce
  with Some show ?thesis
    by (simp add: update_connection_activity_def set_connection_def sockets_def map_update list_update_same_conv)
qed (simp add: update_connection_activity_def)

lemma handler_quiet:
  assumes "\<not> delivers req st"
  shows "snd (snd (ws_handler on_message req (st, r))) = r \<and>
    g_current_req (fst (snd (ws_handler on_message req (st, r)))) = g_current_req st \<and>
    sockets (ws (fst (snd (ws_handler on_message req (st, r))))) = sockets (ws st)"
  using assms
  by (cases "rq_type req")
    (auto simp: ws_handler_def Let_def delivers_def emit_def nip11_handler_def sockets_activity
        WS_MAX_FRAME_SIZE_def split: if_splits)

lemma handler_delivers:
  assumes "delivers req st"
  shows "ws_handler on_message req (st, r) =
    (let st1 = (if g_server st then st\<lparr>ws := update_connection_activity (rq_time req) (rq_fd req) (ws st)\<rparr> else st);
         (st', r') = on_message (rq_fd req) (rq_payload req) (st1\<lparr>g_current_req := Some (rq_fd req)\<rparr>, r)
     in (ESP_OK, (st'\<lparr>g_current_req := None\<rparr>, r')))"
  using assms by (auto simp: ws_handler_def Let_def delivers_def WS_MAX_FRAME_SIZE_def)

text \<open>
  Property C29. The message callback is called for a request exactly when it is a text frame of
  1 to 65536 bytes that was received in full, with the socket and payload of that frame and with
  the request registered for the duration of the call; every other request (handshake, NIP-11,
  control frame, oversized frame, failed receive) leaves the relay's state, the registered
  request and the set of connections alone.
\<close>

theorem handler_exact:
  "if delivers req st
   then ws_handler on_message req (st, r) =
    (let st1 = (if g_server st then st\<lparr>ws := update_connection_activity (rq_time req) (rq_fd req) (ws st)\<rparr> else st);
         (st', r') = on_message (rq_fd req) (rq_payload req) (st1\<lparr>g_current_req := Some (rq_fd req)\<rparr>, r)
     in (ESP_OK, (st'\<lparr>g_current_req := None\<rparr>, r')))
   else snd (snd (ws_handler on_message req (st, r))) = r \<and>
    g_current_req (fst (snd (ws_handler on_message req (st, r)))) = g_current_req st \<and>
    sockets (ws (fst (snd (ws_handler on_message req (st, r))))) = sockets (ws st)"
proof (cases "delivers req st")
  case True
  show ?thesis unfolding if_P [OF True] using handler_delivers [OF True] .
next
  case False
  show ?thesis unfolding if_not_P [OF False] using handler_quiet [OF False] .
qed

end
