(* ===== verification/Relay_State.thy ===== *)
theory Relay_State
  imports Rate_Limiter Sub_Manager Deletion Validator Ws_Server
begin

text \<open>
  The state the request handlers share (\<open>relay_ctx_t\<close> of \<open>main/relay_core.h\<close> and the static
  objects of \<open>main/main.c\<close> it points to), and the replies of the router
  (\<open>router_send_*\<close> of \<open>main/router.c\<close>), which the handlers and the broadcaster use.
\<close>

section \<open>State\<close>

record relay_config =
  cfg_port :: u16
  cfg_max_event_age_sec :: u32
  cfg_max_subs_per_conn :: u8
  cfg_max_filters_per_sub :: u8
  cfg_max_future_sec :: int

text \<open>
  The static objects always exist; \<open>ctx_*\<close> says whether the context points to them.  The
  counters index the environment: storage calls, and messages (for timer and clock).
\<close>

record relay_core =
  g_sub_manager :: sub_manager
  g_storage :: storage_sys
  g_rate_limiter :: rate_limiter
  ctx_sub_manager :: bool
  ctx_storage :: bool
  ctx_rate_limiter :: bool
  ctx_config :: relay_config
  store_tick :: nat
  msg_tick :: nat
  alloc :: heap

text \<open>The whole relay: the WebSocket server and the rest.\<close>

type_synonym relay = "ws_state \<times> relay_core"

text \<open>
  The environment: outcomes of storage calls and of sends, and for each message the timer
  readings of the rate limiter and the clock readings of the validation.
\<close>

record relay_env =
  re_store :: envs
  re_send :: send_envs
  re_timer_open :: "nat \<Rightarrow> int"
  re_timer :: "nat \<Rightarrow> int"
  re_now_lib :: "nat \<Rightarrow> int"
  re_now :: "nat \<Rightarrow> int"

section \<open>Replies\<close>

definition ROUTER_SEND_BUF_SIZE :: nat where "ROUTER_SEND_BUF_SIZE = 512"
definition ROUTER_EVENT_BUF_SIZE :: nat where "ROUTER_EVENT_BUF_SIZE = 16384"

definition send_relay_msg ::
    "nostr_lib \<Rightarrow> relay_env \<Rightarrow> int \<Rightarrow> relay_msg \<Rightarrow> ws_state \<Rightarrow> esp_err \<times> ws_state" where
  "send_relay_msg lib env fd msg st =
     (case lib_relay_msg_serialize lib msg ROUTER_SEND_BUF_SIZE of
        None \<Rightarrow> (ESP_ERR_NO_MEM, st)
      | Some buf \<Rightarrow> send_next (re_send env) fd buf st)"

definition router_send_notice ::
    "nostr_lib \<Rightarrow> relay_env \<Rightarrow> int \<Rightarrow> string \<Rightarrow> ws_state \<Rightarrow> esp_err \<times> ws_state" where
  "router_send_notice lib env fd message st = send_relay_msg lib env fd (Relay_Notice message) st"

definition router_send_ok ::
    "nostr_lib \<Rightarrow> relay_env \<Rightarrow> int \<Rightarrow> string \<Rightarrow> bool \<Rightarrow> string \<Rightarrow> ws_state \<Rightarrow> esp_err \<times> ws_state" where
  "router_send_ok lib env fd id_hex accepted message st =
     send_relay_msg lib env fd (Relay_Ok id_hex accepted message) st"

definition router_send_eose ::
    "nostr_lib \<Rightarrow> relay_env \<Rightarrow> int \<Rightarrow> string \<Rightarrow> ws_state \<Rightarrow> esp_err \<times> ws_state" where
  "router_send_eose lib env fd sid st = send_relay_msg lib env fd (Relay_Eose sid) st"

definition router_send_closed ::
    "nostr_lib \<Rightarrow> relay_env \<Rightarrow> int \<Rightarrow> string \<Rightarrow> string \<Rightarrow> ws_state \<Rightarrow> esp_err \<times> ws_state" where
  "router_send_closed lib env fd sid message st = send_relay_msg lib env fd (Relay_Closed sid message) st"

text \<open>
  The buffer for an event is allocated; a failed allocation or serialisation sends nothing.
  Whether the allocation succeeds is part of the environment of the send.
\<close>

definition router_send_event ::
    "nostr_lib \<Rightarrow> relay_env \<Rightarrow> int \<Rightarrow> string \<Rightarrow> nostr_event \<Rightarrow> ws_state \<Rightarrow> esp_err \<times> ws_state" where
  "router_send_event lib env fd sid ev st =
     (if \<not> sd_buf (re_send env (send_tick st)) then (ESP_ERR_NO_MEM, st\<lparr>send_tick := send_tick st + 1\<rparr>)
      else case lib_relay_msg_serialize lib (Relay_Event sid ev) ROUTER_EVENT_BUF_SIZE of
          None \<Rightarrow> (ESP_ERR_NO_MEM, st\<lparr>send_tick := send_tick st + 1\<rparr>)
        | Some buf \<Rightarrow> send_next (re_send env) fd buf st)"

lemmas reply_defs = router_send_notice_def router_send_ok_def router_send_eose_def router_send_closed_def
  send_relay_msg_def

section \<open>What a reply may change\<close>

text \<open>The frames an output queues, and the frames the work items of an output send.\<close>

fun queued_frames :: "ws_out list \<Rightarrow> (int \<times> string) list" where
  "queued_frames [] = []"
| "queued_frames (Out_Queued fd s # out) = (fd, s) # queued_frames out"
| "queued_frames (_ # out) = queued_frames out"

fun async_frames :: "ws_out list \<Rightarrow> (int \<times> string) list" where
  "async_frames [] = []"
| "async_frames (Out_Async fd s # out) = (fd, s) # async_frames out"
| "async_frames (_ # out) = async_frames out"

lemma queued_append [simp]: "queued_frames (xs @ ys) = queued_frames xs @ queued_frames ys"
  by (induction xs rule: queued_frames.induct) simp_all

lemma async_append [simp]: "async_frames (xs @ ys) = async_frames xs @ async_frames ys"
  by (induction xs rule: async_frames.induct) simp_all

text \<open>
  \<open>talks fds st st'\<close>: from \<open>st\<close> to \<open>st'\<close> the server changed nothing but its queue, its
  counter and its output, every frame it handed over is for a socket in \<open>fds\<close>, and the frames
  it queued were added to the queue in their order.
\<close>

fun out_fd :: "ws_out \<Rightarrow> int option" where
  "out_fd (Out_Frame fd ty s) = Some fd"
| "out_fd (Out_Queued fd s) = Some fd"
| "out_fd (Out_Async fd s) = Some fd"
| "out_fd (Out_Http hs b) = None"
| "out_fd (Out_Trigger_Close fd) = Some fd"

definition talks :: "int set \<Rightarrow> ws_state \<Rightarrow> ws_state \<Rightarrow> bool" where
  "talks fds st st' \<longleftrightarrow>
     ws st' = ws st \<and> g_server st' = g_server st \<and> g_message_callback st' = g_message_callback st \<and>
     g_disconnect_callback st' = g_disconnect_callback st \<and> g_current_req st' = g_current_req st \<and>
     (\<exists>out. outbox st' = outbox st @ out \<and> (\<forall>x \<in> set out. \<exists>fd \<in> fds. out_fd x = Some fd) \<and>
       ws_queue st' = ws_queue st @ queued_frames out \<and> async_frames out = [])"

lemma talks_refl [simp]: "talks fds st st"
  by (simp add: talks_def)

lemma talks_trans: "talks fds st st' \<Longrightarrow> talks fds st' st'' \<Longrightarrow> talks fds st st''"
  unfolding talks_def
  by (elim conjE exE, intro conjI exI) (assumption | simp add: ball_Un)+

lemma talks_mono: "talks fds st st' \<Longrightarrow> fds \<subseteq> fds' \<Longrightarrow> talks fds' st st'"
  unfolding talks_def by blast

lemma talks_tick [simp]: "talks fds st (st\<lparr>send_tick := n\<rparr>)"
  by (simp add: talks_def)

lemma talks_send: "talks {fd} st (snd (send_next envs fd data st))"
  by (auto simp: talks_def send_next_def ws_server_send_def emit_def)

lemma talks_reply:
  "talks {fd} st (snd (send_relay_msg lib env fd msg st))"
  by (simp add: send_relay_msg_def talks_send split: option.split)

lemma talks_replies [simp]:
  "talks {fd} st (snd (router_send_notice lib env fd m st))"
  "talks {fd} st (snd (router_send_ok lib env fd i b m st))"
  "talks {fd} st (snd (router_send_eose lib env fd sid st))"
  "talks {fd} st (snd (router_send_closed lib env fd sid m st))"
  by (simp_all add: router_send_notice_def router_send_ok_def router_send_eose_def router_send_closed_def talks_reply)

lemma talks_event [simp]: "talks {fd} st (snd (router_send_event lib env fd sid ev st))"
  by (simp add: router_send_event_def talks_send split: option.split)

end
