(* ===== verification/Handlers.thy ===== *)
theory Handlers
  imports Relay_State
begin

text \<open>
  The handlers behind the router (\<open>main/handlers_stub.c\<close>) and the broadcaster
  (\<open>main/broadcaster.c\<close>).
\<close>

section \<open>Broadcast of an accepted event\<close>

fun fanout_loop ::
    "nostr_lib \<Rightarrow> relay_env \<Rightarrow> nostr_event \<Rightarrow> sub_match_entry list \<Rightarrow> ws_state \<Rightarrow> ws_state" where
  "fanout_loop lib env ev [] st = st"
| "fanout_loop lib env ev (m # ms) st =
     fanout_loop lib env ev ms (snd (router_send_event lib env (me_conn_fd m) (me_sub_id m) ev st))"

definition broadcaster_fanout :: "nostr_lib \<Rightarrow> relay_env \<Rightarrow> nostr_event \<Rightarrow> relay \<Rightarrow> relay" where
  "broadcaster_fanout lib env ev rel =
     (let (st, r) = rel in
      if \<not> ctx_sub_manager r then (st, r)
      else
        let res = sub_manager_match lib (g_sub_manager r) ev in
        if match_count res = 0 then (st, r)
        else (fanout_loop lib env ev (take (unat (match_count res)) (sm_matches res)) st, r))"

section \<open>EVENT\<close>

text \<open>Running the deletion handler on the relay's store.\<close>

definition relay_deletion :: "nostr_lib \<Rightarrow> relay_env \<Rightarrow> nostr_event \<Rightarrow> relay_core \<Rightarrow> relay_core" where
  "relay_deletion lib env ev r =
     (let (n, c) = deletion_process lib (re_store env) ev
            \<lparr>sc_store = g_storage r, sc_tick = store_tick r, sc_heap = alloc r\<rparr>
      in r\<lparr>g_storage := sc_store c, store_tick := sc_tick c, alloc := sc_heap c\<rparr>)"

definition relay_save :: "nostr_lib \<Rightarrow> relay_env \<Rightarrow> nostr_event \<Rightarrow> relay_core \<Rightarrow> storage_error \<times> relay_core" where
  "relay_save lib env ev r =
     (let (e, s) = storage_save_event lib (re_store env (store_tick r)) ev (g_storage r)
      in (e, r\<lparr>g_storage := s, store_tick := store_tick r + 1\<rparr>))"

definition handle_event ::
    "nostr_lib \<Rightarrow> relay_env \<Rightarrow> int \<Rightarrow> nostr_event \<Rightarrow> relay \<Rightarrow> nostr_relay_error \<times> relay" where
  "handle_event lib env fd ev rel =
     (let (st, r) = rel;
          config = \<lparr>vc_max_event_age_sec = cfg_max_event_age_sec (ctx_config r),
                    vc_max_future_sec = cfg_max_future_sec (ctx_config r),
                    vc_min_pow_difficulty = 0, vc_check_duplicates = True\<rparr>;
          result = validator_check_event lib (re_now_lib env (msg_tick r)) (re_now env (msg_tick r)) ev
                     config (ctx_storage r)
      in if result \<noteq> VALIDATION_OK then (validator_result_to_relay_error result, (st, r))
         else
           let r = (if ev_kind ev = NOSTR_KIND_DELETION \<and> ctx_storage r
                    then relay_deletion lib env ev r else r);
               ephemeral = lib_kind_is_ephemeral lib (ev_kind ev)
           in if \<not> ephemeral \<and> ctx_storage r then
                let (e, r) = relay_save lib env ev r in
                if e \<noteq> STORAGE_OK \<and> e \<noteq> STORAGE_ERR_DUPLICATE then (NOSTR_RELAY_ERR_STORAGE, (st, r))
                else (NOSTR_RELAY_OK, broadcaster_fanout lib env ev (st, r))
              else (NOSTR_RELAY_OK, broadcaster_fanout lib env ev (st, r)))"

section \<open>REQ\<close>

definition MAX_SENT_IDS :: nat where "MAX_SENT_IDS = 64"

text \<open>
  \<open>sent\<close> is the array of ids sent so far, none when it could not be allocated; an id beyond
  the 64th is not recorded.
\<close>

fun req_events_loop ::
    "nostr_lib \<Rightarrow> relay_env \<Rightarrow> int \<Rightarrow> string \<Rightarrow> nostr_event list \<Rightarrow> u8 list list option \<Rightarrow> ws_state \<Rightarrow>
     u8 list list option \<times> ws_state" where
  "req_events_loop lib env fd sid [] sent st = (sent, st)"
| "req_events_loop lib env fd sid (e # es) sent st =
     (let duplicate = (case sent of None \<Rightarrow> False | Some ids \<Rightarrow> list_ex (\<lambda>i. i = ev_id e) ids) in
      if \<not> duplicate then
        let st = snd (router_send_event lib env fd sid e st);
            sent = (case sent of None \<Rightarrow> None
                    | Some ids \<Rightarrow> Some (if length ids < MAX_SENT_IDS then ids @ [ev_id e] else ids))
        in req_events_loop lib env fd sid es sent st
      else req_events_loop lib env fd sid es sent st)"

definition relay_query ::
    "nostr_lib \<Rightarrow> relay_env \<Rightarrow> nostr_filter \<Rightarrow> u16 \<Rightarrow> relay_core \<Rightarrow> (storage_error \<times> nostr_event list) \<times> relay_core" where
  "relay_query lib env f limit r =
     (let (res, s) = storage_query_events lib (re_store env (store_tick r)) f limit (g_storage r)
      in (res, r\<lparr>g_storage := s, store_tick := store_tick r + 1\<rparr>))"

text \<open>\<open>uint16_t limit = filter.limit > 0 ? filter.limit : 100\<close>\<close>

definition req_limit :: "nostr_filter \<Rightarrow> u16" where
  "req_limit f = (if 0 < f_limit f then word_of_int (f_limit f) else 100)"

fun req_filters_loop ::
    "nostr_lib \<Rightarrow> relay_env \<Rightarrow> int \<Rightarrow> string \<Rightarrow> nostr_filter list \<Rightarrow> u8 list list option \<Rightarrow> relay \<Rightarrow> relay" where
  "req_filters_loop lib env fd sid [] sent rel = rel"
| "req_filters_loop lib env fd sid (f # fs) sent rel =
     (let (st, r) = rel;
          ((e, evs), r) = relay_query lib env f (req_limit f) r;
          (sent, st) = (if e = STORAGE_OK then req_events_loop lib env fd sid evs sent st else (sent, st))
      in req_filters_loop lib env fd sid fs sent (st, r))"

definition handle_req ::
    "nostr_lib \<Rightarrow> relay_env \<Rightarrow> int \<Rightarrow> string \<Rightarrow> nostr_filter list \<Rightarrow> relay \<Rightarrow> relay" where
  "handle_req lib env fd sid filters rel =
     (let (st, r) = rel in
      if \<not> ctx_sub_manager r then (snd (router_send_eose lib env fd sid st), r)
      else
        let (err, mgr, h) = sub_manager_add lib (g_sub_manager r) fd sid filters (alloc r);
            r = r\<lparr>g_sub_manager := mgr, alloc := h\<rparr>
        in if err \<noteq> NOSTR_RELAY_OK
           then (snd (router_send_closed lib env fd sid ''error: too many subscriptions'' st), r)
           else
             let (st, r) =
               (if ctx_storage r then
                  let (b, h) = malloc (alloc r); r = r\<lparr>alloc := h\<rparr>
                  in req_filters_loop lib env fd sid filters (if b then Some [] else None) (st, r)
                else (st, r))
             in (snd (router_send_eose lib env fd sid st), r))"

section \<open>CLOSE\<close>

definition handle_close :: "nostr_lib \<Rightarrow> int \<Rightarrow> string \<Rightarrow> relay_core \<Rightarrow> nostr_relay_error \<times> relay_core" where
  "handle_close lib fd sid r =
     (if ctx_sub_manager r then
        let (e, mgr) = sub_manager_remove lib (g_sub_manager r) fd sid
        in (e, r\<lparr>g_sub_manager := mgr\<rparr>)
      else (NOSTR_RELAY_OK, r))"

end
