(* ===== verification/Router.thy ===== *)
theory Router
  imports Handlers
begin

text \<open>
  Parsing and dispatch of client messages (\<open>main/router.c\<close>, \<open>main/router.h\<close>).  JSON parsing is
  libnostr-c's; the router copies what it needs into a message of its own.
\<close>

section \<open>Messages\<close>

definition ROUTER_MAX_FILTERS :: nat where "ROUTER_MAX_FILTERS = 4"
definition ROUTER_MAX_SUB_ID :: nat where "ROUTER_MAX_SUB_ID = 64"

datatype router_msg =
    ROUTER_MSG_EVENT nostr_event
  | ROUTER_MSG_REQ string "nostr_filter list"
  | ROUTER_MSG_CLOSE string
  | ROUTER_MSG_AUTH
  | ROUTER_MSG_UNKNOWN
  | ROUTER_MSG_INVALID

text \<open>On a parse error the output message is left invalid.\<close>

definition router_parse :: "nostr_lib \<Rightarrow> string \<Rightarrow> nostr_relay_error \<times> router_msg" where
  "router_parse lib json =
     (case lib_client_msg_parse lib json of
        Inl e \<Rightarrow> (e, ROUTER_MSG_INVALID)
      | Inr msg \<Rightarrow>
          (NOSTR_RELAY_OK,
           (case msg of
              Client_Event ev \<Rightarrow> ROUTER_MSG_EVENT ev
            | Client_Req sid filters \<Rightarrow> ROUTER_MSG_REQ (strncpy_z sid ROUTER_MAX_SUB_ID) filters
            | Client_Close sid \<Rightarrow> ROUTER_MSG_CLOSE (strncpy_z sid ROUTER_MAX_SUB_ID)
            | Client_Auth \<Rightarrow> ROUTER_MSG_AUTH
            | Client_Unknown \<Rightarrow> ROUTER_MSG_UNKNOWN)))"

section \<open>Dispatch\<close>

fun get_event_rejection_message :: "nostr_lib \<Rightarrow> nostr_relay_error \<Rightarrow> string" where
  "get_event_rejection_message lib NOSTR_RELAY_ERR_INVALID_SIG = lib_PREFIX_INVALID lib @ ''bad signature''"
| "get_event_rejection_message lib NOSTR_RELAY_ERR_SIG_MISMATCH = lib_PREFIX_INVALID lib @ ''bad signature''"
| "get_event_rejection_message lib NOSTR_RELAY_ERR_INVALID_ID = lib_PREFIX_INVALID lib @ ''bad event id''"
| "get_event_rejection_message lib NOSTR_RELAY_ERR_ID_MISMATCH = lib_PREFIX_INVALID lib @ ''bad event id''"
| "get_event_rejection_message lib NOSTR_RELAY_ERR_FUTURE_EVENT = lib_PREFIX_INVALID lib @ ''event too far in future''"
| "get_event_rejection_message lib NOSTR_RELAY_ERR_EXPIRED_EVENT = lib_PREFIX_INVALID lib @ ''event expired''"
| "get_event_rejection_message lib NOSTR_RELAY_ERR_STORAGE = lib_PREFIX_ERROR lib @ ''could not save event''"
| "get_event_rejection_message lib _ = lib_PREFIX_ERROR lib @ ''internal error''"

text \<open>\<open>ctx->rate_limiter && !rate_limiter_check (...)\<close>\<close>

definition rate_limited :: "relay_env \<Rightarrow> int \<Rightarrow> rate_type \<Rightarrow> relay_core \<Rightarrow> bool \<times> relay_core" where
  "rate_limited env fd ty r =
     (if ctx_rate_limiter r then
        let (allowed, rl) = rate_limiter_check (g_rate_limiter r) fd ty
              (re_timer_open env (msg_tick r)) (re_timer env (msg_tick r))
        in (\<not> allowed, r\<lparr>g_rate_limiter := rl\<rparr>)
      else (False, r))"

definition dispatch_event :: "nostr_lib \<Rightarrow> relay_env \<Rightarrow> int \<Rightarrow> nostr_event \<Rightarrow> relay \<Rightarrow> relay" where
  "dispatch_event lib env fd ev rel =
     (let (st, r) = rel;
          id_hex = lib_event_get_id_hex lib ev;
          (limited, r) = rate_limited env fd RATE_TYPE_EVENT r
      in if limited then (snd (router_send_ok lib env fd id_hex False ''rate-limited:'' st), r)
         else
           let (result, (st, r)) = handle_event lib env fd ev (st, r);
               accepted = (result = NOSTR_RELAY_OK);
               message = (if accepted then '''' else get_event_rejection_message lib result)
           in (snd (router_send_ok lib env fd id_hex accepted message st), r))"

definition dispatch_req ::
    "nostr_lib \<Rightarrow> relay_env \<Rightarrow> int \<Rightarrow> string \<Rightarrow> nostr_filter list \<Rightarrow> relay \<Rightarrow> relay" where
  "dispatch_req lib env fd sid filters rel =
     (let (st, r) = rel;
          (limited, r) = rate_limited env fd RATE_TYPE_REQ r
      in if limited then (snd (router_send_closed lib env fd sid ''rate-limited:'' st), r)
         else if length sid = 0 \<or> ROUTER_MAX_SUB_ID < length sid
         then (snd (router_send_closed lib env fd sid ''error: invalid subscription id'' st), r)
         else if ROUTER_MAX_FILTERS < length filters
         then (snd (router_send_closed lib env fd sid ''error: too many filters'' st), r)
         else handle_req lib env fd sid filters (st, r))"

definition dispatch_close :: "nostr_lib \<Rightarrow> relay_env \<Rightarrow> int \<Rightarrow> string \<Rightarrow> relay \<Rightarrow> relay" where
  "dispatch_close lib env fd sid rel =
     (let (st, r) = rel;
          (result, r) = handle_close lib fd sid r
      in if result = NOSTR_RELAY_OK then (snd (router_send_closed lib env fd sid '''' st), r)
         else (snd (router_send_closed lib env fd sid ''no such subscription'' st), r))"

definition router_dispatch :: "nostr_lib \<Rightarrow> relay_env \<Rightarrow> int \<Rightarrow> router_msg \<Rightarrow> relay \<Rightarrow> relay" where
  "router_dispatch lib env fd msg rel =
     (case msg of
        ROUTER_MSG_EVENT ev \<Rightarrow> dispatch_event lib env fd ev rel
      | ROUTER_MSG_REQ sid filters \<Rightarrow> dispatch_req lib env fd sid filters rel
      | ROUTER_MSG_CLOSE sid \<Rightarrow> dispatch_close lib env fd sid rel
      | ROUTER_MSG_AUTH \<Rightarrow> (snd (router_send_notice lib env fd ''AUTH not implemented'' (fst rel)), snd rel)
      | ROUTER_MSG_UNKNOWN \<Rightarrow> (snd (router_send_notice lib env fd ''unknown message type'' (fst rel)), snd rel)
      | ROUTER_MSG_INVALID \<Rightarrow> (snd (router_send_notice lib env fd ''invalid message format'' (fst rel)), snd rel))"

end
