(* ===== verification/Relay.thy ===== *)
theory Relay
  imports Router
begin

text \<open>
  The relay as \<open>main/main.c\<close> puts it together: the callbacks registered with the WebSocket
  server, start-up and clean-up, and the steps of the running system.
\<close>

section \<open>Callbacks\<close>

definition on_ws_disconnect :: "nostr_lib \<Rightarrow> int \<Rightarrow> relay_core \<Rightarrow> relay_core" where
  "on_ws_disconnect lib fd r =
     r\<lparr>g_sub_manager := sub_manager_remove_all lib (g_sub_manager r) fd,
       g_rate_limiter := rate_limiter_reset (g_rate_limiter r) fd\<rparr>"

text \<open>The message counter advances for the environment's sake.\<close>

definition on_ws_message :: "nostr_lib \<Rightarrow> relay_env \<Rightarrow> int \<Rightarrow> string \<Rightarrow> relay \<Rightarrow> relay" where
  "on_ws_message lib env fd data rel =
     (let (st, r) = rel; r = r\<lparr>msg_tick := msg_tick r + 1\<rparr> in
      if length data = 0 \<or> WS_MAX_FRAME_SIZE < length data then (st, r)
      else case router_parse lib data of
          (e, msg) \<Rightarrow>
            if e \<noteq> NOSTR_RELAY_OK
            then (snd (router_send_notice lib env fd ''error: failed to parse message'' st), r)
            else router_dispatch lib env fd msg (st, r))"

section \<open>Start and clean-up\<close>

definition cleanup_relay_resources :: "nostr_lib \<Rightarrow> storage_env \<Rightarrow> bool \<Rightarrow> bool \<Rightarrow> bool \<Rightarrow> relay_core \<Rightarrow> relay_core" where
  "cleanup_relay_resources lib senv cleanup_rate cleanup_storage cleanup_subs r =
     (let r = (if cleanup_rate \<and> ctx_rate_limiter r
               then r\<lparr>g_rate_limiter := the (rate_limiter_destroy (Some (g_rate_limiter r))), ctx_rate_limiter := False\<rparr>
               else r);
          r = (if cleanup_storage \<and> ctx_storage r
               then r\<lparr>g_storage := storage_destroy senv (g_storage r), ctx_storage := False\<rparr> else r);
          r = (if cleanup_subs \<and> ctx_sub_manager r
               then r\<lparr>g_sub_manager := sub_manager_destroy lib (g_sub_manager r), ctx_sub_manager := False\<rparr> else r)
      in r)"

definition relay_defaults :: relay_config where
  "relay_defaults = \<lparr>cfg_port = 4869, cfg_max_event_age_sec = 21 * 24 * 60 * 60, cfg_max_subs_per_conn = 8,
     cfg_max_filters_per_sub = 4, cfg_max_future_sec = 900\<rparr>"

record boot_env =
  bo_sub_mutex :: bool
  bo_storage :: init_env
  bo_load :: storage_env
  bo_task :: bool
  bo_rate_mutex :: bool
  bo_ws :: start_env
  bo_destroy :: storage_env

definition start_relay_server :: "nostr_lib \<Rightarrow> boot_env \<Rightarrow> relay \<Rightarrow> relay" where
  "start_relay_server lib env rel =
     (let (st, r) = rel in
      if ws_server_is_running st then (st, r)
      else
        let r = r\<lparr>ctx_config := relay_defaults\<rparr>;
            (ok, mgr) = sub_manager_init (bo_sub_mutex env);
            r = r\<lparr>g_sub_manager := mgr\<rparr> in
        if \<not> ok then (st, r)
        else
          let r = r\<lparr>ctx_sub_manager := True\<rparr>;
              (e, s) = storage_init (bo_storage env) (bo_load env) (cfg_max_event_age_sec (ctx_config r)) (g_storage r);
              r = r\<lparr>g_storage := s\<rparr> in
          if e \<noteq> ESP_OK then (st, cleanup_relay_resources lib (bo_destroy env) False False True r)
          else
            let r = r\<lparr>ctx_storage := True\<rparr>;
                (e, s) = storage_start_cleanup_task (bo_task env) (g_storage r);
                r = r\<lparr>g_storage := s\<rparr> in
            if e \<noteq> ESP_OK then (st, cleanup_relay_resources lib (bo_destroy env) False True True r)
            else
              let r = r\<lparr>g_rate_limiter := rate_limiter_init (Some \<lparr>events_per_minute = 30, reqs_per_minute = 60\<rparr>)
                          (bo_rate_mutex env), ctx_rate_limiter := True\<rparr>;
                  (e, st) = ws_server_init (bo_ws env) st in
              if e \<noteq> ESP_OK then (st, cleanup_relay_resources lib (bo_destroy env) True True True r)
              else (ws_server_set_disconnect_cb st, r))"

end
