(* ===== verification/Relay_Invariant.thy ===== *)
theory Relay_Invariant
  imports Relay
begin

text \<open>
  The invariant of the running relay and the steps that keep it.  Subscriptions and rate buckets
  belong to connections; the interface \<open>connection_resource\<close> says what the relay needs of such
  a resource, and both managers provide it.  From it follow the facts that no component can show
  alone: nothing outlives its connection, and the fixed tables (16 buckets, 64 subscription slots)
  never run out for an open connection.
\<close>

section \<open>Resources of connections\<close>

text \<open>
  A resource has owners, a release that takes exactly one owner away, and uses on behalf of
  one connection, which may add that connection to the owners and no other.
\<close>

locale connection_resource =
  fixes ok :: "'r \<Rightarrow> bool"
    and owners :: "'r \<Rightarrow> int set"
    and release :: "int \<Rightarrow> 'r \<Rightarrow> 'r"
    and uses :: "int \<Rightarrow> 'r \<Rightarrow> 'r \<Rightarrow> bool"
  assumes release_ok: "ok r \<Longrightarrow> ok (release fd r)"
    and release_owners: "ok r \<Longrightarrow> owners (release fd r) = owners r - {fd}"
    and uses_ok: "ok r \<Longrightarrow> uses fd r r' \<Longrightarrow> ok r'"
    and uses_owners: "ok r \<Longrightarrow> uses fd r r' \<Longrightarrow> owners r' \<subseteq> insert fd (owners r)"
begin

text \<open>Closing a connection keeps the owners inside the open connections, whoever is left.\<close>

lemma close_owned:
  "ok r \<Longrightarrow> owners r \<subseteq> fds \<Longrightarrow> ok (release fd r) \<and> owners (release fd r) \<subseteq> fds - {fd}"
  using release_ok release_owners by blast

lemma use_owned:
  "ok r \<Longrightarrow> owners r \<subseteq> fds \<Longrightarrow> fd \<in> fds \<Longrightarrow> uses fd r r' \<Longrightarrow> ok r' \<and> owners r' \<subseteq> fds"
  using uses_ok uses_owners by blast

lemma closed_is_gone: "ok r \<Longrightarrow> fd \<notin> owners (release fd r)"
  by (simp add: release_owners)

end

definition sub_owners :: "sub_manager \<Rightarrow> int set" where
  "sub_owners mgr = fst ` dom (sm_view mgr)"

text \<open>A use of the subscription table: nothing, an addition with an id that fits, or a removal.\<close>

definition sub_uses :: "nostr_lib \<Rightarrow> int \<Rightarrow> sub_manager \<Rightarrow> sub_manager \<Rightarrow> bool" where
  "sub_uses lib fd mgr mgr' \<longleftrightarrow> mgr' = mgr \<or>
     (\<exists>sid fs h e h'. length sid \<le> SUB_MAX_ID_LEN \<and> sub_manager_add lib mgr fd sid fs h = (e, mgr', h')) \<or>
     (\<exists>sid e. sub_manager_remove lib mgr fd sid = (e, mgr'))"

lemma subs_spec_add_dom:
  "subs_spec_add copied m fd sid fs = (e, m') \<Longrightarrow> dom m' \<subseteq> insert (fd, sid) (dom m)"
  by (auto simp: subs_spec_add_def split: if_splits)

interpretation sub_resource: connection_resource sm_inv sub_owners
  "\<lambda>fd mgr. sub_manager_remove_all lib mgr fd" "sub_uses lib" for lib
proof unfold_locales
  fix r r' :: sub_manager and fd :: int
  assume inv: "sm_inv r"
  show "sm_inv (sub_manager_remove_all lib r fd)" using remove_all_step [OF inv] by blast
  show "sub_owners (sub_manager_remove_all lib r fd) = sub_owners r - {fd}"
  proof -
    have "dom (sm_view (sub_manager_remove_all lib r fd)) = {k \<in> dom (sm_view r). fst k \<noteq> fd}"
      using remove_all_step [OF inv, of lib fd] by (auto split: if_splits)
    then show ?thesis by (auto simp: sub_owners_def)
  qed
  assume u: "sub_uses lib fd r r'"
  consider (same) "r' = r"
    | (add) sid fs h e h' where "length sid \<le> SUB_MAX_ID_LEN" "sub_manager_add lib r fd sid fs h = (e, r', h')"
    | (rem) sid e where "sub_manager_remove lib r fd sid = (e, r')"
    using u unfolding sub_uses_def by blast
  then have "sm_inv r' \<and> sub_owners r' \<subseteq> insert fd (sub_owners r)"
  proof cases
    case same
    with inv show ?thesis by blast
  next
    case add
    note a = add_step [OF inv add]
    have "dom (sm_view r') \<subseteq> insert (fd, sid) (dom (sm_view r))" using a subs_spec_add_dom by blast
    with a show ?thesis by (force simp: sub_owners_def)
  next
    case rem
    note a = remove_step [OF inv rem]
    have "dom (sm_view r') \<subseteq> dom (sm_view r)" using a by auto
    with a show ?thesis by (force simp: sub_owners_def)
  qed
  then show "sm_inv r'" and "sub_owners r' \<subseteq> insert fd (sub_owners r)" by blast+
qed

lemma limiter_spec_dom:
  "limiter_spec c m fd ty a b = (e, m') \<Longrightarrow> dom m' \<subseteq> insert fd (dom m)"
  by (auto simp: limiter_spec_def Let_def split: if_splits prod.splits)

definition rate_uses :: "int \<Rightarrow> rate_limiter \<Rightarrow> rate_limiter \<Rightarrow> bool" where
  "rate_uses fd rl rl' \<longleftrightarrow> rl' = rl \<or> (\<exists>ty a b r. rate_limiter_check rl fd ty a b = (r, rl'))"

text \<open>The limits \<open>start_relay_server\<close> configures.\<close>

definition relay_limits :: rate_config where
  "relay_limits = \<lparr>events_per_minute = 30, reqs_per_minute = 60\<rparr>"

definition rl_ok :: "rate_limiter \<Rightarrow> bool" where
  "rl_ok rl \<longleftrightarrow> rl_inv rl \<and> rl_config rl = relay_limits"

interpretation rate_resource: connection_resource rl_ok "\<lambda>rl. dom (rl_view rl)"
  "\<lambda>fd rl. rate_limiter_reset rl fd" rate_uses
proof unfold_locales
  fix r r' :: rate_limiter and fd :: int
  assume ok: "rl_ok r"
  then have inv: "rl_inv r" by (simp add: rl_ok_def)
  show "rl_ok (rate_limiter_reset r fd)" using reset_step [OF inv] ok by (simp add: rl_ok_def)
  show "dom (rl_view (rate_limiter_reset r fd)) = dom (rl_view r) - {fd}"
    using reset_step [OF inv, of fd] by auto
  assume u: "rate_uses fd r r'"
  show "rl_ok r'" using u check_step [OF inv] ok unfolding rate_uses_def rl_ok_def by metis
  show "dom (rl_view r') \<subseteq> insert fd (dom (rl_view r))"
  proof (cases "r' = r")
    case False
    then obtain ty a b e where "rate_limiter_check r fd ty a b = (e, r')"
      using u unfolding rate_uses_def by blast
    from check_step [OF inv this] limiter_spec_dom show ?thesis by blast
  qed blast
qed

section \<open>The invariant\<close>

text \<open>
  What the relay relies on in the library for its store: the contracts of the storage and
  deletion theories, for every event that passes validation.
\<close>

definition lib_ok :: "nostr_lib \<Rightarrow> bool" where
  "lib_ok lib \<longleftrightarrow> hex_lengths lib \<and> deletion_contract lib \<and>
     (\<forall>ev f now. lib_event_validate_full lib ev f now = NOSTR_RELAY_OK \<longrightarrow>
        length (ev_id ev) = 32 \<and> codec_ok lib ev)"

definition core_inv :: "nostr_lib \<Rightarrow> int set \<Rightarrow> relay_core \<Rightarrow> bool" where
  "core_inv lib fds r \<longleftrightarrow>
     sm_inv (g_sub_manager r) \<and> sub_owners (g_sub_manager r) \<subseteq> fds \<and>
     rl_ok (g_rate_limiter r) \<and> dom (rl_view (g_rate_limiter r)) \<subseteq> fds \<and>
     store_inv lib (g_storage r) \<and> ctx_config r = relay_defaults \<and>
     ctx_sub_manager r \<and> ctx_storage r \<and> ctx_rate_limiter r"

definition relay_inv :: "nostr_lib \<Rightarrow> relay \<Rightarrow> bool" where
  "relay_inv lib rel \<longleftrightarrow>
     ws_inv (ws (fst rel)) \<and> ws_httpd (ws (fst rel)) \<and> g_server (fst rel) \<and> g_message_callback (fst rel) \<and>
     g_disconnect_callback (fst rel) \<and> g_current_req (fst rel) = None \<and>
     core_inv lib (open_fds (ws (fst rel))) (snd rel)"

text \<open>
  What a message of connection \<open>fd\<close> may do to the rest of the relay: use the two resources
  on its own behalf and change the store validly; pointers and configuration stay.
\<close>

definition serves :: "nostr_lib \<Rightarrow> int \<Rightarrow> relay_core \<Rightarrow> relay_core \<Rightarrow> bool" where
  "serves lib fd r r' \<longleftrightarrow>
     sub_uses lib fd (g_sub_manager r) (g_sub_manager r') \<and>
     rate_uses fd (g_rate_limiter r) (g_rate_limiter r') \<and>
     (store_inv lib (g_storage r) \<longrightarrow> store_inv lib (g_storage r')) \<and>
     ctx_sub_manager r' = ctx_sub_manager r \<and> ctx_storage r' = ctx_storage r \<and>
     ctx_rate_limiter r' = ctx_rate_limiter r \<and> ctx_config r' = ctx_config r"

lemma serves_inv:
  assumes "core_inv lib fds r" and "fd \<in> fds" and "serves lib fd r r'"
  shows "core_inv lib fds r'"
  using assms sub_resource.use_owned [of "g_sub_manager r" fds fd lib "g_sub_manager r'"]
    rate_resource.use_owned [of "g_rate_limiter r" fds fd "g_rate_limiter r'"]
  unfolding core_inv_def serves_def by simp

lemma serves_refl [simp]: "serves lib fd r r"
  by (simp add: serves_def sub_uses_def rate_uses_def)

lemma serves_store:
  "(store_inv lib (g_storage r) \<Longrightarrow> store_inv lib s) \<Longrightarrow>
    serves lib fd r (r\<lparr>g_storage := s, store_tick := n, alloc := h\<rparr>)"
  by (simp add: serves_def sub_uses_def rate_uses_def)

text \<open>Steps that leave the resources alone can follow.\<close>

definition keeps :: "nostr_lib \<Rightarrow> relay_core \<Rightarrow> relay_core \<Rightarrow> bool" where
  "keeps lib r r' \<longleftrightarrow> g_sub_manager r' = g_sub_manager r \<and> g_rate_limiter r' = g_rate_limiter r \<and>
     (store_inv lib (g_storage r) \<longrightarrow> store_inv lib (g_storage r')) \<and>
     ctx_sub_manager r' = ctx_sub_manager r \<and> ctx_storage r' = ctx_storage r \<and>
     ctx_rate_limiter r' = ctx_rate_limiter r \<and> ctx_config r' = ctx_config r"

lemma keeps_refl [simp]: "keeps lib r r"
  by (simp add: keeps_def)

lemma keeps_trans: "keeps lib r r' \<Longrightarrow> keeps lib r' r'' \<Longrightarrow> keeps lib r r''"
  by (simp add: keeps_def)

lemma serves_keeps: "serves lib fd r r' \<Longrightarrow> keeps lib r' r'' \<Longrightarrow> serves lib fd r r''"
  by (auto simp: serves_def keeps_def)

lemma keeps_serves: "keeps lib r r' \<Longrightarrow> serves lib fd r' r'' \<Longrightarrow> serves lib fd r r''"
  by (auto simp: serves_def keeps_def)

section \<open>The broadcaster\<close>

lemma fanout_talks:
  "talks (me_conn_fd ` set ms) st (fanout_loop lib env ev ms st)"
proof (induction ms arbitrary: st)
  case (Cons m ms)
  let ?st = "snd (router_send_event lib env (me_conn_fd m) (me_sub_id m) ev st)"
  have "talks (me_conn_fd ` set (m # ms)) st ?st" by (rule talks_mono [OF talks_event]) simp
  moreover have "talks (me_conn_fd ` set (m # ms)) ?st (fanout_loop lib env ev ms ?st)"
    using Cons by (rule talks_mono) auto
  ultimately show ?case using talks_trans by auto
qed simp

lemma match_keys:
  "sm_inv mgr \<Longrightarrow> set (map entry_key (sm_matches (sub_manager_match lib mgr ev))) =
    {k. \<exists>fs. sm_view mgr k = Some fs \<and> lib_filters_match lib fs ev}"
  using match_step [of mgr lib ev] by blast

lemma matches_owned:
  assumes "sm_inv mgr"
  shows "me_conn_fd ` set (sm_matches (sub_manager_match lib mgr ev)) \<subseteq> sub_owners mgr"
proof
  fix fd assume "fd \<in> me_conn_fd ` set (sm_matches (sub_manager_match lib mgr ev))"
  then obtain m where m: "m \<in> set (sm_matches (sub_manager_match lib mgr ev))" "fd = me_conn_fd m" by blast
  then have "entry_key m \<in> dom (sm_view mgr)"
    using match_keys [OF assms, of lib ev] by auto
  with m(2) show "fd \<in> sub_owners mgr" by (force simp: sub_owners_def entry_key_def)
qed

lemma broadcaster_step:
  assumes "sm_inv (g_sub_manager r)" and "broadcaster_fanout lib env ev (st, r) = (st', r')"
  shows "r' = r \<and> talks (sub_owners (g_sub_manager r)) st st'"
proof -
  let ?ms = "take (unat (match_count (sub_manager_match lib (g_sub_manager r) ev)))
      (sm_matches (sub_manager_match lib (g_sub_manager r) ev))"
  have "me_conn_fd ` set ?ms \<subseteq> sub_owners (g_sub_manager r)"
    using matches_owned [OF assms(1), of lib ev] by (auto dest: in_set_takeD)
  then have "talks (sub_owners (g_sub_manager r)) st (fanout_loop lib env ev ?ms st)"
    by (rule talks_mono [OF fanout_talks])
  moreover have "r' = r \<and> (st' = st \<or> st' = fanout_loop lib env ev ?ms st)"
    using assms(2) unfolding broadcaster_fanout_def Let_def prod.case by (auto split: if_splits)
  ultimately show ?thesis by auto
qed

section \<open>The handlers\<close>

lemma relay_deletion_step:
  assumes lib: "lib_ok lib"
  shows "keeps lib r (relay_deletion lib env ev r) \<and>
    next_file_index (eng (g_storage (relay_deletion lib env ev r))) = next_file_index (eng (g_storage r)) \<and>
    msg_tick (relay_deletion lib env ev r) = msg_tick r"
proof -
  let ?c = "\<lparr>sc_store = g_storage r, sc_tick = store_tick r, sc_heap = alloc r\<rparr>"
  obtain n c where d: "deletion_process lib (re_store env) ev ?c = (n, c)" by force
  have "store_inv lib (sc_store c)" if "store_inv lib (g_storage r)"
    using shrinks_inv [OF deletion_step [OF _ _ d]] lib that by (simp add: lib_ok_def)
  moreover have "next_file_index (eng (sc_store c)) = next_file_index (eng (g_storage r))"
    using calls_next_file [OF deletion_calls [of lib "re_store env" ?c ev]] d by simp
  ultimately show ?thesis using d by (simp add: relay_deletion_def keeps_def)
qed

lemma relay_save_step:
  assumes lib: "lib_ok lib" and valid: "lib_event_validate_full lib ev f now = NOSTR_RELAY_OK"
    and nowrap: "next_file_index (eng (g_storage r)) \<noteq> -1"
    and save: "relay_save lib env ev r = (e, r')"
  shows "keeps lib r r'"
proof -
  obtain s where s: "storage_save_event lib (re_store env (store_tick r)) ev (g_storage r) = (e, s)"
      "r' = r\<lparr>g_storage := s, store_tick := store_tick r + 1\<rparr>"
    using save by (auto simp: relay_save_def split: prod.splits)
  have ev: "length (ev_id ev) = 32" "codec_ok lib ev" using lib valid by (auto simp: lib_ok_def)
  have "store_inv lib s" if inv: "store_inv lib (g_storage r)"
    using save_step [OF _ _ _ ev(2,1) nowrap s(1)] inv by (simp add: store_inv_def)
  then show ?thesis using s(2) by (simp add: keeps_def)
qed

lemma handle_event_step:
  assumes lib: "lib_ok lib" and sm: "sm_inv (g_sub_manager r)"
    and nowrap: "next_file_index (eng (g_storage r)) \<noteq> -1"
    and he: "handle_event lib env fd ev (st, r) = (e, (st', r'))"
  shows "keeps lib r r' \<and> talks (sub_owners (g_sub_manager r)) st st'"
proof -
  define config where "config = \<lparr>vc_max_event_age_sec = cfg_max_event_age_sec (ctx_config r),
      vc_max_future_sec = cfg_max_future_sec (ctx_config r), vc_min_pow_difficulty = 0, vc_check_duplicates = True\<rparr>"
  define result where "result = validator_check_event lib (re_now_lib env (msg_tick r)) (re_now env (msg_tick r)) ev
      config (ctx_storage r)"
  define r1 where "r1 = (if ev_kind ev = NOSTR_KIND_DELETION \<and> ctx_storage r then relay_deletion lib env ev r else r)"
  have r1: "keeps lib r r1" "next_file_index (eng (g_storage r1)) \<noteq> -1"
    using relay_deletion_step [OF lib, of r env ev] nowrap by (simp_all add: r1_def)
  note he = he [unfolded handle_event_def Let_def prod.case, folded config_def, folded result_def, folded r1_def]
  show ?thesis
  proof (cases "result = VALIDATION_OK")
    case False
    then show ?thesis using he by simp
  next
    case True
    then have valid: "lib_event_validate_full lib ev (vc_max_future_sec config) (re_now_lib env (msg_tick r)) = NOSTR_RELAY_OK"
      by (simp add: result_def check_ok_iff acceptable_def)
    show ?thesis
    proof (cases "\<not> lib_kind_is_ephemeral lib (ev_kind ev) \<and> ctx_storage r1")
      case False
      then have "broadcaster_fanout lib env ev (st, r1) = (st', r')" using he True by auto
      from broadcaster_step [OF _ this] r1(1) sm show ?thesis by (simp add: keeps_def)
    next
      case stored: True
      obtain e2 r2 where s: "relay_save lib env ev r1 = (e2, r2)" by force
      have k: "keeps lib r r2"
        using keeps_trans [OF r1(1) relay_save_step [OF lib valid r1(2) s]] .
      show ?thesis
      proof (cases "e2 \<noteq> STORAGE_OK \<and> e2 \<noteq> STORAGE_ERR_DUPLICATE")
        case True
        then show ?thesis using he \<open>result = VALIDATION_OK\<close> stored s k by simp
      next
        case False
        then have "broadcaster_fanout lib env ev (st, r2) = (st', r')"
          using he \<open>result = VALIDATION_OK\<close> stored s by auto
        from broadcaster_step [OF _ this] k sm show ?thesis by (simp add: keeps_def)
      qed
    qed
  qed
qed

lemma req_events_talks: "talks {fd} st (snd (req_events_loop lib env fd sid evs sent st))"
proof (induction evs arbitrary: sent st)
  case (Cons e es)
  let ?st = "snd (router_send_event lib env fd sid e st)"
  have "talks {fd} st (snd (req_events_loop lib env fd sid es sent' ?st))" for sent'
    using talks_trans [OF talks_event Cons] .
  with Cons show ?case by (simp add: Let_def)
qed simp

lemma relay_query_step:
  assumes "relay_query lib env f limit r = ((e, evs), r')"
  shows "keeps lib r r'"
proof -
  obtain s where s: "storage_query_events lib (re_store env (store_tick r)) f limit (g_storage r) = ((e, evs), s)"
      "r' = r\<lparr>g_storage := s, store_tick := store_tick r + 1\<rparr>"
    using assms by (auto simp: relay_query_def split: prod.splits)
  have "store_inv lib s" if "store_inv lib (g_storage r)"
    using engine.query_log [OF that s(1)] by blast
  then show ?thesis using s(2) by (simp add: keeps_def)
qed

lemma req_filters_step:
  "req_filters_loop lib env fd sid fs sent (st, r) = (st', r') \<Longrightarrow> keeps lib r r' \<and> talks {fd} st st'"
proof (induction fs arbitrary: sent st r)
  case (Cons f fs)
  obtain e evs r1 where q: "relay_query lib env f (req_limit f) r = ((e, evs), r1)" by (metis prod.collapse)
  obtain sent1 st1 where l: "(if e = STORAGE_OK then req_events_loop lib env fd sid evs sent st else (sent, st)) = (sent1, st1)"
    by force
  have "talks {fd} st st1"
    using l req_events_talks [of fd st lib env sid evs sent] by (auto split: if_splits)
  moreover have "req_filters_loop lib env fd sid fs sent1 (st1, r1) = (st', r')"
    using Cons.prems q l by (simp add: Let_def)
  ultimately show ?case
    using Cons.IH relay_query_step [OF q] keeps_trans talks_trans by blast
qed simp

lemma handle_req_step:
  assumes sid: "length sid \<le> SUB_MAX_ID_LEN" and hr: "handle_req lib env fd sid fs (st, r) = (st', r')"
  shows "serves lib fd r r' \<and> g_rate_limiter r' = g_rate_limiter r \<and> talks {fd} st st'"
proof (cases "ctx_sub_manager r")
  case False
  then have "r' = r" "st' = snd (router_send_eose lib env fd sid st)" using hr by (simp_all add: handle_req_def)
  then show ?thesis by simp
next
  case True
  obtain err mgr h where add: "sub_manager_add lib (g_sub_manager r) fd sid fs (alloc r) = (err, mgr, h)"
    by (metis prod_cases3)
  define r1 where "r1 = r\<lparr>g_sub_manager := mgr, alloc := h\<rparr>"
  have u: "sub_uses lib fd (g_sub_manager r) mgr" using add sid unfolding sub_uses_def by blast
  have s1: "serves lib fd r r1" "g_rate_limiter r1 = g_rate_limiter r"
    using u by (simp_all add: serves_def r1_def rate_uses_def)
  note hr = hr [unfolded handle_req_def Let_def prod.case add, folded r1_def]
  show ?thesis
  proof (cases "err = NOSTR_RELAY_OK")
    case False
    then show ?thesis using hr True s1 by auto
  next
    case ok: True
    obtain b h2 where m: "malloc (alloc r1) = (b, h2)" by force
    obtain st2 r2 where l: "(if ctx_storage r1 then req_filters_loop lib env fd sid fs (if b then Some [] else None)
          (st, r1\<lparr>alloc := h2\<rparr>) else (st, r1)) = (st2, r2)" by force
    have "keeps lib r1 (r1\<lparr>alloc := h2\<rparr>)" by (simp add: keeps_def)
    then have "keeps lib r1 r2 \<and> talks {fd} st st2"
      using l req_filters_step keeps_trans by (auto split: if_splits)
    moreover have "st' = snd (router_send_eose lib env fd sid st2)" "r' = r2"
      using hr True ok m l by (auto split: if_splits)
    moreover from calculation have "g_rate_limiter r2 = g_rate_limiter r1" by (simp add: keeps_def)
    ultimately show ?thesis using serves_keeps [OF s1(1)] s1(2) talks_trans talks_replies(3) by metis
  qed
qed

lemma handle_close_step:
  "handle_close lib fd sid r = (e, r') \<Longrightarrow> serves lib fd r r'"
  by (auto simp: handle_close_def serves_def rate_uses_def sub_uses_def split: if_splits prod.splits)

section \<open>Messages\<close>

lemma rate_limited_step:
  assumes "rate_limited env fd ty r = (b, r')"
  shows "serves lib fd r r' \<and> g_storage r' = g_storage r \<and> g_sub_manager r' = g_sub_manager r"
proof (cases "ctx_rate_limiter r")
  case True
  obtain allowed rl where c: "rate_limiter_check (g_rate_limiter r) fd ty (re_timer_open env (msg_tick r))
      (re_timer env (msg_tick r)) = (allowed, rl)" by force
  then have "r' = r\<lparr>g_rate_limiter := rl\<rparr>" using assms True by (simp add: rate_limited_def)
  moreover have "rate_uses fd (g_rate_limiter r) rl" using c unfolding rate_uses_def by blast
  ultimately show ?thesis by (simp add: serves_def sub_uses_def)
qed (use assms in \<open>simp add: rate_limited_def\<close>)

lemma core_owned: "core_inv lib fds r \<Longrightarrow> sm_inv (g_sub_manager r) \<and> sub_owners (g_sub_manager r) \<subseteq> fds"
  by (simp add: core_inv_def)

lemma keeps_inv: "core_inv lib fds r \<Longrightarrow> keeps lib r r' \<Longrightarrow> core_inv lib fds r'"
  by (simp add: core_inv_def keeps_def)

lemma talks_one: "fd \<in> fds \<Longrightarrow> talks {fd} st st' \<Longrightarrow> talks fds st st'"
  by (rule talks_mono) auto

text \<open>What follows the rate limiter uses it no more, so its own use counts for the message.\<close>

lemma limited_serves:
  assumes l: "rate_limited env fd ty r = (b, r1)" and h: "serves lib fd r1 r2" and same: "g_rate_limiter r2 = g_rate_limiter r1"
  shows "serves lib fd r r2"
proof -
  note s = rate_limited_step [OF l, of lib]
  then show ?thesis using h same by (simp add: serves_def)
qed

lemma dispatch_event_step:
  assumes lib: "lib_ok lib" and inv: "core_inv lib fds r" and fd: "fd \<in> fds"
    and nowrap: "next_file_index (eng (g_storage r)) \<noteq> -1"
    and d: "dispatch_event lib env fd ev (st, r) = (st', r')"
  shows "serves lib fd r r' \<and> talks fds st st'"
proof -
  obtain b r1 where l: "rate_limited env fd RATE_TYPE_EVENT r = (b, r1)" by force
  note s = rate_limited_step [OF l, of lib]
  have inv1: "core_inv lib fds r1" using serves_inv [OF inv fd] s by blast
  show ?thesis
  proof (cases b)
    case True
    then have "r' = r1" "talks {fd} st st'" using d l by (auto simp: dispatch_event_def)
    with s talks_one [OF fd] show ?thesis by blast
  next
    case False
    obtain e st2 r2 where h: "handle_event lib env fd ev (st, r1) = (e, (st2, r2))" by (metis prod.collapse)
    have "keeps lib r1 r2 \<and> talks (sub_owners (g_sub_manager r1)) st st2"
      using handle_event_step [OF lib _ _ h] core_owned [OF inv1] s nowrap by simp
    then have k: "serves lib fd r r2" "talks fds st st2"
      using serves_keeps s talks_mono core_owned [OF inv1] by blast+
    have "r' = r2" "\<exists>i a m. st' = snd (router_send_ok lib env fd i a m st2)"
      using d l h False by (auto simp: dispatch_event_def Let_def)
    then have "talks fds st2 st'" using talks_one [OF fd] talks_replies(2) by blast
    with k \<open>r' = r2\<close> talks_trans show ?thesis by blast
  qed
qed

lemma dispatch_req_step:
  assumes inv: "core_inv lib fds r" and fd: "fd \<in> fds"
    and d: "dispatch_req lib env fd sid fs (st, r) = (st', r')"
  shows "serves lib fd r r' \<and> talks fds st st'"
proof -
  obtain b r1 where l: "rate_limited env fd RATE_TYPE_REQ r = (b, r1)" by force
  note s = rate_limited_step [OF l, of lib]
  show ?thesis
  proof (cases "b \<or> length sid = 0 \<or> ROUTER_MAX_SUB_ID < length sid \<or> ROUTER_MAX_FILTERS < length fs")
    case True
    then have "r' = r1" "talks {fd} st st'" using d l by (auto simp: dispatch_req_def split: if_splits)
    with s talks_one [OF fd] show ?thesis by blast
  next
    case False
    then have "handle_req lib env fd sid fs (st, r1) = (st', r')" using d l by (simp add: dispatch_req_def)
    from handle_req_step [OF _ this] False
    have "serves lib fd r1 r' \<and> g_rate_limiter r' = g_rate_limiter r1 \<and> talks {fd} st st'"
      by (simp add: SUB_MAX_ID_LEN_def ROUTER_MAX_SUB_ID_def)
    with limited_serves [OF l] talks_one [OF fd] show ?thesis by blast
  qed
qed

lemma dispatch_close_step:
  assumes inv: "core_inv lib fds r" and fd: "fd \<in> fds"
    and d: "dispatch_close lib env fd sid (st, r) = (st', r')"
  shows "serves lib fd r r' \<and> talks fds st st'"
proof -
  obtain e r1 where c: "handle_close lib fd sid r = (e, r1)" by force
  then have "r' = r1" "talks {fd} st st'" using d by (auto simp: dispatch_close_def split: if_splits)
  with handle_close_step [OF c] talks_one [OF fd] show ?thesis by blast
qed

lemma message_serves:
  assumes lib: "lib_ok lib" and inv: "core_inv lib fds r" and fd: "fd \<in> fds"
    and nowrap: "next_file_index (eng (g_storage r)) \<noteq> -1"
    and m: "on_ws_message lib env fd data (st, r) = (st', r')"
  shows "serves lib fd r r' \<and> talks fds st st'"
proof -
  let ?r = "r\<lparr>msg_tick := msg_tick r + 1\<rparr>"
  have inv': "core_inv lib fds ?r" using inv by (simp add: core_inv_def)
  have nowrap': "next_file_index (eng (g_storage ?r)) \<noteq> -1" using nowrap by simp
  have tick: "serves lib fd r ?r" by (simp add: serves_def sub_uses_def rate_uses_def)
  have ticked: "serves lib fd ?r r' \<Longrightarrow> serves lib fd r r'" by (simp add: serves_def)
  obtain e msg where p: "router_parse lib data = (e, msg)" by force
  consider (len) "length data = 0 \<or> WS_MAX_FRAME_SIZE < length data"
    | (err) "\<not> (length data = 0 \<or> WS_MAX_FRAME_SIZE < length data)" "e \<noteq> NOSTR_RELAY_OK"
    | (ok) "\<not> (length data = 0 \<or> WS_MAX_FRAME_SIZE < length data)" "e = NOSTR_RELAY_OK" by blast
  then show ?thesis
  proof cases
    case len
    then show ?thesis using m tick by (auto simp: on_ws_message_def Let_def)
  next
    case err
    then have "r' = ?r" "talks {fd} st st'" using m p by (auto simp: on_ws_message_def Let_def)
    with tick talks_one [OF fd] show ?thesis by blast
  next
    case ok
    then have d: "router_dispatch lib env fd msg (st, ?r) = (st', r')"
      using m p by (simp add: on_ws_message_def Let_def)
    show ?thesis
    proof (cases msg)
      case (ROUTER_MSG_EVENT ev)
      with d show ?thesis
        using dispatch_event_step [OF lib inv' fd nowrap'] ticked by (auto simp: router_dispatch_def)
    next
      case (ROUTER_MSG_REQ sid fs)
      with d show ?thesis using dispatch_req_step [OF inv' fd] ticked by (auto simp add: router_dispatch_def)
    next
      case (ROUTER_MSG_CLOSE sid)
      with d show ?thesis using dispatch_close_step [OF inv' fd] ticked by (auto simp add: router_dispatch_def)
    qed (use d tick talks_one [OF fd] in \<open>auto simp: router_dispatch_def\<close>)
  qed
qed

lemma message_step:
  assumes lib: "lib_ok lib" and inv: "core_inv lib fds r" and fd: "fd \<in> fds"
    and nowrap: "next_file_index (eng (g_storage r)) \<noteq> -1"
    and m: "on_ws_message lib env fd data (st, r) = (st', r')"
  shows "core_inv lib fds r' \<and> talks fds st st'"
  using message_serves [OF assms] serves_inv [OF inv fd] by blast

end
