(* ===== verification/Relay_Start.thy ===== *)
theory Relay_Start
  imports Relay_Invariant
begin

text \<open>
  Starting the relay: a start whose outside calls all succeed establishes the invariant, any
  other start leaves everything switched off, so that a later one may try again.
\<close>

lemma ws_started:
  assumes "ws_server_init env st = (ESP_OK, st')"
  shows "ws_inv (ws st') \<and> open_fds (ws st') = {} \<and> g_server st' \<and> g_message_callback st' \<and>
    g_current_req st' = g_current_req st"
proof -
  have "count_slots wc_active (replicate n zero_connection) = 0" for n
    by (auto simp: count_slots_0 zero_connection_def)
  moreover have "connections (ws st') = replicate WS_MAX_CONNECTIONS zero_connection"
      "connection_count (ws st') = 0" "g_server st'" "g_message_callback st'" "g_current_req st' = g_current_req st"
    using assms by (auto simp: ws_server_init_def Let_def split: if_splits)
  ultimately show ?thesis
    by (simp add: ws_inv_def ws_view_def conn_table.distinct_blank conn_table.all_blank)
qed


section \<open>Starting\<close>

text \<open>
  The state before a start: no server, no pointer in the context, nothing registered.  A boot
  begins in it (the objects are static), and \<open>start_fails\<close> shows that a failed start
  returns to it, so that a later start may try again.
\<close>

definition relay_off :: "relay \<Rightarrow> bool" where
  "relay_off rel \<longleftrightarrow> \<not> ws_server_is_running (fst rel) \<and> \<not> g_server (fst rel) \<and>
     g_current_req (fst rel) = None \<and> \<not> ctx_sub_manager (snd rel) \<and> \<not> ctx_storage (snd rel) \<and>
     \<not> ctx_rate_limiter (snd rel) \<and>
     \<not> initialized (eng (g_storage (snd rel))) \<and> \<not> cleanup_task (eng (g_storage (snd rel)))"

text \<open>Every outside call of a start succeeds.\<close>

definition boot_ok :: "boot_env \<Rightarrow> bool" where
  "boot_ok b \<longleftrightarrow> bo_sub_mutex b \<and> init_ok (bo_storage b) \<and> bo_task b \<and>
     st_mutex (bo_ws b) \<and> st_start (bo_ws b) = ESP_OK \<and> st_register_ws (bo_ws b) = ESP_OK"

lemma init_fails:
  assumes "storage_init ienv env ttl s = (e, s')" and "\<not> init_ok ienv"
  shows "e \<noteq> ESP_OK \<and> \<not> initialized (eng s') \<and> \<not> cleanup_task (eng s')"
  using assms by (auto simp: storage_init_def init_ok_def Let_def fresh_engine_def split: if_splits)

lemma destroy_off:
  "initialized (eng s) \<Longrightarrow> \<not> initialized (eng (storage_destroy env s)) \<and> \<not> cleanup_task (eng (storage_destroy env s))"
  by (simp add: storage_destroy_def persist_def Let_def)

lemma init_succeeds: "init_ok ienv \<Longrightarrow> \<exists>s'. storage_init ienv env ttl s = (ESP_OK, s') \<and> initialized (eng s')"
  by (auto simp: init_eq Let_def split: prod.split)

lemma task_result: "storage_start_cleanup_task b s = (e, s') \<Longrightarrow> (e = ESP_OK \<longleftrightarrow> b) \<and>
    initialized (eng s') = initialized (eng s) \<and> (e \<noteq> ESP_OK \<longrightarrow> \<not> cleanup_task (eng s'))"
  by (auto simp: storage_start_cleanup_task_def Let_def split: if_splits)

lemma ws_init_result:
  assumes "ws_server_init env st = (e, st')" and "\<not> ws_server_is_running st" and "\<not> g_server st"
  shows "(e = ESP_OK \<longleftrightarrow> st_mutex env \<and> st_start env = ESP_OK \<and> st_register_ws env = ESP_OK) \<and>
    g_current_req st' = g_current_req st \<and> (e \<noteq> ESP_OK \<longrightarrow> \<not> ws_server_is_running st' \<and> \<not> g_server st')"
  using assms
  by (auto simp: ws_server_init_def ws_server_is_running_def cleanup_server_init_def Let_def split: if_splits)

lemma start_fails:
  assumes off: "relay_off (st, r)" and bad: "\<not> boot_ok b"
    and st: "start_relay_server lib b (st, r) = (st', r')"
  shows "relay_off (st', r')"
proof -
  note off' = off [unfolded relay_off_def fst_conv snd_conv]
  note d = st [unfolded start_relay_server_def Let_def prod.case]
  obtain s1 e1 where i: "storage_init (bo_storage b) (bo_load b) (cfg_max_event_age_sec relay_defaults) (g_storage r) = (e1, s1)"
    by force
  have e1: "(e1 = ESP_OK \<longleftrightarrow> init_ok (bo_storage b)) \<and> (e1 = ESP_OK \<longrightarrow> initialized (eng s1)) \<and>
      (e1 \<noteq> ESP_OK \<longrightarrow> \<not> initialized (eng s1) \<and> \<not> cleanup_task (eng s1))"
    using i init_fails [OF i] init_succeeds by (metis prod.inject)
  obtain e2 s2 where t: "storage_start_cleanup_task (bo_task b) s1 = (e2, s2)" by force
  obtain e3 st3 where w: "ws_server_init (bo_ws b) st = (e3, st3)" by force
  have ws: "(e3 = ESP_OK \<longleftrightarrow> st_mutex (bo_ws b) \<and> st_start (bo_ws b) = ESP_OK \<and> st_register_ws (bo_ws b) = ESP_OK) \<and>
      g_current_req st3 = g_current_req st \<and> (e3 \<noteq> ESP_OK \<longrightarrow> \<not> ws_server_is_running st3 \<and> \<not> g_server st3)"
    using ws_init_result [OF w] off' by blast
  show ?thesis
    using d off' bad e1 task_result [OF t] ws destroy_off [of s2 "bo_destroy b"]
    unfolding boot_ok_def relay_off_def
    by (auto simp: i t w sub_manager_init_def cleanup_relay_resources_def Let_def split: if_splits)
qed

lemma task_inv:
  assumes "storage_start_cleanup_task b s = (e, s')"
  shows "st_inv lib s' = st_inv lib s \<and> stored lib s' = stored lib s"
proof -
  have eq: "idx (eng s') = idx (eng s)" "max_index_entries (eng s') = max_index_entries (eng s)"
      "index_count (eng s') = index_count (eng s)" "next_file_index (eng s') = next_file_index (eng s)"
      "files s' = files s"
    using assms by (auto simp: storage_start_cleanup_task_def Let_def split: if_splits)
  then have "used (eng s') = used (eng s)" "file_event lib s' = file_event lib s"
    by (auto simp: used_def file_event_def)
  then show ?thesis by (simp add: st_inv_def stored_def live_def eq)
qed

lemma start_succeeds:
  assumes off: "relay_off (st, r)" and ok: "boot_ok b"
    and st: "start_relay_server lib b (st, r) = (st', r')"
  obtains s where "storage_init (bo_storage b) (bo_load b) (cfg_max_event_age_sec relay_defaults) (g_storage r) = (ESP_OK, s)"
    and "ws_server_is_running st'" and "open_fds (ws st') = {}"
    and "initialized (eng (g_storage r'))" and "st_inv lib (g_storage r') = st_inv lib s"
    and "stored lib (g_storage r') = stored lib s"
    and "lib_ok lib \<Longrightarrow> st_inv lib s \<Longrightarrow> relay_inv lib (st', r')"
proof -
  note off' = off [unfolded relay_off_def fst_conv snd_conv]
  note d = st [unfolded start_relay_server_def Let_def prod.case]
  obtain s1 where i: "storage_init (bo_storage b) (bo_load b) (cfg_max_event_age_sec relay_defaults) (g_storage r) = (ESP_OK, s1)"
      "initialized (eng s1)"
    using init_succeeds ok unfolding boot_ok_def by meson
  obtain e2 s2 where t: "storage_start_cleanup_task (bo_task b) s1 = (e2, s2)" by force
  obtain e3 st3 where w: "ws_server_init (bo_ws b) st = (e3, st3)" by force
  have "e2 = ESP_OK" "e3 = ESP_OK"
    using task_result [OF t] ws_init_result [OF w] off' ok by (simp_all add: boot_ok_def)
  note w = w [unfolded this(2)] and t = t [unfolded this(1)]
  have t': "storage_start_cleanup_task True s1 = (ESP_OK, s2)" using t ok by (simp add: boot_ok_def)
  have r': "st' = ws_server_set_disconnect_cb st3" "g_storage r' = s2" "ctx_sub_manager r'" "ctx_storage r'"
      "ctx_rate_limiter r'" "g_sub_manager r' = snd (sub_manager_init True)"
      "g_rate_limiter r' = rate_limiter_init (Some \<lparr>events_per_minute = 30, reqs_per_minute = 60\<rparr>) (bo_rate_mutex b)"
    using d off' ok by (auto simp: i t' w sub_manager_init_def boot_ok_def)
  have c: "ctx_config r' = relay_defaults" "rl_config (g_rate_limiter r') = relay_limits"
    using d off' ok r'(7)
    by (auto simp: i t' w sub_manager_init_def boot_ok_def rate_limiter_init_def relay_limits_def)
  have ws: "ws_inv (ws st3)" "open_fds (ws st3) = {}" "g_server st3" "g_message_callback st3"
      "g_current_req st3 = None" "ws_server_is_running st3"
    using ws_started [OF w] off' w
    by (auto simp: ws_server_is_running_def ws_server_init_def Let_def split: if_splits)
  have inv: "relay_inv lib (st', r')" if "lib_ok lib" "st_inv lib s1"
  proof -
    have "store_inv lib s2"
      using that task_inv [OF t] task_result [OF t] i(2) by (simp add: store_inv_def lib_ok_def)
    moreover have "sub_owners (snd (sub_manager_init True)) = {}"
      using init_step [of True] by (simp add: sub_owners_def)
    ultimately show ?thesis
      using ws r' init_step [of True] init_inv c
      by (simp add: relay_inv_def core_inv_def rl_ok_def ws_server_set_disconnect_cb_def ws_server_is_running_def)
  qed
  show thesis
    using that [OF i(1) _ _ _ _ _ inv] ws r' task_inv [OF t] task_result [OF t] i(2)
    by (simp add: ws_server_set_disconnect_cb_def ws_server_is_running_def)
qed

end
