(* ===== verification/Relay_System.thy ===== *)
theory Relay_System
  imports Relay_Start
begin

text \<open>
  The running relay: its steps, the states it can reach, and what holds in all of them.
\<close>

section \<open>The running system\<close>

text \<open>
  One step: a socket opens (while not open), a socket closes, a request of an open socket is
  handled, the HTTP server runs a queued send, or the cleanup task runs a round.  The HTTP server
  runs its callbacks and queued work in one task; the storage mutex makes the storage calls of the
  cleanup task atomic, and the model lets a round run between messages, with any two of the
  environments of the run.  A message is handled while the 32-bit file counter has not run out.
\<close>

inductive relay_step :: "nostr_lib \<Rightarrow> relay_env \<Rightarrow> relay \<Rightarrow> relay \<Rightarrow> bool" for lib env where
  step_open: "fd \<notin> open_fds (ws st) \<Longrightarrow> on_open us peer fd st = (e, st') \<Longrightarrow>
    relay_step lib env (st, r) (st', r)"
| step_close: "on_close (on_ws_disconnect lib) fd (st, r) = (st', r') \<Longrightarrow>
    relay_step lib env (st, r) (st', r')"
| step_request: "rq_fd req \<in> open_fds (ws st) \<Longrightarrow> next_file_index (eng (g_storage r)) \<noteq> -1 \<Longrightarrow>
    ws_handler (on_ws_message lib env) req (st, r) = (e, (st', r')) \<Longrightarrow>
    relay_step lib env (st, r) (st', r')"
| step_work: "relay_step lib env (st, r) (ws_async_send st, r)"
| step_cleanup: "cleanup_cycle lib (re_store env i) (re_store env j) (c, g_storage r) = (c', s') \<Longrightarrow>
    relay_step lib env (st, r) (st, r\<lparr>g_storage := s'\<rparr>)"

inductive_cases relay_stepE: "relay_step lib env rel rel'"

text \<open>
  A relay is reachable if \<open>start_relay_server\<close> started it from a switched-off state with a
  store on flash that is valid once loaded, and it then took steps.
\<close>

inductive reachable :: "nostr_lib \<Rightarrow> relay_env \<Rightarrow> relay \<Rightarrow> bool" for lib env where
  reach_boot: "relay_off (st0, r0) \<Longrightarrow> boot_ok b \<Longrightarrow>
    storage_init (bo_storage b) (bo_load b) (cfg_max_event_age_sec relay_defaults) (g_storage r0) = (ESP_OK, s) \<Longrightarrow>
    st_inv lib s \<Longrightarrow> start_relay_server lib b (st0, r0) = (st, r) \<Longrightarrow> reachable lib env (st, r)"
| reach_step: "reachable lib env rel \<Longrightarrow> relay_step lib env rel rel' \<Longrightarrow> reachable lib env rel'"

section \<open>Every step keeps the invariant\<close>

definition sys_inv :: "nostr_lib \<Rightarrow> relay \<Rightarrow> bool" where
  "sys_inv lib rel \<longleftrightarrow> lib_ok lib \<and> relay_inv lib rel"

text \<open>What a server operation that concerns no socket leaves.\<close>

definition same_table :: "ws_state \<Rightarrow> ws_state \<Rightarrow> bool" where
  "same_table st st' \<longleftrightarrow> (ws_inv (ws st) \<longrightarrow> ws_inv (ws st') \<and> open_fds (ws st') = open_fds (ws st)) \<and>
     ws_httpd (ws st') = ws_httpd (ws st) \<and>
     g_server st' = g_server st \<and> g_message_callback st' = g_message_callback st \<and>
     g_disconnect_callback st' = g_disconnect_callback st"

lemma same_table_refl [simp]: "same_table st st"
  by (simp add: same_table_def)

lemma same_table_trans: "same_table st st' \<Longrightarrow> same_table st' st'' \<Longrightarrow> same_table st st''"
  by (simp add: same_table_def)

lemma same_table_emit [simp]: "same_table st (emit out st)"
  by (simp add: same_table_def emit_def)

lemma emit_outbox: "outbox (emit out st) = outbox st @ [out]"
  by (simp add: emit_def)

lemma same_table_talks: "talks fds st st' \<Longrightarrow> same_table st st'"
  by (simp add: same_table_def talks_def)

lemma activity_httpd [simp]: "ws_httpd (update_connection_activity us fd srv) = ws_httpd srv"
  by (simp add: update_connection_activity_def set_connection_def split: option.split)

lemma same_table_activity [simp]:
  "same_table st (st\<lparr>ws := update_connection_activity us fd (ws st)\<rparr>)"
  using activity_step [of "ws st" us fd] by (simp add: same_table_def)

lemma same_table_req [simp]: "same_table st (st\<lparr>g_current_req := q\<rparr>)"
  by (simp add: same_table_def)

lemma same_table_work: "same_table st (ws_async_send st)"
  by (simp add: ws_async_send_def same_table_def emit_def split: list.split)

text \<open>The states a request that is no message can leave.\<close>

lemma handler_quiet_states:
  assumes "\<not> delivers req st" and "g_message_callback st"
  shows "fst (snd (ws_handler on_message req (st, r))) \<in>
      (let st1 = (if g_server st then st\<lparr>ws := update_connection_activity (rq_time req) (rq_fd req) (ws st)\<rparr> else st)
       in {st, nip11_handler (rq_accept req) st, st1, emit (Out_Frame (rq_fd req) WS_PONG (rq_payload req)) st1,
        emit (Out_Frame (rq_fd req) WS_CLOSE '''') st1})"
  using assms
  by (cases "rq_type req") (auto simp: ws_handler_def Let_def delivers_def WS_MAX_FRAME_SIZE_def split: if_splits)

lemma handler_quiet_step:
  assumes "\<not> delivers req st" and "g_message_callback st"
  shows "same_table st (fst (snd (ws_handler on_message req (st, r)))) \<and>
    (\<exists>out. outbox (fst (snd (ws_handler on_message req (st, r)))) = outbox st @ out \<and>
       (\<forall>x \<in> set out. \<forall>fd. out_fd x = Some fd \<longrightarrow> fd = rq_fd req))"
proof -
  let ?st1 = "(if g_server st then st\<lparr>ws := update_connection_activity (rq_time req) (rq_fd req) (ws st)\<rparr> else st)"
  have a: "same_table st ?st1" "outbox ?st1 = outbox st" by simp_all
  show ?thesis
    using handler_quiet_states [OF assms, of on_message r] a same_table_trans [OF a(1) same_table_emit]
    unfolding Let_def nip11_handler_def by (auto simp: emit_outbox)
qed

lemma relay_inv_table:
  assumes "relay_inv lib (st, r)" and "same_table st st'" and "g_current_req st' = None"
    and "core_inv lib (open_fds (ws st)) r'"
  shows "relay_inv lib (st', r')"
  using assms by (simp add: relay_inv_def same_table_def)

lemma core_inv_mono: "core_inv lib fds r \<Longrightarrow> fds \<subseteq> fds' \<Longrightarrow> core_inv lib fds' r"
  unfolding core_inv_def by blast

lemma open_inv:
  assumes inv: "relay_inv lib (st, r)" and new: "fd \<notin> open_fds (ws st)"
    and op: "on_open us peer fd st = (e, st')"
  shows "relay_inv lib (st', r)"
proof -
  have "ws_inv (ws st)" using inv by (simp add: relay_inv_def)
  note o = on_open_step [OF this new op]
  have "open_fds (ws st) \<subseteq> open_fds (ws st')" using o by (auto split: if_splits)
  moreover have "g_server st' = g_server st" "g_message_callback st' = g_message_callback st"
      "g_disconnect_callback st' = g_disconnect_callback st" "g_current_req st' = g_current_req st"
      "ws_httpd (ws st') = ws_httpd (ws st)"
    using op by (auto simp: on_open_def Let_def set_connection_def split: if_splits option.splits)
  moreover have "ws_inv (ws st')" using o by blast
  ultimately show ?thesis
    using inv core_inv_mono [of lib "open_fds (ws st)" r "open_fds (ws st')"] by (simp add: relay_inv_def)
qed

lemma close_inv:
  assumes inv: "relay_inv lib (st, r)" and cl: "on_close (on_ws_disconnect lib) fd (st, r) = (st', r')"
  shows "relay_inv lib (st', r') \<and> open_fds (ws st') = open_fds (ws st) - {fd}"
proof -
  have w: "ws_inv (ws st)" "g_server st" "g_disconnect_callback st" "core_inv lib (open_fds (ws st)) r"
    using inv by (simp_all add: relay_inv_def)
  note c = on_close_step [OF w(1) cl]
  then have fds: "open_fds (ws st') = open_fds (ws st) - {fd}" and r': "r' = on_ws_disconnect lib fd r"
    using w by simp_all
  have "core_inv lib (open_fds (ws st) - {fd}) r'"
    using w(4) sub_resource.close_owned [of "g_sub_manager r" "open_fds (ws st)" lib fd]
      rate_resource.close_owned [of "g_rate_limiter r" "open_fds (ws st)" fd]
    by (simp add: core_inv_def r' on_ws_disconnect_def)
  moreover have "g_server st' = g_server st" "g_message_callback st' = g_message_callback st"
      "g_disconnect_callback st' = g_disconnect_callback st" "g_current_req st' = g_current_req st"
      "ws_httpd (ws st') = ws_httpd (ws st)"
    using cl by (auto simp: on_close_def Let_def set_connection_def split: if_splits option.splits)
  moreover have "ws_inv (ws st')" using c by blast
  ultimately show ?thesis using w inv fds by (simp add: relay_inv_def)
qed

text \<open>A request: what the message callback sees and leaves.\<close>

lemma request_step:
  assumes lib: "lib_ok lib" and inv: "relay_inv lib (st, r)" and fd: "rq_fd req \<in> open_fds (ws st)"
    and nowrap: "next_file_index (eng (g_storage r)) \<noteq> -1"
    and h: "ws_handler (on_ws_message lib env) req (st, r) = (e, (st', r'))"
  shows "relay_inv lib (st', r') \<and> open_fds (ws st') = open_fds (ws st) \<and>
    (\<exists>out. outbox st' = outbox st @ out \<and> (\<forall>x \<in> set out. \<forall>fd. out_fd x = Some fd \<longrightarrow> fd \<in> open_fds (ws st)))"
proof (cases "delivers req st")
  case False
  have "r' = r" "g_current_req st' = g_current_req st" using handler_quiet [OF False, of "on_ws_message lib env" r] h by simp_all
  moreover have tab: "same_table st st'" and
      "\<exists>out. outbox st' = outbox st @ out \<and> (\<forall>x \<in> set out. \<forall>fd. out_fd x = Some fd \<longrightarrow> fd = rq_fd req)"
    using handler_quiet_step [OF False, of "on_ws_message lib env" r] inv h by (simp_all add: relay_inv_def)
  moreover have "core_inv lib (open_fds (ws st)) r" "g_current_req st = None" using inv by (simp_all add: relay_inv_def)
  moreover have "open_fds (ws st') = open_fds (ws st)" using tab inv by (simp add: relay_inv_def same_table_def)
  ultimately show ?thesis using relay_inv_table [OF inv] fd by metis
next
  case True
  let ?st1 = "(if g_server st then st\<lparr>ws := update_connection_activity (rq_time req) (rq_fd req) (ws st)\<rparr> else st)
      \<lparr>g_current_req := Some (rq_fd req)\<rparr>"
  obtain st2 where m: "on_ws_message lib env (rq_fd req) (rq_payload req) (?st1, r) = (st2, r')"
    and st': "st' = st2\<lparr>g_current_req := None\<rparr>"
    using h handler_delivers [OF True, of "on_ws_message lib env" r] by (auto simp: Let_def split: prod.splits)
  have core: "core_inv lib (open_fds (ws st)) r" using inv by (simp add: relay_inv_def)
  have c: "core_inv lib (open_fds (ws st)) r'" and t: "talks (open_fds (ws st)) ?st1 st2"
    using message_step [OF lib core fd nowrap m] by blast+
  have "same_table st ?st1"
    using same_table_trans [OF same_table_activity same_table_req, of st] by simp
  then have tab: "same_table st st'"
    unfolding st' using same_table_trans [OF _ same_table_trans [OF same_table_talks [OF t] same_table_req]] by blast
  then have "relay_inv lib (st', r')" by (rule relay_inv_table [OF inv]) (simp_all add: st' c)
  moreover have "open_fds (ws st') = open_fds (ws st)" using tab inv by (simp add: relay_inv_def same_table_def)
  moreover obtain out where "outbox st2 = outbox ?st1 @ out" "\<forall>x \<in> set out. \<exists>fd \<in> open_fds (ws st). out_fd x = Some fd"
    using t unfolding talks_def by blast
  moreover have "outbox ?st1 = outbox st" by simp
  ultimately show ?thesis unfolding st' by auto
qed

lemma cleanup_inv:
  assumes inv: "store_inv lib s" and cyc: "cleanup_cycle lib env1 env2 (c, s) = (c', s')"
  shows "store_inv lib s'"
proof (cases "cleanup_stop (eng s)")
  case True
  with inv cyc show ?thesis by (simp add: cleanup_cycle_def)
next
  case False
  from cleanup_cycle_step [OF inv this cyc] show ?thesis by blast
qed

lemma relay_step_inv:
  assumes lib: "lib_ok lib" and step: "relay_step lib env rel rel'" and inv: "relay_inv lib rel"
  shows "relay_inv lib rel'"
  using step inv
proof (induction rule: relay_step.induct)
  case (step_open fd st us peer e st' r)
  then show ?case using open_inv by blast
next
  case (step_close fd st r st' r')
  then show ?case using close_inv by blast
next
  case (step_request req st r e st' r')
  then show ?case using request_step [OF lib] by blast
next
  case (step_work st r)
  moreover have "g_current_req (ws_async_send st) = g_current_req st"
    by (simp add: ws_async_send_def emit_def split: list.split)
  ultimately show ?case
    using relay_inv_table [OF _ same_table_work] unfolding relay_inv_def fst_conv snd_conv by metis
next
  case (step_cleanup i j c r c' s' st)
  from cleanup_inv [OF _ step_cleanup.hyps] step_cleanup.prems show ?case
    by (simp add: relay_inv_def core_inv_def)
qed

lemma reachable_inv:
  assumes "lib_ok lib" and "reachable lib env rel"
  shows "relay_inv lib rel"
  using assms(2)
proof (induction rule: reachable.induct)
  case (reach_boot st0 r0 b s st r)
  from start_succeeds [OF reach_boot(1,2,5)] reach_boot(3,4) assms(1) show ?case by (metis prod.inject)
next
  case (reach_step rel rel')
  then show ?case using relay_step_inv [OF assms(1)] by blast
qed

end
