(* ===== verification/Relay_Props.thy ===== *)
theory Relay_Props
  imports Relay_System
begin

text \<open>
  Properties of the running relay that span components: its fixed tables never run out for an
  open connection, nothing outlives its connection, frames go to open sockets only, and a start
  either succeeds as a whole or leaves nothing behind.
\<close>

section \<open>A concrete relay for the witnesses\<close>

definition off_ws :: ws_state where
  "off_ws = \<lparr>ws = \<lparr>ws_httpd = False, connections = [], ws_lock = False, connection_count = 0\<rparr>,
     g_server = False, g_message_callback = False, g_disconnect_callback = False, g_current_req = None,
     ws_queue = [], outbox = [], send_tick = 0\<rparr>"

definition off_core :: relay_core where
  "off_core = \<lparr>g_sub_manager = \<lparr>subs = [], sm_lock = False, active_count = 0\<rparr>,
     g_storage = \<lparr>eng = (fresh_engine 0 0)\<lparr>se_lock := False\<rparr>, files = Map.empty, nvs_store = None\<rparr>,
     g_rate_limiter = rate_limiter_init None False,
     ctx_sub_manager = False, ctx_storage = False, ctx_rate_limiter = False,
     ctx_config = relay_defaults, store_tick = 0, msg_tick = 0, alloc = []\<rparr>"

definition demo_boot :: boot_env where
  "demo_boot = \<lparr>bo_sub_mutex = True, bo_storage = good_init, bo_load = good_env 2000, bo_task = True,
     bo_rate_mutex = True, bo_ws = \<lparr>st_mutex = True, st_start = ESP_OK, st_register_ws = ESP_OK, st_register_options = ESP_OK\<rparr>,
     bo_destroy = good_env 2000\<rparr>"

definition demo_env :: relay_env where
  "demo_env = \<lparr>re_store = (\<lambda>_. good_env 2000), re_send = (\<lambda>_. good_send), re_timer_open = (\<lambda>_. 0),
     re_timer = (\<lambda>_. 0), re_now_lib = (\<lambda>_. 2000), re_now = (\<lambda>_. 2000)\<rparr>"

definition demo_up :: relay where
  "demo_up = start_relay_server (demo_lib demo_notes) demo_boot (off_ws, off_core)"

text \<open>The relay with one connection.\<close>

definition demo_one :: relay where
  "demo_one = (snd (on_open 0 None 54 (fst demo_up)), snd demo_up)"

lemma off_relay: "relay_off (off_ws, off_core)"
  by (simp add: relay_off_def off_ws_def off_core_def ws_server_is_running_def fresh_engine_def)

lemma demo_boot_ok: "boot_ok demo_boot"
  by (simp add: boot_ok_def demo_boot_def init_ok_def good_init_def)

lemma demo_lib_ok: "lib_ok (demo_lib demo_notes)"
proof -
  have "length (ev_id ev) = 32 \<and> codec_ok (demo_lib demo_notes) ev"
    if "lib_event_validate_full (demo_lib demo_notes) ev f now = NOSTR_RELAY_OK" for ev f now
  proof -
    have "ev \<in> set demo_notes" "length (ev_id ev) = 32"
      using that by (auto simp: demo_lib_def list_ex_iff split: if_splits)
    moreover from this have "codec_ok (demo_lib demo_notes) ev"
      by (intro demo_codec) (auto simp: demo_notes_def demo_erase_def demo_note_def)
    ultimately show ?thesis by blast
  qed
  then show ?thesis by (simp add: lib_ok_def demo_hex_lengths demo_deletion_contract)
qed

text \<open>The first start on blank flash.\<close>

lemma first_start:
  assumes "nvs_store s = None" and "init_ok ienv" and "storage_init ienv env ttl s = (ESP_OK, s')"
  shows "st_inv lib s' \<and> stored lib s' = [] \<and> initialized (eng s') \<and> index_count (eng s') = 0 \<and>
    next_file_index (eng s') = 0 \<and> unat (max_index_entries (eng s')) = capacity ienv \<and> default_ttl_sec (eng s') = ttl"
proof -
  have l: "load_index_from_nvs env None en = (STORAGE_ERR_IO, en) \<or> load_index_from_nvs env None en = (STORAGE_OK, en)" for en
    by (simp add: load_index_from_nvs_def)
  have "s' = s\<lparr>eng := (fresh_engine ttl (capacity ienv))\<lparr>index_count := 0, next_file_index := 0, initialized := True\<rparr>\<rparr>"
    using assms l [of "fresh_engine ttl (capacity ienv)"]
    by (auto simp: init_eq Let_def fresh_engine_def split: if_splits)
  then show ?thesis
    using fresh_capacity
    by (simp add: st_inv_def used_def live_def stored_def fresh_engine_def)
qed

lemma demo_started:
  "reachable (demo_lib demo_notes) env demo_up" "open_fds (ws (fst demo_up)) = {}"
  "stored (demo_lib demo_notes) (g_storage (snd demo_up)) = []"
  "index_count (eng (g_storage (snd demo_up))) = 0" "next_file_index (eng (g_storage (snd demo_up))) = 0"
  "max_index_entries (eng (g_storage (snd demo_up))) = 5000"
  "default_ttl_sec (eng (g_storage (snd demo_up))) = 1814400" "alloc (snd demo_up) = []"
proof -
  obtain st r where up: "start_relay_server (demo_lib demo_notes) demo_boot (off_ws, off_core) = (st, r)" by force
  obtain s where s: "storage_init (bo_storage demo_boot) (bo_load demo_boot) (cfg_max_event_age_sec relay_defaults)
        (g_storage off_core) = (ESP_OK, s)"
    and o: "open_fds (ws st) = {}" "stored (demo_lib demo_notes) (g_storage r) = stored (demo_lib demo_notes) s"
    using start_succeeds [OF off_relay demo_boot_ok up] by metis
  have f: "st_inv (demo_lib demo_notes) s" "stored (demo_lib demo_notes) s = []"
      "index_count (eng s) = 0" "next_file_index (eng s) = 0" "unat (max_index_entries (eng s)) = 5000"
      "default_ttl_sec (eng s) = 1814400"
    using first_start [OF _ _ s, of "demo_lib demo_notes"] demo_boot_ok
    by (simp_all add: off_core_def boot_ok_def demo_boot_def good_init_def capacity_def STORAGE_INDEX_ENTRIES_def
        relay_defaults_def)
  show "reachable (demo_lib demo_notes) env demo_up"
    unfolding demo_up_def up by (rule reach_boot [OF off_relay demo_boot_ok s f(1) up])
  show "open_fds (ws (fst demo_up)) = {}" "stored (demo_lib demo_notes) (g_storage (snd demo_up)) = []"
    using o f(2) by (simp_all add: demo_up_def up)
  have "eng (g_storage r) = (eng s)\<lparr>cleanup_stop := False, cleanup_task := True\<rparr> \<and> alloc r = []"
    using up s
    by (auto simp: start_relay_server_def Let_def demo_boot_def sub_manager_init_def storage_start_cleanup_task_def
          off_ws_def ws_server_is_running_def ws_server_init_def off_core_def split: if_splits)
  then show "index_count (eng (g_storage (snd demo_up))) = 0" "next_file_index (eng (g_storage (snd demo_up))) = 0"
      "max_index_entries (eng (g_storage (snd demo_up))) = 5000"
      "default_ttl_sec (eng (g_storage (snd demo_up))) = 1814400" "alloc (snd demo_up) = []"
    using f(3-6) by (simp_all add: demo_up_def up word_unat_eq_iff)
qed

lemma reachable_core:
  assumes "lib_ok lib" and "reachable lib env (st, r)"
  shows "core_inv lib (open_fds (ws st)) r" "ws_inv (ws st)" "g_server st" "g_disconnect_callback st"
    "g_message_callback st" "g_current_req st = None" "ws_httpd (ws st)"
  using reachable_inv [OF assms] by (simp_all add: relay_inv_def)

lemma core_parts:
  assumes "core_inv lib fds r"
  shows "sm_inv (g_sub_manager r)" "sub_owners (g_sub_manager r) \<subseteq> fds" "rl_inv (g_rate_limiter r)"
    "rl_config (g_rate_limiter r) = relay_limits" "dom (rl_view (g_rate_limiter r)) \<subseteq> fds"
    "store_inv lib (g_storage r)" "ctx_config r = relay_defaults" "ctx_sub_manager r" "ctx_storage r"
    "ctx_rate_limiter r"
  using assms unfolding core_inv_def rl_ok_def by blast+

lemma demo_opened:
  "reachable (demo_lib demo_notes) env demo_one" "open_fds (ws (fst demo_one)) = {54}"
  "sm_view (g_sub_manager (snd demo_one)) = Map.empty" "rl_view (g_rate_limiter (snd demo_one)) = Map.empty"
  "snd demo_one = snd demo_up"
proof -
  obtain st r where up: "demo_up = (st, r)" by force
  obtain e st1 where o: "on_open 0 None 54 st = (e, st1)" by force
  have one: "demo_one = (st1, r)" by (simp add: demo_one_def up o)
  note reach = demo_started(1) [of env, unfolded up]
  note c = reachable_core [OF demo_lib_ok reach]
  have none: "open_fds (ws st) = {}" using demo_started(2) by (simp add: up)
  show "reachable (demo_lib demo_notes) env demo_one"
    unfolding one by (rule reach_step [OF reach step_open [OF _ o]]) (use none in simp)
  have "54 \<notin> open_fds (ws st)" using none by simp
  from on_open_step [OF c(2) this o] none c(3) show "open_fds (ws (fst demo_one)) = {54}"
    by (simp add: one WS_MAX_CONNECTIONS_def split: if_splits)
  show "sm_view (g_sub_manager (snd demo_one)) = Map.empty"
    using core_parts(2) [OF c(1)] none by (auto simp: one sub_owners_def)
  show "rl_view (g_rate_limiter (snd demo_one)) = Map.empty"
    using core_parts(5) [OF c(1)] none by (auto simp: one)
  show "snd demo_one = snd demo_up" by (simp add: one up)
qed

section \<open>The fixed tables suffice\<close>

lemma subs_card:
  assumes inv: "sm_inv mgr" and own: "sub_owners mgr \<subseteq> fds" and fds: "finite fds" "card fds \<le> 8" "fd \<in> fds"
    and room: "conn_slots mgr fd < 8"
  shows "card (dom (sm_view mgr)) < 64"
proof -
  let ?of = "\<lambda>f. {k \<in> dom (sm_view mgr). fst k = f}"
  have le: "card (?of f) \<le> 8" for f
    using inv_conn_card [OF inv, of f] inv by (simp add: sm_inv_def sub_consts)
  have "dom (sm_view mgr) = (\<Union>f \<in> fds. ?of f)" using own by (auto simp: sub_owners_def)
  then have "card (dom (sm_view mgr)) \<le> (\<Sum>f \<in> fds. card (?of f))"
    using card_UN_le [OF fds(1), of ?of] by simp
  also have "\<dots> = card (?of fd) + (\<Sum>f \<in> fds - {fd}. card (?of f))"
    using fds by (simp add: sum.remove)
  also have "\<dots> \<le> 7 + 8 * card (fds - {fd})"
    using sum_bounded_above [of "fds - {fd}" "\<lambda>f. card (?of f)" 8] le inv_conn_card [OF inv, of fd] room
    by (intro add_mono) (auto simp: mult.commute)
  also have "\<dots> < 64" using fds by simp
  finally show ?thesis .
qed

lemma bucket_available:
  assumes inv: "rl_inv rl" and own: "dom (rl_view rl) \<subseteq> fds" and fds: "finite fds" "card fds \<le> 8"
  shows "fst (get_bucket rl fd us) \<noteq> None"
proof (cases "rl_view rl fd")
  case (Some b)
  from get_bucket_found [OF inv this] show ?thesis by (metis fst_conv option.distinct(1))
next
  case None
  have "card (dom (rl_view rl)) < RATE_LIMITER_MAX_BUCKETS"
    using card_mono [OF fds(1) own] fds(2) by (simp add: RATE_LIMITER_MAX_BUCKETS_def)
  from get_bucket_opens [OF inv None this] show ?thesis by (metis fst_conv option.distinct(1))
qed

text \<open>
  Property C33. The data of the relay is well formed in every reachable state.  Each fixed array
  has its declared length, its active slots have different keys, and the counter kept beside it
  is the number of active slots; a subscription has an id of at most 64 characters and at most
  4 filters, a connection at most 8 subscriptions, a bucket at most its limits; the index is
  within its array, its live entries have different ids, the file numbers increase below the
  next one, and what the file of a live entry parses to is the event the entry describes.
\<close>

theorem tables_well_formed:
  assumes "lib_ok lib" and "reachable lib env (st, r)"
  defines "cs \<equiv> connections (ws st)" and "ss \<equiv> subs (g_sub_manager r)" and "bs \<equiv> rl_buckets (g_rate_limiter r)"
    and "en \<equiv> eng (g_storage r)"
  shows "length cs = 8 \<and> slots_distinct wc_active wc_fd cs \<and>
      unat (connection_count (ws st)) = count_slots wc_active cs \<and>
    length ss = 64 \<and> slots_distinct sub_active sub_key ss \<and>
      unat (active_count (g_sub_manager r)) = count_slots sub_active ss \<and>
      (\<forall>s \<in> {s \<in> set ss. sub_active s}. length (sub_id s) \<le> 64 \<and> unat (filter_count s) \<le> 4) \<and>
      (\<forall>fd. conn_slots (g_sub_manager r) fd \<le> 8) \<and>
    length bs = 16 \<and> slots_distinct rb_active rb_fd bs \<and>
      (\<forall>fd b. rl_view (g_rate_limiter r) fd = Some b \<longrightarrow> event_count b \<le> 30 \<and> req_count b \<le> 60) \<and>
    length (idx en) = unat (max_index_entries en) \<and> index_count en \<le> max_index_entries en \<and>
      sorted_wrt (<) (map ie_file_index (used en)) \<and> (\<forall>e \<in> set (used en). ie_file_index e < next_file_index en) \<and>
      distinct (map ie_event_id (live en)) \<and>
      (\<forall>e \<in> set (live en). \<forall>ev. file_event lib (g_storage r) e = Some ev \<longrightarrow> describes e ev)"
proof -
  note c = reachable_core(1,2) [OF assms(1,2)]
  note p = core_parts [OF c(1)]
  show ?thesis
    using c(2) p(1,3,4,6)
    by (auto simp: ws_inv_def sm_inv_def rl_inv_def store_inv_def st_inv_def sub_ok_def bucket_ok_def relay_limits_def
        cs_def ss_def bs_def en_def WS_MAX_CONNECTIONS_def sub_consts RATE_LIMITER_MAX_BUCKETS_def split: if_splits)
qed

theorem tables_well_formed_witness:
  "length (connections (ws (fst demo_one))) = 8 \<and> unat (connection_count (ws (fst demo_one))) = count_slots wc_active (connections (ws (fst demo_one))) \<and>
   length (subs (g_sub_manager (snd demo_one))) = 64 \<and> conn_slots (g_sub_manager (snd demo_one)) 54 \<le> 8"
proof -
  obtain st r where one: "demo_one = (st, r)" by force
  from tables_well_formed [OF demo_lib_ok demo_opened(1) [unfolded one]] show ?thesis
    unfolding one fst_conv snd_conv by (intro conjI) (elim conjE, (assumption | erule spec))+
qed

text \<open>
  Property C15. In every reachable state the subscriptions and the rate buckets belong to open
  connections, and the fixed tables suffice for them: an open connection always has or gets a
  rate bucket (16 are enough), and a subscription of an open connection is accepted, when no
  allocation fails, exactly if its id is known or the connection has fewer than 8 (the table of
  64 is never the reason for a refusal).
\<close>

theorem tables_suffice:
  assumes "lib_ok lib" and "reachable lib env (st, r)" and "fd \<in> open_fds (ws st)" and "length sid \<le> 64"
  shows "sub_owners (g_sub_manager r) \<subseteq> open_fds (ws st) \<and> dom (rl_view (g_rate_limiter r)) \<subseteq> open_fds (ws st) \<and>
    fst (get_bucket (g_rate_limiter r) fd us) \<noteq> None \<and>
    (fst (sub_manager_add lib (g_sub_manager r) fd sid fs []) = NOSTR_RELAY_OK \<longleftrightarrow>
       sm_view (g_sub_manager r) (fd, sid) \<noteq> None \<or> unat (sub_manager_count (g_sub_manager r) fd) < 8)"
proof -
  note c = reachable_core(1,2) [OF assms(1,2)]
  note p = core_parts [OF c(1)]
  obtain e mgr h where add: "sub_manager_add lib (g_sub_manager r) fd sid fs [] = (e, mgr, h)" by (metis prod_cases3)
  have "subs_spec_add True (sm_view (g_sub_manager r)) fd sid fs = (e, sm_view mgr)"
    using add_step [OF p(1) _ add] assms(4) copies_empty_schedule [of lib fs] by (simp add: SUB_MAX_ID_LEN_def)
  moreover have "card (dom (sm_view (g_sub_manager r))) < 64" if "conn_slots (g_sub_manager r) fd < 8"
    using subs_card [OF p(1,2) open_fds_finite open_fds_max [OF c(2)] assms(3) that] .
  ultimately have "e = NOSTR_RELAY_OK \<longleftrightarrow>
      sm_view (g_sub_manager r) (fd, sid) \<noteq> None \<or> unat (sub_manager_count (g_sub_manager r) fd) < 8"
    by (auto simp: subs_spec_add_def inv_conn_card [OF p(1)] count_step [OF p(1)] sub_consts split: if_splits)
  with add p(2,5) bucket_available [OF p(3,5) open_fds_finite open_fds_max [OF c(2)]] show ?thesis by simp
qed

theorem tables_suffice_witness:
  "fst (get_bucket (g_rate_limiter (snd demo_one)) 54 0) \<noteq> None \<and>
   fst (sub_manager_add (demo_lib demo_notes) (g_sub_manager (snd demo_one)) 54 ''feed'' [kind_one] []) = NOSTR_RELAY_OK"
proof -
  obtain st r where one: "demo_one = (st, r)" by force
  have m: "reachable (demo_lib demo_notes) demo_env (st, r)" "54 \<in> open_fds (ws st)" "sm_view (g_sub_manager r) = Map.empty"
    using demo_opened by (simp_all add: one)
  have inv: "sm_inv (g_sub_manager r)" using core_parts(1) reachable_core(1) demo_lib_ok m(1) by blast
  have "unat (sub_manager_count (g_sub_manager r) 54) = 0"
    using count_step [OF inv, of 54] inv_conn_card [OF inv, of 54] m(3) by simp
  with tables_suffice [OF demo_lib_ok m(1,2), of "''feed''" 0 "[kind_one]"] show ?thesis by (simp add: one)
qed

section \<open>Connections come and go\<close>

text \<open>
  Property C12. When a connection closes, everything it held is released and nothing else: its
  subscriptions and its rate bucket are gone, no later event is routed to it, the other
  connections keep theirs, and the stored events are untouched.
\<close>

theorem close_releases:
  assumes "lib_ok lib" and "reachable lib env (st, r)"
    and "on_close (on_ws_disconnect lib) fd (st, r) = (st', r')"
  shows "open_fds (ws st') = open_fds (ws st) - {fd} \<and>
    sm_view (g_sub_manager r') = (\<lambda>k. if fst k = fd then None else sm_view (g_sub_manager r) k) \<and>
    rl_view (g_rate_limiter r') = (rl_view (g_rate_limiter r))(fd := None) \<and>
    g_storage r' = g_storage r \<and>
    (\<forall>ev. fd \<notin> me_conn_fd ` set (sm_matches (sub_manager_match lib (g_sub_manager r') ev)))"
proof -
  note c = reachable_core [OF assms(1,2)]
  note p = core_parts [OF c(1)]
  have inv: "relay_inv lib (st', r')" "open_fds (ws st') = open_fds (ws st) - {fd}"
    using close_inv [OF reachable_inv [OF assms(1,2)] assms(3)] by blast+
  have r': "r' = on_ws_disconnect lib fd r"
    using on_close_step [OF c(2) assms(3)] c(3,4) by simp
  have "core_inv lib (open_fds (ws st')) r'" using inv(1) by (simp add: relay_inv_def)
  note p' = core_parts [OF this]
  have "fd \<notin> sub_owners (g_sub_manager r')" using p'(2) inv(2) by blast
  then have "\<forall>ev. fd \<notin> me_conn_fd ` set (sm_matches (sub_manager_match lib (g_sub_manager r') ev))"
    using matches_owned [OF p'(1)] by blast
  then show ?thesis
    using inv(2) remove_all_step [OF p(1), of lib fd] reset_step [OF p(3), of fd]
    by (simp add: r' on_ws_disconnect_def)
qed

theorem close_releases_witness:
  "\<exists>st' r'. on_close (on_ws_disconnect (demo_lib demo_notes)) 54 demo_one = (st', r') \<and> open_fds (ws st') = {} \<and>
     rl_view (g_rate_limiter r') 54 = None"
proof -
  obtain st r where one: "demo_one = (st, r)" by force
  obtain st' r' where c: "on_close (on_ws_disconnect (demo_lib demo_notes)) 54 (st, r) = (st', r')" by force
  from close_releases [OF demo_lib_ok _ c] demo_opened(1,2) have "open_fds (ws st') = {}" "rl_view (g_rate_limiter r') 54 = None"
    by (simp_all add: one)
  with c one show ?thesis by simp
qed

text \<open>
  Property C17. Handling a request keeps the relay valid, and every frame it hands over, replies
  and broadcasts alike, is for a socket that is open at that moment.
\<close>

theorem frames_to_open_sockets:
  assumes "lib_ok lib" and "reachable lib env (st, r)" and "rq_fd req \<in> open_fds (ws st)"
    and "next_file_index (eng (g_storage r)) \<noteq> -1"
    and "ws_handler (on_ws_message lib env) req (st, r) = (e, (st', r'))"
  shows "relay_inv lib (st', r') \<and>
    (\<exists>out. outbox st' = outbox st @ out \<and> (\<forall>x \<in> set out. \<forall>fd. out_fd x = Some fd \<longrightarrow> fd \<in> open_fds (ws st)))"
  using request_step [OF assms(1) reachable_inv [OF assms(1,2)] assms(3-5)] by blast

definition text_request :: "int \<Rightarrow> string \<Rightarrow> ws_request" where
  "text_request fd data = \<lparr>rq_fd = fd, rq_time = 0, rq_get = False, rq_upgrade = None, rq_accept = '''',
     rq_http = ESP_OK, rq_head = ESP_OK, rq_malloc = True, rq_body = ESP_OK, rq_type = WS_TEXT,
     rq_payload = data, rq_pong = ESP_OK\<rparr>"

theorem frames_to_open_sockets_witness:
  "\<exists>e st' r' out. ws_handler (on_ws_message (demo_lib demo_notes) demo_env) (text_request 54 ''Rfeed'') demo_one = (e, (st', r')) \<and>
     outbox st' = outbox (fst demo_one) @ out \<and> (\<forall>x \<in> set out. \<forall>fd. out_fd x = Some fd \<longrightarrow> fd = 54)"
proof -
  obtain st r where one: "demo_one = (st, r)" by force
  obtain e st' r' where h: "ws_handler (on_ws_message (demo_lib demo_notes) demo_env) (text_request 54 ''Rfeed'') (st, r) = (e, (st', r'))"
    by (metis prod.collapse)
  have "next_file_index (eng (g_storage r)) \<noteq> -1" using demo_started(5) demo_opened(5) by (simp add: one)
  moreover have fds: "open_fds (ws st) = {54}" "rq_fd (text_request 54 ''Rfeed'') = 54"
    using demo_opened(2) by (simp_all only: one fst_conv text_request_def ws_request.simps)
  ultimately obtain out where "outbox st' = outbox st @ out" "\<forall>x \<in> set out. \<forall>fd. out_fd x = Some fd \<longrightarrow> fd \<in> {54}"
    using frames_to_open_sockets [OF demo_lib_ok _ _ _ h] demo_opened(1) unfolding one fds by blast
  with h show ?thesis unfolding one fst_conv singleton_iff by blast
qed

text \<open>
  Property C24. A start succeeds as a whole or leaves nothing behind: when every outside call
  succeeds the server runs without connections and, with a valid store, in a valid state;
  when any of them fails the relay is off again, without a server handle, callbacks, context
  pointers, storage or cleanup task, so that the next start finds what the first one found.
\<close>

theorem start_all_or_nothing:
  assumes "relay_off (st, r)" and "start_relay_server lib b (st, r) = (st', r')"
  shows "if boot_ok b
    then ws_server_is_running st' \<and> open_fds (ws st') = {} \<and> initialized (eng (g_storage r')) \<and>
      (lib_ok lib \<and> st_inv lib (g_storage r') \<longrightarrow> relay_inv lib (st', r'))
    else relay_off (st', r')"
proof (cases "boot_ok b")
  case True
  from start_succeeds [OF assms(1) True assms(2)] show ?thesis unfolding if_P [OF True] by metis
next
  case False
  from start_fails [OF assms(1) False assms(2)] False show ?thesis by simp
qed

theorem start_all_or_nothing_witness:
  "relay_off (start_relay_server (demo_lib demo_notes) (demo_boot\<lparr>bo_task := False\<rparr>) (off_ws, off_core)) \<and>
   ws_server_is_running (fst demo_up)"
proof -
  have "\<not> boot_ok (demo_boot\<lparr>bo_task := False\<rparr>)" by (simp add: boot_ok_def)
  then show ?thesis
    using start_all_or_nothing [OF off_relay, of "demo_lib demo_notes" "demo_boot\<lparr>bo_task := False\<rparr>"]
      start_all_or_nothing [OF off_relay, of "demo_lib demo_notes" demo_boot] demo_boot_ok
    unfolding demo_up_def by (metis prod.collapse)
qed

end
