(* ===== verification/Wisp_Main.thy ===== *)
theory Wisp_Main
  imports Relay_Props "HOL-Library.Monad_Syntax"
begin

text \<open>
  Power-up and the network events of \<open>main/main.c\<close>: \<open>app_main\<close>, \<open>wifi_init_sta\<close>,
  \<open>init_watchdog\<close>, \<open>init_sntp\<close> and \<open>wifi_event_handler\<close>, which starts the relay when the
  station has an address.
\<close>

section \<open>Calls of the platform\<close>

text \<open>
  The calls of ESP-IDF that configure the device, in the order the program makes them.  The
  environment gives the result of each by its position; the codes of
  \<open>ESP_ERR_NVS_NO_FREE_PAGES\<close> and \<open>ESP_ERR_NVS_NEW_VERSION_FOUND\<close> belong to it.
\<close>

datatype platform_call =
    Nvs_Flash_Init
  | Nvs_Flash_Erase
  | Task_Wdt_Init (wdt_timeout_ms: u32) (wdt_panic: bool)
  | Nostr_Init
  | Create_Mem_Mon
  | Netif_Init
  | Event_Loop_Create
  | Create_Wifi_Sta
  | Wifi_Init
  | Register_Wifi_Events
  | Register_Got_Ip
  | Wifi_Set_Mode
  | Wifi_Set_Config
  | Wifi_Start
  | Wifi_Connect
  | Sntp_Set_Mode
  | Sntp_Set_Server string
  | Sntp_Set_Callback
  | Sntp_Init

record platform_env =
  pe_result :: "nat \<Rightarrow> esp_err"
  pe_nvs_no_free_pages :: esp_err
  pe_nvs_new_version :: esp_err

record app =
  app_relay :: relay
  sntp_initialized :: bool
  plat :: "platform_call list"

definition WATCHDOG_TIMEOUT_MS :: u32 where "WATCHDOG_TIMEOUT_MS = 30000"

definition call :: "platform_env \<Rightarrow> platform_call \<Rightarrow> app \<Rightarrow> esp_err \<times> app" where
  "call env c a = (pe_result env (length (plat a)), a\<lparr>plat := plat a @ [c]\<rparr>)"

text \<open>\<open>ESP_ERROR_CHECK\<close>: any other code than \<open>ESP_OK\<close> aborts, that is, restarts the device.\<close>

definition checked :: "platform_env \<Rightarrow> platform_call \<Rightarrow> app \<Rightarrow> app option" where
  "checked env c a = (case call env c a of (e, a) \<Rightarrow> if e = ESP_OK then Some a else None)"

text \<open>A call whose result the program only logs or has none.\<close>

definition logged :: "platform_env \<Rightarrow> platform_call \<Rightarrow> app \<Rightarrow> app option" where
  "logged env c a = Some (snd (call env c a))"

section \<open>Power-up\<close>

definition init_watchdog :: "platform_env \<Rightarrow> app \<Rightarrow> app option" where
  "init_watchdog env a = logged env (Task_Wdt_Init WATCHDOG_TIMEOUT_MS True) a"

definition wifi_init_sta :: "platform_env \<Rightarrow> app \<Rightarrow> app option" where
  "wifi_init_sta env a = do {
     a \<leftarrow> checked env Netif_Init a;
     a \<leftarrow> checked env Event_Loop_Create a;
     a \<leftarrow> logged env Create_Wifi_Sta a;
     a \<leftarrow> checked env Wifi_Init a;
     a \<leftarrow> checked env Register_Wifi_Events a;
     a \<leftarrow> checked env Register_Got_Ip a;
     a \<leftarrow> checked env Wifi_Set_Mode a;
     a \<leftarrow> checked env Wifi_Set_Config a;
     checked env Wifi_Start a
   }"

text \<open>Erasing the default NVS partition erases the index of the event store with it.\<close>

definition nvs_flash_erase :: "app \<Rightarrow> app" where
  "nvs_flash_erase a =
     (let (st, r) = app_relay a
      in a\<lparr>app_relay := (st, r\<lparr>g_storage := (g_storage r)\<lparr>nvs_store := None\<rparr>\<rparr>)\<rparr>)"

definition app_main :: "platform_env \<Rightarrow> app \<Rightarrow> app option" where
  "app_main env a =
     (let (ret, a) = call env Nvs_Flash_Init a in do {
        (ret, a) \<leftarrow> (if ret = pe_nvs_no_free_pages env \<or> ret = pe_nvs_new_version env
          then do {
            a \<leftarrow> checked env Nvs_Flash_Erase a;
            Some (call env Nvs_Flash_Init (nvs_flash_erase a))
          }
          else Some (ret, a));
        if ret \<noteq> ESP_OK then None
        else do {
          a \<leftarrow> init_watchdog env a;
          a \<leftarrow> logged env Nostr_Init a;
          a \<leftarrow> logged env Create_Mem_Mon a;
          wifi_init_sta env a
        }
      })"

section \<open>Network events\<close>

definition init_sntp :: "app \<Rightarrow> app" where
  "init_sntp a =
     (if sntp_initialized a then a
      else a\<lparr>plat := plat a @ [Sntp_Set_Mode, Sntp_Set_Server ''pool.ntp.org'', Sntp_Set_Callback, Sntp_Init],
             sntp_initialized := True\<rparr>)"

datatype net_event = Sta_Disconnected | Sta_Start | Got_Ip boot_env | Other_Event

text \<open>The event that brings an address carries the outcomes of the start it may trigger.\<close>

fun wifi_event_handler :: "nostr_lib \<Rightarrow> net_event \<Rightarrow> app \<Rightarrow> app" where
  "wifi_event_handler lib Sta_Disconnected a = a\<lparr>plat := plat a @ [Wifi_Connect]\<rparr>"
| "wifi_event_handler lib Sta_Start a = a\<lparr>plat := plat a @ [Wifi_Connect]\<rparr>"
| "wifi_event_handler lib (Got_Ip b) a =
     (let a = init_sntp a in a\<lparr>app_relay := start_relay_server lib b (app_relay a)\<rparr>)"
| "wifi_event_handler lib Other_Event a = a"

text \<open>The events of a run, delivered one by one by the event loop.\<close>

fun net_events :: "nostr_lib \<Rightarrow> net_event list \<Rightarrow> app \<Rightarrow> app" where
  "net_events lib [] a = a"
| "net_events lib (ev # evs) a = net_events lib evs (wifi_event_handler lib ev a)"

section \<open>Power-up makes the calls in order or restarts\<close>

definition worn :: "platform_env \<Rightarrow> bool" where
  "worn env \<longleftrightarrow> pe_result env 0 = pe_nvs_no_free_pages env \<or> pe_result env 0 = pe_nvs_new_version env"

text \<open>What comes before the watchdog.\<close>

definition nvs_calls :: "platform_env \<Rightarrow> platform_call list" where
  "nvs_calls env = (if worn env then [Nvs_Flash_Init, Nvs_Flash_Erase, Nvs_Flash_Init] else [Nvs_Flash_Init])"

definition wifi_calls :: "platform_call list" where
  "wifi_calls = [Task_Wdt_Init 30000 True, Nostr_Init, Create_Mem_Mon, Netif_Init, Event_Loop_Create, Create_Wifi_Sta,
     Wifi_Init, Register_Wifi_Events, Register_Got_Ip, Wifi_Set_Mode, Wifi_Set_Config, Wifi_Start]"

text \<open>The calls after the first of \<open>nvs_flash_init\<close> whose failure restarts the device.\<close>

definition must_succeed :: "platform_call \<Rightarrow> bool" where
  "must_succeed c \<longleftrightarrow> c \<notin> {Nostr_Init, Create_Mem_Mon, Create_Wifi_Sta, Task_Wdt_Init 30000 True}"

text \<open>A row of calls, and what it takes to get through it.\<close>

fun run_calls :: "platform_env \<Rightarrow> platform_call list \<Rightarrow> app \<Rightarrow> app option" where
  "run_calls env [] a = Some a"
| "run_calls env (c # cs) a =
     Option.bind (if must_succeed c then checked env c a else logged env c a) (run_calls env cs)"

lemma run_calls_exact:
  "run_calls env cs a = Some a' \<longleftrightarrow>
    (\<forall>i < length cs. must_succeed (cs ! i) \<longrightarrow> pe_result env (length (plat a) + i) = ESP_OK) \<and>
    a' = a\<lparr>plat := plat a @ cs\<rparr>"
  by (induction cs arbitrary: a) (auto simp: checked_def logged_def call_def All_less_Suc2)

lemma run_calls_fun:
  "run_calls env [] = Some"
  "run_calls env (c # cs) = (\<lambda>a. Option.bind (if must_succeed c then checked env c a else logged env c a) (run_calls env cs))"
  by (rule ext, simp)+

lemma wifi_runs: "run_calls env wifi_calls = (\<lambda>a.
    Option.bind (init_watchdog env a) (\<lambda>a. Option.bind (logged env Nostr_Init a)
      (\<lambda>a. Option.bind (logged env Create_Mem_Mon a) (wifi_init_sta env))))"
  unfolding wifi_calls_def run_calls_fun
  by (simp add: must_succeed_def init_watchdog_def wifi_init_sta_def [abs_def] WATCHDOG_TIMEOUT_MS_def)

lemma app_main_runs:
  assumes "plat a = []" and "pe_nvs_no_free_pages env \<noteq> ESP_OK" and "pe_nvs_new_version env \<noteq> ESP_OK"
  shows "app_main env a =
    (if worn env then if pe_result env 1 = ESP_OK \<and> pe_result env 2 = ESP_OK
       then run_calls env wifi_calls ((nvs_flash_erase a)\<lparr>plat := nvs_calls env\<rparr>) else None
     else if pe_result env 0 = ESP_OK then run_calls env wifi_calls (a\<lparr>plat := nvs_calls env\<rparr>) else None)"
  using assms
  by (auto simp: app_main_def wifi_runs worn_def nvs_calls_def call_def checked_def nvs_flash_erase_def Let_def
      numeral_2_eq_2 split: prod.split)

text \<open>
  Property C39. Power-up ends in a running event loop exactly when every call that
  \<open>ESP_ERROR_CHECK\<close> guards succeeds, the first \<open>nvs_flash_init\<close> excepted when it reports a
  full or outdated partition; then the calls were made in the order that registers both event
  handlers before Wi-Fi starts, the index of the store is erased exactly in the excepted case,
  and the rest of the relay is untouched.
\<close>

theorem power_up_exact:
  assumes "plat a = []" and "pe_nvs_no_free_pages env \<noteq> ESP_OK" and "pe_nvs_new_version env \<noteq> ESP_OK"
  shows "app_main env a = Some a' \<longleftrightarrow>
    (\<forall>i < length (nvs_calls env @ wifi_calls). must_succeed ((nvs_calls env @ wifi_calls) ! i) \<longrightarrow>
        pe_result env i = ESP_OK \<or> i = 0 \<and> worn env) \<and>
    a' = a\<lparr>plat := nvs_calls env @ wifi_calls,
           app_relay := (fst (app_relay a),
             if worn env then (snd (app_relay a))\<lparr>g_storage := (g_storage (snd (app_relay a)))\<lparr>nvs_store := None\<rparr>\<rparr>
             else snd (app_relay a))\<rparr>"
proof (cases "worn env")
  case True
  then have "pe_result env 0 \<noteq> ESP_OK" using assms by (auto simp: worn_def)
  with True show ?thesis
    by (auto simp: app_main_runs [OF assms] run_calls_exact nvs_calls_def must_succeed_def All_less_Suc2 nvs_flash_erase_def
        numeral_2_eq_2 numeral_3_eq_3 split: prod.splits)
next
  case False
  then show ?thesis
    using assms(1)
    by (auto simp: app_main_runs [OF assms] run_calls_exact nvs_calls_def must_succeed_def All_less_Suc2)
qed

definition demo_platform :: platform_env where
  "demo_platform = \<lparr>pe_result = (\<lambda>_. ESP_OK), pe_nvs_no_free_pages = ESP_ERR_OTHER 4365, pe_nvs_new_version = ESP_ERR_OTHER 4368\<rparr>"

definition powered :: app where
  "powered = \<lparr>app_relay = (off_ws, off_core), sntp_initialized = False, plat = []\<rparr>"

theorem power_up_exact_witness:
  "app_main demo_platform powered = Some (powered\<lparr>plat := Nvs_Flash_Init # wifi_calls\<rparr>)"
proof -
  have "\<not> worn demo_platform" by (simp add: worn_def demo_platform_def)
  then show ?thesis
    using power_up_exact [of powered demo_platform "powered\<lparr>plat := Nvs_Flash_Init # wifi_calls\<rparr>"]
    by (simp add: demo_platform_def powered_def nvs_calls_def)
qed

section \<open>The network may come and go\<close>

definition running_app :: "app \<Rightarrow> bool" where
  "running_app a \<longleftrightarrow> ws_server_is_running (fst (app_relay a))"

text \<open>A relay that runs is left alone by every network event.\<close>

lemma running_kept:
  "running_app a \<Longrightarrow> app_relay (wifi_event_handler lib ev a) = app_relay a \<and> running_app (wifi_event_handler lib ev a)"
  by (cases ev) (auto simp: running_app_def init_sntp_def start_relay_server_def Let_def split: prod.split)

lemma running_kept_events: "running_app a \<Longrightarrow> app_relay (net_events lib evs a) = app_relay a"
proof (induction evs arbitrary: a)
  case (Cons ev evs)
  with running_kept [OF Cons.prems, of lib ev] show ?case by simp
qed simp

definition good_start :: "net_event \<Rightarrow> bool" where
  "good_start ev \<longleftrightarrow> (case ev of Got_Ip b \<Rightarrow> boot_ok b | _ \<Rightarrow> False)"

text \<open>A relay that is off stays off unless the event brings an address and the start succeeds.\<close>

lemma off_step:
  assumes "relay_off (app_relay a)"
  shows "if good_start ev then running_app (wifi_event_handler lib ev a) \<and>
        (\<exists>b. ev = Got_Ip b \<and> app_relay (wifi_event_handler lib ev a) = start_relay_server lib b (app_relay a))
      else relay_off (app_relay (wifi_event_handler lib ev a))"
proof (cases ev)
  case (Got_Ip b)
  obtain st r where a: "app_relay a = (st, r)" by force
  obtain st' r' where s: "start_relay_server lib b (st, r) = (st', r')" by force
  have e: "app_relay (wifi_event_handler lib ev a) = (st', r')" using Got_Ip a s by (simp add: init_sntp_def)
  show ?thesis
  proof (cases "boot_ok b")
    case True
    have "ws_server_is_running st'" using start_succeeds [OF _ True s] assms a by metis
    with True Got_Ip e a s show ?thesis by (simp add: good_start_def running_app_def)
  next
    case False
    with start_fails [OF _ False s] assms a Got_Ip e show ?thesis by (simp add: good_start_def)
  qed
qed (use assms in \<open>simp_all add: good_start_def\<close>)

lemma off_events:
  "relay_off (app_relay a) \<Longrightarrow> \<forall>ev \<in> set evs. \<not> good_start ev \<Longrightarrow> relay_off (app_relay (net_events lib evs a))"
proof (induction evs arbitrary: a)
  case (Cons ev evs)
  with off_step [OF Cons.prems(1), of ev lib] show ?case by simp
qed simp

lemma net_events_append: "net_events lib (xs @ ys) a = net_events lib ys (net_events lib xs a)"
  by (induction xs arbitrary: a) simp_all

text \<open>How often the program asked for a connection, and started SNTP.\<close>

definition is_address :: "net_event \<Rightarrow> bool" where
  "is_address ev \<longleftrightarrow> (case ev of Got_Ip b \<Rightarrow> True | _ \<Rightarrow> False)"

lemma event_calls:
  "plat (wifi_event_handler lib ev a) = plat a @
     (if ev = Sta_Disconnected \<or> ev = Sta_Start then [Wifi_Connect]
      else if is_address ev \<and> \<not> sntp_initialized a
        then [Sntp_Set_Mode, Sntp_Set_Server ''pool.ntp.org'', Sntp_Set_Callback, Sntp_Init] else []) \<and>
   sntp_initialized (wifi_event_handler lib ev a) = (sntp_initialized a \<or> is_address ev)"
  by (cases ev) (simp_all add: init_sntp_def is_address_def Let_def)

lemma events_calls:
  "count_list (plat (net_events lib evs a)) Wifi_Connect =
     count_list (plat a) Wifi_Connect + length (filter (\<lambda>ev. ev = Sta_Disconnected \<or> ev = Sta_Start) evs) \<and>
   count_list (plat (net_events lib evs a)) Sntp_Init =
     count_list (plat a) Sntp_Init + (if sntp_initialized a \<or> \<not> list_ex is_address evs then 0 else 1)"
proof (induction evs arbitrary: a)
  case (Cons ev evs)
  from Cons [of "wifi_event_handler lib ev a"] event_calls [of lib ev a] show ?case
    by (auto simp: is_address_def)
qed simp

text \<open>
  Property C23. However often the network comes and goes, the relay is started as soon as an
  address arrives and the start succeeds, and once only: failed starts before it leave the relay
  off and ready for the next, later events leave the running relay exactly as it is.  Every
  start of the station and every loss of the network asks for a connection again, and SNTP is
  started with the first address and never again.
\<close>

theorem relay_comes_up:
  assumes "relay_off (app_relay a)" and "evs = before @ Got_Ip b # after"
    and "\<forall>ev \<in> set before. \<not> good_start ev" and "boot_ok b"
  shows "relay_off (app_relay (net_events lib before a)) \<and>
    app_relay (net_events lib evs a) = start_relay_server lib b (app_relay (net_events lib before a)) \<and>
    ws_server_is_running (fst (app_relay (net_events lib evs a))) \<and>
    count_list (plat (net_events lib evs a)) Wifi_Connect =
      count_list (plat a) Wifi_Connect + length (filter (\<lambda>ev. ev = Sta_Disconnected \<or> ev = Sta_Start) evs) \<and>
    count_list (plat (net_events lib evs a)) Sntp_Init =
      count_list (plat a) Sntp_Init + (if sntp_initialized a then 0 else 1)"
proof -
  let ?a1 = "net_events lib before a"
  have off: "relay_off (app_relay ?a1)" using off_events assms(1,3) by blast
  have up: "running_app (wifi_event_handler lib (Got_Ip b) ?a1)"
      "app_relay (wifi_event_handler lib (Got_Ip b) ?a1) = start_relay_server lib b (app_relay ?a1)"
    using off_step [OF off, of "Got_Ip b" lib] assms(4) by (simp_all add: good_start_def)
  have e: "net_events lib evs a = net_events lib after (wifi_event_handler lib (Got_Ip b) ?a1)"
    by (simp add: assms(2) net_events_append)
  have "app_relay (net_events lib evs a) = start_relay_server lib b (app_relay ?a1)"
    unfolding e running_kept_events [OF up(1)] up(2) ..
  moreover have "running_app (net_events lib evs a)"
    using up(1) running_kept_events [OF up(1), of lib after] unfolding e running_app_def by simp
  moreover have "list_ex is_address evs" by (simp add: assms(2) is_address_def)
  ultimately show ?thesis using off events_calls [of lib evs a] by (simp add: running_app_def)
qed

theorem relay_comes_up_witness:
  "ws_server_is_running (fst (app_relay (net_events (demo_lib demo_notes)
     [Sta_Start, Got_Ip (demo_boot\<lparr>bo_task := False\<rparr>), Sta_Disconnected, Got_Ip demo_boot, Sta_Disconnected, Got_Ip demo_boot] powered)))"
proof -
  have "relay_off (app_relay powered)" using off_relay by (simp add: powered_def)
  moreover have "\<forall>ev \<in> set [Sta_Start, Got_Ip (demo_boot\<lparr>bo_task := False\<rparr>), Sta_Disconnected]. \<not> good_start ev"
    by (simp add: good_start_def boot_ok_def)
  ultimately show ?thesis
    using relay_comes_up [of powered _ "[Sta_Start, Got_Ip (demo_boot\<lparr>bo_task := False\<rparr>), Sta_Disconnected]" demo_boot
        "[Sta_Disconnected, Got_Ip demo_boot]" "demo_lib demo_notes", OF _ refl] demo_boot_ok
    unfolding append.simps by blast
qed

end
