(* ===== verification/Relay_Spec.thy ===== *)
theory Relay_Spec
  imports Relay_Props
begin

text \<open>
  What the relay promises as a whole, without arrays, buffers, files or failures: an abstract
  relay that knows its open connections, a table of subscriptions and a log of events, and the
  proof that every step of the relay is a sequence of steps of this specification.
\<close>

section \<open>The abstract relay\<close>

record spec_relay =
  sp_conns :: "int set"
  sp_subs :: "int \<times> string \<Rightarrow> nostr_filter list option"
  sp_log :: log

text \<open>An event that passed the checks of the library, with 15 minutes of tolerance for its time.\<close>

definition valid_event :: "nostr_lib \<Rightarrow> nostr_event \<Rightarrow> bool" where
  "valid_event lib ev \<longleftrightarrow> (\<exists>now. lib_event_validate_full lib ev 900 now = NOSTR_RELAY_OK)"

text \<open>
  The steps; \<open>T\<close> is the set of readings of the clock.  A subscription may lose its filters when
  it is replaced and memory runs out; a deletion request removes events of its author only;
  expired entries may go at any time, whoever asked.
\<close>

inductive spec_step :: "nostr_lib \<Rightarrow> u32 set \<Rightarrow> spec_relay \<Rightarrow> spec_relay \<Rightarrow> bool" for lib T where
  spec_open: "fd \<notin> sp_conns s \<Longrightarrow> card (sp_conns s) < 8 \<Longrightarrow>
    spec_step lib T s (s\<lparr>sp_conns := insert fd (sp_conns s)\<rparr>)"
| spec_close: "spec_step lib T s (s\<lparr>sp_conns := sp_conns s - {fd},
    sp_subs := (\<lambda>k. if fst k = fd then None else sp_subs s k)\<rparr>)"
| spec_subscribe: "fd \<in> sp_conns s \<Longrightarrow> sid \<noteq> [] \<Longrightarrow> length sid \<le> 64 \<Longrightarrow> length fs \<le> 4 \<Longrightarrow>
    sp_subs s (fd, sid) \<noteq> None \<or> card {k \<in> dom (sp_subs s). fst k = fd} < 8 \<Longrightarrow>
    spec_step lib T s (s\<lparr>sp_subs := (sp_subs s)((fd, sid) \<mapsto> fs)\<rparr>)"
| spec_lose_filters: "fd \<in> sp_conns s \<Longrightarrow> sp_subs s (fd, sid) \<noteq> None \<Longrightarrow>
    spec_step lib T s (s\<lparr>sp_subs := (sp_subs s)((fd, sid) \<mapsto> [])\<rparr>)"
| spec_unsubscribe: "fd \<in> sp_conns s \<Longrightarrow>
    spec_step lib T s (s\<lparr>sp_subs := (sp_subs s)((fd, sid) := None)\<rparr>)"
| spec_save: "valid_event lib ev \<Longrightarrow> \<not> lib_kind_is_ephemeral lib (ev_kind ev) \<Longrightarrow> describes e ev \<Longrightarrow>
    ev_id ev \<notin> log_id ` set (sp_log s) \<Longrightarrow>
    spec_step lib T s (s\<lparr>sp_log := sp_log s @ [(e, Some ev)]\<rparr>)"
| spec_delete: "valid_event lib ev \<Longrightarrow> ev_kind ev = NOSTR_KIND_DELETION \<Longrightarrow>
    \<forall>x \<in> set (sp_log s). \<not> K x \<longrightarrow> x \<in> authored (ev_pubkey ev) \<or> (\<exists>t \<in> T. expired t (fst x)) \<Longrightarrow>
    spec_step lib T s (s\<lparr>sp_log := filter K (sp_log s)\<rparr>)"
| spec_expire: "\<forall>x \<in> set (sp_log s). \<not> K x \<longrightarrow> (\<exists>t \<in> T. expired t (fst x)) \<Longrightarrow>
    spec_step lib T s (s\<lparr>sp_log := filter K (sp_log s)\<rparr>)"

abbreviation spec_steps :: "nostr_lib \<Rightarrow> u32 set \<Rightarrow> spec_relay \<Rightarrow> spec_relay \<Rightarrow> bool" where
  "spec_steps lib T \<equiv> (spec_step lib T)\<^sup>*\<^sup>*"

text \<open>What the relay's state stands for.\<close>

definition core_abs :: "nostr_lib \<Rightarrow> int set \<Rightarrow> relay_core \<Rightarrow> spec_relay" where
  "core_abs lib fds r = \<lparr>sp_conns = fds, sp_subs = sm_view (g_sub_manager r), sp_log = stored lib (g_storage r)\<rparr>"

definition relay_abs :: "nostr_lib \<Rightarrow> relay \<Rightarrow> spec_relay" where
  "relay_abs lib rel = core_abs lib (open_fds (ws (fst rel))) (snd rel)"

lemma core_abs_cong:
  "g_sub_manager r' = g_sub_manager r \<Longrightarrow> g_storage r' = g_storage r \<Longrightarrow> core_abs lib fds r' = core_abs lib fds r"
  by (simp add: core_abs_def)

section \<open>The parts of a message\<close>

lemma steps_one: "spec_step lib T s s' \<Longrightarrow> spec_steps lib T s s'"
  by blast

lemma expire_abs:
  assumes "g_sub_manager r' = g_sub_manager r"
    and "stored lib (g_storage r') = filter (\<lambda>x. fst x \<notin> X) (stored lib (g_storage r))"
    and "\<forall>e \<in> X. \<exists>t \<in> T. expired t e"
  shows "spec_steps lib T (core_abs lib fds r) (core_abs lib fds r')"
proof -
  have "spec_step lib T (core_abs lib fds r)
      ((core_abs lib fds r)\<lparr>sp_log := filter (\<lambda>x. fst x \<notin> X) (sp_log (core_abs lib fds r))\<rparr>)"
    using assms(3) by (intro spec_expire) blast
  then show ?thesis using assms(1,2) by (intro steps_one) (simp add: core_abs_def)
qed

lemma deletion_abs:
  assumes lib: "lib_ok lib" and inv: "store_inv lib (g_storage r)"
    and ev: "valid_event lib ev" "ev_kind ev = NOSTR_KIND_DELETION"
  shows "spec_steps lib (clocks (re_store env)) (core_abs lib fds r) (core_abs lib fds (relay_deletion lib env ev r))"
proof -
  let ?c = "\<lparr>sc_store = g_storage r, sc_tick = store_tick r, sc_heap = alloc r\<rparr>"
  obtain n c where d: "deletion_process lib (re_store env) ev ?c = (n, c)" by force
  have "shrinks lib (re_store env) (authored (ev_pubkey ev)) ?c c"
    using deletion_step [OF _ _ d] lib inv by (simp add: lib_ok_def)
  then obtain K where K: "stored lib (sc_store c) = filter K (stored lib (g_storage r))"
      "\<forall>x \<in> set (stored lib (g_storage r)). \<not> K x \<longrightarrow>
         x \<in> authored (ev_pubkey ev) \<or> (\<exists>t \<in> clocks (re_store env). expired t (fst x))"
    by (auto simp: shrinks_def reduces_def)
  have "spec_step lib (clocks (re_store env)) (core_abs lib fds r)
      ((core_abs lib fds r)\<lparr>sp_log := filter K (sp_log (core_abs lib fds r))\<rparr>)"
    using K(2) by (intro spec_delete [OF ev]) (simp add: core_abs_def)
  then show ?thesis using d K(1) by (intro steps_one) (simp add: core_abs_def relay_deletion_def)
qed

lemma save_abs:
  assumes lib: "lib_ok lib" and inv: "store_inv lib (g_storage r)"
    and ev: "lib_event_validate_full lib ev 900 now = NOSTR_RELAY_OK" "\<not> lib_kind_is_ephemeral lib (ev_kind ev)"
    and nowrap: "next_file_index (eng (g_storage r)) \<noteq> -1" and save: "relay_save lib env ev r = (e, r')"
  shows "spec_steps lib T (core_abs lib fds r) (core_abs lib fds r')"
proof -
  obtain s where s: "storage_save_event lib (re_store env (store_tick r)) ev (g_storage r) = (e, s)"
      "r' = r\<lparr>g_storage := s, store_tick := store_tick r + 1\<rparr>"
    using save by (auto simp: relay_save_def split: prod.splits)
  have c: "length (ev_id ev) = 32" "codec_ok lib ev" using lib ev(1) by (auto simp: lib_ok_def)
  let ?e = "entry_for lib (re_store env (store_tick r)) (eng (g_storage r)) ev
      (idx (eng (g_storage r)) ! unat (index_count (eng (g_storage r))))"
  have log: "stored lib s = stored lib (g_storage r) @ (if e = STORAGE_OK then [(?e, Some ev)] else [])"
    using save_step [OF _ _ _ c(2,1) nowrap s(1)] inv by (simp add: store_inv_def)
  show ?thesis
  proof (cases "e = STORAGE_OK")
    case True
    have "find_index_entry (eng (g_storage r)) (ev_id ev) = None"
      using save_stored [OF s(1) [unfolded True]] by blast
    then have "ev_id ev \<notin> log_id ` set (sp_log (core_abs lib fds r))"
      by (simp add: find_None_iff [of _ _ lib] core_abs_def)
    moreover have "describes ?e ev" by (simp add: describes_def entry_for_def)
    moreover have "valid_event lib ev" using ev(1) by (auto simp: valid_event_def)
    ultimately have "spec_step lib T (core_abs lib fds r)
        ((core_abs lib fds r)\<lparr>sp_log := sp_log (core_abs lib fds r) @ [(?e, Some ev)]\<rparr>)"
      using ev(2) by (intro spec_save)
    then show ?thesis using log True s(2) by (intro steps_one) (simp add: core_abs_def)
  next
    case False
    then have "core_abs lib fds r' = core_abs lib fds r" using log s(2) by (simp add: core_abs_def)
    then show ?thesis by simp
  qed
qed

lemma query_abs:
  assumes inv: "store_inv lib (g_storage r)" and q: "relay_query lib env f limit r = ((e, evs), r')"
  shows "spec_steps lib (clocks (re_store env)) (core_abs lib fds r) (core_abs lib fds r')"
proof -
  obtain s where s: "storage_query_events lib (re_store env (store_tick r)) f limit (g_storage r) = ((e, evs), s)"
      "r' = r\<lparr>g_storage := s, store_tick := store_tick r + 1\<rparr>"
    using q by (auto simp: relay_query_def split: prod.splits)
  obtain X where X: "\<forall>e \<in> X. expired (now_of (re_store env (store_tick r))) e"
      "stored lib s = filter (\<lambda>x. fst x \<notin> X) (stored lib (g_storage r))"
    using engine.query_log [OF inv s(1)] by blast
  then have "\<forall>e \<in> X. \<exists>t \<in> clocks (re_store env). expired t e" using clock_in by blast
  then show ?thesis using X(2) s(2) by (intro expire_abs [of r' r lib X]) simp_all
qed

lemma filters_abs:
  "store_inv lib (g_storage r) \<Longrightarrow> req_filters_loop lib env fd sid fs sent (st, r) = (st', r') \<Longrightarrow>
    spec_steps lib (clocks (re_store env)) (core_abs lib fds r) (core_abs lib fds r')"
proof (induction fs arbitrary: sent st r)
  case (Cons f fs)
  obtain e evs r1 where q: "relay_query lib env f (req_limit f) r = ((e, evs), r1)" by (metis prod.collapse)
  obtain sent1 st1 where l: "(if e = STORAGE_OK then req_events_loop lib env fd sid evs sent st else (sent, st)) = (sent1, st1)"
    by force
  have "req_filters_loop lib env fd sid fs sent1 (st1, r1) = (st', r')"
    using Cons.prems(2) q l by (simp add: Let_def)
  moreover have "store_inv lib (g_storage r1)"
    using relay_query_step [OF q] Cons.prems(1) by (simp add: keeps_def)
  ultimately have "spec_steps lib (clocks (re_store env)) (core_abs lib fds r1) (core_abs lib fds r')"
    using Cons.IH by blast
  with query_abs [OF Cons.prems(1) q, of fds] show ?case by (rule rtranclp_trans)
qed simp

lemma event_abs:
  assumes lib: "lib_ok lib" and inv: "core_inv lib fds r" and nowrap: "next_file_index (eng (g_storage r)) \<noteq> -1"
    and he: "handle_event lib env fd ev (st, r) = (e, (st', r'))"
  shows "spec_steps lib (clocks (re_store env)) (core_abs lib fds r) (core_abs lib fds r')"
proof -
  let ?T = "clocks (re_store env)"
  note p = core_parts [OF inv]
  define result where "result = validator_check_event lib (re_now_lib env (msg_tick r)) (re_now env (msg_tick r)) ev
      \<lparr>vc_max_event_age_sec = cfg_max_event_age_sec (ctx_config r), vc_max_future_sec = cfg_max_future_sec (ctx_config r),
       vc_min_pow_difficulty = 0, vc_check_duplicates = True\<rparr> (ctx_storage r)"
  define r1 where "r1 = (if ev_kind ev = NOSTR_KIND_DELETION \<and> ctx_storage r then relay_deletion lib env ev r else r)"
  note he = he [unfolded handle_event_def Let_def prod.case, folded result_def, folded r1_def]
  show ?thesis
  proof (cases "result = VALIDATION_OK")
    case False
    then show ?thesis using he by simp
  next
    case True
    then have v: "lib_event_validate_full lib ev 900 (re_now_lib env (msg_tick r)) = NOSTR_RELAY_OK"
      using p(7) by (simp add: result_def check_ok_iff acceptable_def relay_defaults_def)
    then have valid: "valid_event lib ev" by (auto simp: valid_event_def)
    have d: "spec_steps lib ?T (core_abs lib fds r) (core_abs lib fds r1)"
      using deletion_abs [OF lib p(6) valid, of env fds] by (auto simp: r1_def)
    have k: "keeps lib r r1" "next_file_index (eng (g_storage r1)) \<noteq> -1"
      using relay_deletion_step [OF lib, of r env ev] nowrap by (simp_all add: r1_def)
    have sm: "sm_inv (g_sub_manager r1)" and st1: "store_inv lib (g_storage r1)"
      using k(1) p(1,6) by (simp_all add: keeps_def)
    show ?thesis
    proof (cases "\<not> lib_kind_is_ephemeral lib (ev_kind ev) \<and> ctx_storage r1")
      case False
      then have "broadcaster_fanout lib env ev (st, r1) = (st', r')" using he True by auto
      with broadcaster_step [OF sm this] d show ?thesis by simp
    next
      case stored: True
      obtain e2 r2 where s: "relay_save lib env ev r1 = (e2, r2)" by force
      have b: "spec_steps lib ?T (core_abs lib fds r) (core_abs lib fds r2)"
        using d save_abs [OF lib st1 v _ k(2) s, of ?T fds] stored by (blast intro: rtranclp_trans)
      have "g_sub_manager r2 = g_sub_manager r1" using relay_save_step [OF lib v k(2) s] by (simp add: keeps_def)
      then have sm2: "sm_inv (g_sub_manager r2)" using sm by simp
      have "r' = r2 \<or> broadcaster_fanout lib env ev (st, r2) = (st', r')"
        using he True stored s by (auto split: if_splits)
      with broadcaster_step [OF sm2] b show ?thesis by metis
    qed
  qed
qed

lemma add_abs:
  assumes inv: "sm_inv (g_sub_manager r)" and fd: "fd \<in> fds" and sid: "sid \<noteq> []" "length sid \<le> 64" and fs: "length fs \<le> 4"
    and add: "sub_manager_add lib (g_sub_manager r) fd sid fs h = (e, mgr, h')"
    and r': "g_sub_manager r' = mgr" "g_storage r' = g_storage r"
  shows "spec_steps lib T (core_abs lib fds r) (core_abs lib fds r')"
proof -
  let ?m = "sm_view (g_sub_manager r)" and ?s = "core_abs lib fds r"
  have spec: "subs_spec_add (copies lib fs h) ?m fd sid fs = (e, sm_view mgr)"
    using add_step [OF inv _ add] sid by (simp add: SUB_MAX_ID_LEN_def)
  have s: "sp_conns ?s = fds" "sp_subs ?s = ?m" by (simp_all add: core_abs_def)
  consider "sm_view mgr = ?m"
    | "sm_view mgr = ?m((fd, sid) \<mapsto> [])" "?m (fd, sid) \<noteq> None"
    | "sm_view mgr = ?m((fd, sid) \<mapsto> fs)" "?m (fd, sid) \<noteq> None \<or> card {k \<in> dom ?m. fst k = fd} < 8"
    using spec fs by (auto simp: subs_spec_add_def sub_consts not_le split: if_splits)
  then show ?thesis
  proof cases
    case 1
    then show ?thesis using r' by (simp add: core_abs_def)
  next
    case 2
    have "spec_step lib T ?s (?s\<lparr>sp_subs := (sp_subs ?s)((fd, sid) \<mapsto> [])\<rparr>)"
      using fd 2(2) by (intro spec_lose_filters) (simp_all add: s)
    then show ?thesis using r' 2(1) by (intro steps_one) (simp add: core_abs_def)
  next
    case 3
    have "spec_step lib T ?s (?s\<lparr>sp_subs := (sp_subs ?s)((fd, sid) \<mapsto> fs)\<rparr>)"
      by (rule spec_subscribe) (use fd sid fs 3(2) in \<open>simp_all add: s\<close>)
    then show ?thesis using r' 3(1) by (intro steps_one) (simp add: core_abs_def)
  qed
qed

lemma req_abs:
  assumes inv: "core_inv lib fds r" and fd: "fd \<in> fds" and sid: "sid \<noteq> []" "length sid \<le> 64" and fs: "length fs \<le> 4"
    and hr: "handle_req lib env fd sid fs (st, r) = (st', r')"
  shows "spec_steps lib (clocks (re_store env)) (core_abs lib fds r) (core_abs lib fds r')"
proof -
  note p = core_parts [OF inv]
  obtain err mgr h where add: "sub_manager_add lib (g_sub_manager r) fd sid fs (alloc r) = (err, mgr, h)"
    by (metis prod_cases3)
  define r1 where "r1 = r\<lparr>g_sub_manager := mgr, alloc := h\<rparr>"
  have a: "spec_steps lib (clocks (re_store env)) (core_abs lib fds r) (core_abs lib fds r1)"
    by (rule add_abs [OF p(1) fd sid fs add]) (simp_all add: r1_def)
  note hr = hr [unfolded handle_req_def Let_def prod.case add, folded r1_def]
  show ?thesis
  proof (cases "err = NOSTR_RELAY_OK")
    case False
    then show ?thesis using hr a p(8) by auto
  next
    case ok: True
    obtain b h2 where m: "malloc (alloc r1) = (b, h2)" by force
    obtain st2 r2 where l: "(if ctx_storage r1 then req_filters_loop lib env fd sid fs (if b then Some [] else None)
          (st, r1\<lparr>alloc := h2\<rparr>) else (st, r1)) = (st2, r2)" by force
    have same: "core_abs lib fds (r1\<lparr>alloc := h2\<rparr>) = core_abs lib fds r1" by (simp add: core_abs_def)
    have "ctx_storage r1" "store_inv lib (g_storage (r1\<lparr>alloc := h2\<rparr>))" using p(6,9) by (simp_all add: r1_def)
    then have "spec_steps lib (clocks (re_store env)) (core_abs lib fds r1) (core_abs lib fds r2)"
      using filters_abs [of lib "r1\<lparr>alloc := h2\<rparr>"] l same by (metis (no_types, lifting))
    moreover have "r' = r2" using hr p(8) ok m l by (auto split: if_splits)
    ultimately show ?thesis using a by (simp add: rtranclp_trans)
  qed
qed

section \<open>Every step of the relay\<close>

text \<open>The rate limiter is invisible in the specification.\<close>

lemma limited_abs:
  assumes inv: "core_inv lib fds r" and fd: "fd \<in> fds" and l: "rate_limited env fd ty r = (b, r1)"
  shows "core_inv lib fds r1 \<and> core_abs lib fds r1 = core_abs lib fds r \<and>
    next_file_index (eng (g_storage r1)) = next_file_index (eng (g_storage r))"
proof -
  note s = rate_limited_step [OF l, of lib]
  then show ?thesis using serves_inv [OF inv fd] core_abs_cong [of r1 r lib fds] by simp
qed

lemma dispatch_event_abs:
  assumes lib: "lib_ok lib" and inv: "core_inv lib fds r" and fd: "fd \<in> fds"
    and nowrap: "next_file_index (eng (g_storage r)) \<noteq> -1"
    and d: "dispatch_event lib env fd ev (st, r) = (st', r')"
  shows "spec_steps lib (clocks (re_store env)) (core_abs lib fds r) (core_abs lib fds r')"
proof -
  obtain b r1 where l: "rate_limited env fd RATE_TYPE_EVENT r = (b, r1)" by force
  note a = limited_abs [OF inv fd l]
  obtain e st2 r2 where h: "handle_event lib env fd ev (st, r1) = (e, (st2, r2))" by (metis prod.collapse)
  have "r' = r1 \<or> r' = r2" using d l h by (auto simp: dispatch_event_def Let_def split: if_splits)
  moreover have "spec_steps lib (clocks (re_store env)) (core_abs lib fds r1) (core_abs lib fds r2)"
    using event_abs [OF lib conjunct1 [OF a] _ h] a nowrap by simp
  ultimately show ?thesis using a by (metis rtranclp.rtrancl_refl)
qed

lemma dispatch_req_abs:
  assumes inv: "core_inv lib fds r" and fd: "fd \<in> fds" and d: "dispatch_req lib env fd sid fs (st, r) = (st', r')"
  shows "spec_steps lib (clocks (re_store env)) (core_abs lib fds r) (core_abs lib fds r')"
proof -
  obtain b r1 where l: "rate_limited env fd RATE_TYPE_REQ r = (b, r1)" by force
  note a = limited_abs [OF inv fd l]
  show ?thesis
  proof (cases "b \<or> length sid = 0 \<or> ROUTER_MAX_SUB_ID < length sid \<or> ROUTER_MAX_FILTERS < length fs")
    case True
    then have "r' = r1" using d l by (auto simp: dispatch_req_def split: if_splits)
    then show ?thesis using a by simp
  next
    case False
    then have h: "handle_req lib env fd sid fs (st, r1) = (st', r')" using d l by (simp add: dispatch_req_def)
    have "sid \<noteq> []" "length sid \<le> 64" "length fs \<le> 4"
      using False by (auto simp: ROUTER_MAX_SUB_ID_def ROUTER_MAX_FILTERS_def)
    from req_abs [OF _ fd this h] a show ?thesis by simp
  qed
qed

lemma dispatch_close_abs:
  assumes inv: "core_inv lib fds r" and fd: "fd \<in> fds" and d: "dispatch_close lib env fd sid (st, r) = (st', r')"
  shows "spec_steps lib T (core_abs lib fds r) (core_abs lib fds r')"
proof -
  note p = core_parts [OF inv]
  obtain e mgr where m: "sub_manager_remove lib (g_sub_manager r) fd sid = (e, mgr)" by force
  have r': "r' = r\<lparr>g_sub_manager := mgr\<rparr>"
    using d m p(8) by (auto simp: dispatch_close_def handle_close_def Let_def split: if_splits)
  have view: "sm_view mgr = (sm_view (g_sub_manager r))((fd, sid) := None)" using remove_step [OF p(1) m] by blast
  have "spec_step lib T (core_abs lib fds r)
      ((core_abs lib fds r)\<lparr>sp_subs := (sp_subs (core_abs lib fds r))((fd, sid) := None)\<rparr>)"
    using fd by (intro spec_unsubscribe) (simp add: core_abs_def)
  then show ?thesis using view by (intro steps_one) (simp add: core_abs_def r')
qed

lemma message_abs:
  assumes lib: "lib_ok lib" and inv: "core_inv lib fds r" and fd: "fd \<in> fds"
    and nowrap: "next_file_index (eng (g_storage r)) \<noteq> -1"
    and m: "on_ws_message lib env fd data (st, r) = (st', r')"
  shows "spec_steps lib (clocks (re_store env)) (core_abs lib fds r) (core_abs lib fds r')"
proof -
  let ?r = "r\<lparr>msg_tick := msg_tick r + 1\<rparr>"
  have inv': "core_inv lib fds ?r" using inv by (simp add: core_inv_def)
  have same: "core_abs lib fds ?r = core_abs lib fds r" by (simp add: core_abs_def)
  obtain e msg where p: "router_parse lib data = (e, msg)" by force
  consider "r' = ?r" | "router_dispatch lib env fd msg (st, ?r) = (st', r')"
    using m p by (auto simp: on_ws_message_def Let_def split: if_splits)
  then show ?thesis
  proof cases
    case 1
    show ?thesis unfolding 1 same by simp
  next
    case 2
    show ?thesis
    proof (cases msg)
      case (ROUTER_MSG_EVENT ev)
      with 2 show ?thesis
        using dispatch_event_abs [OF lib inv' fd] nowrap same by (simp add: router_dispatch_def)
    next
      case (ROUTER_MSG_REQ sid fs)
      with 2 show ?thesis using dispatch_req_abs [OF inv' fd] same by (simp add: router_dispatch_def)
    next
      case (ROUTER_MSG_CLOSE sid)
      with 2 show ?thesis using dispatch_close_abs [OF inv' fd] same by (simp add: router_dispatch_def)
    qed (use 2 same in \<open>auto simp: router_dispatch_def\<close>)
  qed
qed

lemma request_abs:
  assumes lib: "lib_ok lib" and inv: "relay_inv lib (st, r)" and fd: "rq_fd req \<in> open_fds (ws st)"
    and nowrap: "next_file_index (eng (g_storage r)) \<noteq> -1"
    and h: "ws_handler (on_ws_message lib env) req (st, r) = (e, (st', r'))"
  shows "spec_steps lib (clocks (re_store env)) (relay_abs lib (st, r)) (relay_abs lib (st', r'))"
proof -
  have core: "core_inv lib (open_fds (ws st)) r" using inv by (simp add: relay_inv_def)
  have "open_fds (ws st') = open_fds (ws st)" using request_step [OF lib inv fd nowrap h] by blast
  moreover have "spec_steps lib (clocks (re_store env)) (core_abs lib (open_fds (ws st)) r) (core_abs lib (open_fds (ws st)) r')"
  proof (cases "delivers req st")
    case False
    then show ?thesis using handler_quiet [OF False, of "on_ws_message lib env" r] h by simp
  next
    case True
    obtain st1 st2 where "on_ws_message lib env (rq_fd req) (rq_payload req) (st1, r) = (st2, r')"
      using h handler_delivers [OF True, of "on_ws_message lib env" r] by (auto simp: Let_def split: prod.splits)
    from message_abs [OF lib core fd nowrap this] show ?thesis .
  qed
  ultimately show ?thesis by (simp add: relay_abs_def)
qed

lemma open_abs:
  assumes inv: "relay_inv lib (st, r)" and new: "fd \<notin> open_fds (ws st)" and op: "on_open us peer fd st = (e, st')"
  shows "spec_steps lib T (relay_abs lib (st, r)) (relay_abs lib (st', r))"
proof -
  have w: "ws_inv (ws st)" "g_server st" using inv by (simp_all add: relay_inv_def)
  note o = on_open_step [OF w(1) new op]
  let ?s = "relay_abs lib (st, r)"
  show ?thesis
  proof (cases "e = ESP_OK")
    case True
    have "spec_step lib T ?s (?s\<lparr>sp_conns := insert fd (sp_conns ?s)\<rparr>)"
      using o True new by (intro spec_open) (simp_all add: relay_abs_def core_abs_def WS_MAX_CONNECTIONS_def)
    then show ?thesis using o True by (intro steps_one) (simp add: relay_abs_def core_abs_def)
  next
    case False
    then show ?thesis using o by simp
  qed
qed

lemma close_abs:
  assumes inv: "relay_inv lib (st, r)" and cl: "on_close (on_ws_disconnect lib) fd (st, r) = (st', r')"
  shows "spec_steps lib T (relay_abs lib (st, r)) (relay_abs lib (st', r'))"
proof -
  have w: "ws_inv (ws st)" "g_server st" "g_disconnect_callback st" "core_inv lib (open_fds (ws st)) r"
    using inv by (simp_all add: relay_inv_def)
  have fds: "open_fds (ws st') = open_fds (ws st) - {fd}" using close_inv [OF inv cl] by blast
  have r': "r' = on_ws_disconnect lib fd r" using on_close_step [OF w(1) cl] w by simp
  let ?s = "relay_abs lib (st, r)"
  have s: "sp_conns ?s = open_fds (ws st)" "sp_subs ?s = sm_view (g_sub_manager r)" by (simp_all add: relay_abs_def core_abs_def)
  have "spec_step lib T ?s (?s\<lparr>sp_conns := open_fds (ws st) - {fd},
      sp_subs := (\<lambda>k. if fst k = fd then None else sm_view (g_sub_manager r) k)\<rparr>)"
    using spec_close [of lib T ?s fd] unfolding s .
  then show ?thesis
    using remove_all_step [OF core_parts(1) [OF w(4)], of lib fd] fds r'
    by (intro steps_one) (simp add: relay_abs_def core_abs_def on_ws_disconnect_def)
qed

lemma cleanup_abs:
  assumes inv: "store_inv lib (g_storage r)"
    and cyc: "cleanup_cycle lib (re_store env i) (re_store env j) (c, g_storage r) = (c', s')"
  shows "spec_steps lib (clocks (re_store env)) (core_abs lib fds r) (core_abs lib fds (r\<lparr>g_storage := s'\<rparr>))"
proof (cases "cleanup_stop (eng (g_storage r))")
  case True
  then show ?thesis using cyc by (simp add: cleanup_cycle_def core_abs_def)
next
  case False
  let ?X = "{e. expired (now_of (re_store env i)) e}"
  have "stored lib s' = filter (\<lambda>x. fst x \<notin> ?X) (stored lib (g_storage r))"
    using cleanup_cycle_step [OF inv False cyc] by simp
  moreover have "\<forall>e \<in> ?X. \<exists>t \<in> clocks (re_store env). expired t e" using clock_in by blast
  ultimately show ?thesis by (intro expire_abs [of _ r lib ?X]) simp_all
qed

lemma relay_step_abs:
  assumes lib: "lib_ok lib" and step: "relay_step lib env rel rel'" and inv: "relay_inv lib rel"
  shows "spec_steps lib (clocks (re_store env)) (relay_abs lib rel) (relay_abs lib rel')"
  using step inv
proof (induction rule: relay_step.induct)
  case (step_open fd st us peer e st' r)
  then show ?case using open_abs by blast
next
  case (step_close fd st r st' r')
  then show ?case using close_abs by blast
next
  case (step_request req st r e st' r')
  then show ?case using request_abs [OF lib] by blast
next
  case (step_work st r)
  have "ws (ws_async_send st) = ws st" by (simp add: ws_async_send_def emit_def split: list.split)
  then show ?case by (simp add: relay_abs_def)
next
  case (step_cleanup i j c r c' s' st)
  then have "store_inv lib (g_storage r)" by (simp add: relay_inv_def core_inv_def)
  from cleanup_abs [OF this step_cleanup.hyps] show ?case by (simp add: relay_abs_def)
qed

section \<open>What the specification says of the log\<close>

text \<open>
  \<open>history lib T s s'\<close>: the later log is what is left of the earlier one, in its order, and
  after it new events; what was removed had expired or was its author's to delete, and what
  was added had passed the checks.
\<close>

definition history :: "nostr_lib \<Rightarrow> u32 set \<Rightarrow> log \<Rightarrow> log \<Rightarrow> bool" where
  "history lib T l l' \<longleftrightarrow> (\<exists>K new. l' = filter K l @ new \<and>
     (\<forall>x \<in> set l. \<not> K x \<longrightarrow> (\<exists>t \<in> T. expired t (fst x)) \<or>
        (\<exists>ev. valid_event lib ev \<and> ev_kind ev = NOSTR_KIND_DELETION \<and> x \<in> authored (ev_pubkey ev))) \<and>
     (\<forall>x \<in> set new. \<exists>ev. snd x = Some ev \<and> valid_event lib ev \<and>
        \<not> lib_kind_is_ephemeral lib (ev_kind ev) \<and> describes (fst x) ev))"

lemma history_refl: "history lib T l l"
  unfolding history_def by (rule exI [of _ "\<lambda>_. True"], rule exI [of _ "[]"]) simp

lemma history_save:
  assumes h: "history lib T l l'"
    and ev: "valid_event lib ev" "\<not> lib_kind_is_ephemeral lib (ev_kind ev)" "describes e ev"
  shows "history lib T l (l' @ [(e, Some ev)])"
proof -
  from h obtain K new where "l' = filter K l @ new"
    "\<forall>x \<in> set l. \<not> K x \<longrightarrow> (\<exists>t \<in> T. expired t (fst x)) \<or>
        (\<exists>ev. valid_event lib ev \<and> ev_kind ev = NOSTR_KIND_DELETION \<and> x \<in> authored (ev_pubkey ev))"
    "\<forall>x \<in> set new. \<exists>ev. snd x = Some ev \<and> valid_event lib ev \<and>
        \<not> lib_kind_is_ephemeral lib (ev_kind ev) \<and> describes (fst x) ev"
    unfolding history_def by blast
  with ev show ?thesis
    unfolding history_def by (intro exI [of _ K] exI [of _ "new @ [(e, Some ev)]"]) auto
qed

lemma history_filter:
  assumes h: "history lib T l l'"
    and out: "\<forall>x \<in> set l'. \<not> L x \<longrightarrow> (\<exists>t \<in> T. expired t (fst x)) \<or>
        (\<exists>ev. valid_event lib ev \<and> ev_kind ev = NOSTR_KIND_DELETION \<and> x \<in> authored (ev_pubkey ev))"
  shows "history lib T l (filter L l')"
proof -
  from h obtain K new where k: "l' = filter K l @ new"
    "\<forall>x \<in> set l. \<not> K x \<longrightarrow> (\<exists>t \<in> T. expired t (fst x)) \<or>
        (\<exists>ev. valid_event lib ev \<and> ev_kind ev = NOSTR_KIND_DELETION \<and> x \<in> authored (ev_pubkey ev))"
    "\<forall>x \<in> set new. \<exists>ev. snd x = Some ev \<and> valid_event lib ev \<and>
        \<not> lib_kind_is_ephemeral lib (ev_kind ev) \<and> describes (fst x) ev"
    unfolding history_def by blast
  have "filter L l' = filter (\<lambda>x. K x \<and> L x) l @ filter L new" using k(1) by (simp add: conj_commute)
  then show ?thesis
    unfolding history_def using k out
    by (intro exI [of _ "\<lambda>x. K x \<and> L x"] exI [of _ "filter L new"]) auto
qed

lemma spec_step_history:
  assumes "spec_step lib T s s'" and "history lib T l (sp_log s)"
  shows "history lib T l (sp_log s')"
  using assms
proof cases
  case (spec_save ev e)
  then show ?thesis using history_save [OF assms(2)] by simp
next
  case (spec_delete ev K)
  then show ?thesis using history_filter [OF assms(2), of K] by auto
next
  case (spec_expire K)
  then show ?thesis using history_filter [OF assms(2), of K] by auto
qed (use assms(2) in simp_all)

lemma spec_steps_history: "spec_steps lib T s s' \<Longrightarrow> history lib T l (sp_log s) \<Longrightarrow> history lib T l (sp_log s')"
  by (induction rule: rtranclp_induct) (auto intro: spec_step_history)

section \<open>Isolation of the connections\<close>

lemma subs_spec_other: "subs_spec_add b m fd sid fs = (e, m') \<Longrightarrow> fd' \<noteq> fd \<Longrightarrow> m' (fd', sid') = m (fd', sid')"
  by (auto simp: subs_spec_add_def split: if_splits)

lemma sub_uses_others:
  assumes "sm_inv mgr" and "sub_uses lib fd mgr mgr'" and "fd' \<noteq> fd"
  shows "sm_view mgr' (fd', sid) = sm_view mgr (fd', sid)"
  using assms(2) unfolding sub_uses_def
proof (elim disjE exE conjE)
  fix sid2 fs h e h'
  assume "length sid2 \<le> SUB_MAX_ID_LEN" "sub_manager_add lib mgr fd sid2 fs h = (e, mgr', h')"
  from add_step [OF assms(1) this] subs_spec_other assms(3) show ?thesis by blast
next
  fix sid2 e assume "sub_manager_remove lib mgr fd sid2 = (e, mgr')"
  from remove_step [OF assms(1) this] assms(3) show ?thesis by simp
qed simp

lemma rate_uses_others:
  assumes "rl_inv rl" and "rate_uses fd rl rl'" and "fd' \<noteq> fd"
  shows "rl_view rl' fd' = rl_view rl fd'"
  using assms(2) unfolding rate_uses_def
proof (elim disjE exE)
  fix ty a b r assume "rate_limiter_check rl fd ty a b = (r, rl')"
  from check_step [OF assms(1) this] limiter_spec_other assms(3) show ?thesis by blast
qed simp

lemma request_serves:
  assumes lib: "lib_ok lib" and inv: "relay_inv lib (st, r)" and fd: "rq_fd req \<in> open_fds (ws st)"
    and nowrap: "next_file_index (eng (g_storage r)) \<noteq> -1"
    and h: "ws_handler (on_ws_message lib env) req (st, r) = (e, (st', r'))"
  shows "serves lib (rq_fd req) r r'"
proof (cases "delivers req st")
  case False
  then show ?thesis using handler_quiet [OF False, of "on_ws_message lib env" r] h by simp
next
  case True
  have core: "core_inv lib (open_fds (ws st)) r" using inv by (simp add: relay_inv_def)
  obtain st1 st2 where "on_ws_message lib env (rq_fd req) (rq_payload req) (st1, r) = (st2, r')"
    using h handler_delivers [OF True, of "on_ws_message lib env" r] by (auto simp: Let_def split: prod.splits)
  from message_serves [OF lib core fd nowrap this] show ?thesis by blast
qed

section \<open>Properties\<close>


lemma demo_opens: "relay_step (demo_lib demo_notes) env demo_up demo_one"
proof -
  obtain st r where up: "demo_up = (st, r)" by force
  obtain e st1 where o: "on_open 0 None 54 st = (e, st1)" by force
  have "open_fds (ws st) = {}" using demo_started(2) by (simp add: up)
  then show ?thesis using step_open [OF _ o, of "demo_lib demo_notes" env r] by (simp add: demo_one_def up o)
qed


lemma run_abs:
  assumes "lib_ok lib" and "reachable lib env rel" and "(relay_step lib env)\<^sup>*\<^sup>* rel rel'"
  shows "reachable lib env rel' \<and> spec_steps lib (clocks (re_store env)) (relay_abs lib rel) (relay_abs lib rel')"
  using assms(3)
proof (induction rule: rtranclp_induct)
  case (step y z)
  then have y: "reachable lib env y" by blast
  from relay_step_abs [OF assms(1) step.hyps(2) reachable_inv [OF assms(1) y]] step.IH
  show ?case using reach_step [OF y step.hyps(2)] by (meson rtranclp_trans)
qed (simp add: assms(2))



text \<open>
  Property C6. Connections do not interfere: a request of one connection leaves the
  subscriptions and the rate budget of every other connection exactly as they are, and the set
  of open connections too.
\<close>

theorem requests_isolated:
  assumes "lib_ok lib" and "reachable lib env (st, r)" and "rq_fd req \<in> open_fds (ws st)"
    and "next_file_index (eng (g_storage r)) \<noteq> -1"
    and "ws_handler (on_ws_message lib env) req (st, r) = (e, (st', r'))" and "fd \<noteq> rq_fd req"
  shows "sm_view (g_sub_manager r') (fd, sid) = sm_view (g_sub_manager r) (fd, sid) \<and>
    rl_view (g_rate_limiter r') fd = rl_view (g_rate_limiter r) fd \<and>
    open_fds (ws st') = open_fds (ws st)"
proof -
  note inv = reachable_inv [OF assms(1,2)]
  have "core_inv lib (open_fds (ws st)) r" using inv by (simp add: relay_inv_def)
  note p = core_parts [OF this]
  have "sub_uses lib (rq_fd req) (g_sub_manager r) (g_sub_manager r')"
      "rate_uses (rq_fd req) (g_rate_limiter r) (g_rate_limiter r')"
    using request_serves [OF assms(1) inv assms(3,4,5)] by (simp_all add: serves_def)
  with sub_uses_others [OF p(1) _ assms(6)] rate_uses_others [OF p(3) _ assms(6)]
    request_step [OF assms(1) inv assms(3,4,5)] show ?thesis by blast
qed

theorem requests_isolated_witness:
  "\<exists>e st' r'. ws_handler (on_ws_message (demo_lib demo_notes) demo_env) (text_request 54 ''Rfeed'') demo_one = (e, (st', r')) \<and>
     sm_view (g_sub_manager r') (55, ''feed'') = None \<and> open_fds (ws st') = {54}"
proof -
  obtain st r where one: "demo_one = (st, r)" by force
  obtain e st' r' where h: "ws_handler (on_ws_message (demo_lib demo_notes) demo_env) (text_request 54 ''Rfeed'') (st, r) = (e, (st', r'))"
    by (metis prod.collapse)
  note o = demo_opened [unfolded one fst_conv snd_conv]
  have "next_file_index (eng (g_storage r)) \<noteq> -1" using demo_started(5) o(5) by simp
  from requests_isolated [OF demo_lib_ok o(1) [of demo_env] _ this h, of 55 "''feed''"]
  show ?thesis unfolding one using h o(2,3) by (intro exI [of _ e] exI [of _ st'] exI [of _ r']) (simp add: text_request_def)
qed

end
