(* ===== verification/Dynamic_Memory.thy ===== *)
theory Dynamic_Memory
  imports Nostr_Interface "HOL-Library.Monad_Syntax"
begin

text \<open>
  Dynamic memory for the part of the code that manages memory by hand: cells behind addresses,
  and allocation by the schedule of \<open>Nostr_Interface\<close>.  Using a cell that is not there or
  releasing it twice has no result.
\<close>

section \<open>Cells and addresses\<close>

type_synonym addr = nat

text \<open>Addresses are handed out once, so that a stale pointer never points to a later cell.\<close>

record 'c mem =
  cells :: "addr \<rightharpoonup> 'c"
  next_addr :: addr

definition mem_ok :: "'c mem \<Rightarrow> bool" where
  "mem_ok m \<longleftrightarrow> (\<forall>p \<in> dom (cells m). p < next_addr m)"

definition mem_new :: "'c \<Rightarrow> 'c mem \<Rightarrow> addr \<times> 'c mem" where
  "mem_new c m = (next_addr m, \<lparr>cells = (cells m)(next_addr m \<mapsto> c), next_addr = next_addr m + 1\<rparr>)"

definition mem_free :: "addr \<Rightarrow> 'c mem \<Rightarrow> 'c mem option" where
  "mem_free p m = (if cells m p = None then None else Some (m\<lparr>cells := (cells m)(p := None)\<rparr>))"

definition mem_write :: "addr \<Rightarrow> 'c \<Rightarrow> 'c mem \<Rightarrow> 'c mem option" where
  "mem_write p c m = (if cells m p = None then None else Some (m\<lparr>cells := (cells m)(p \<mapsto> c)\<rparr>))"

text \<open>\<open>malloc\<close>, \<open>calloc\<close> or \<open>strdup\<close>: the null pointer, or a new cell.\<close>

definition mem_alloc :: "'c \<Rightarrow> heap \<Rightarrow> 'c mem \<Rightarrow> addr option \<times> heap \<times> 'c mem" where
  "mem_alloc c h m =
     (case malloc h of
        (False, h1) \<Rightarrow> (None, h1, m)
      | (True, h1) \<Rightarrow> (let (p, m1) = mem_new c m in (Some p, h1, m1)))"

text \<open>\<open>free (NULL)\<close> does nothing.\<close>

definition free_ptr :: "addr option \<Rightarrow> 'c mem \<Rightarrow> 'c mem option" where
  "free_ptr p m = (case p of None \<Rightarrow> Some m | Some a \<Rightarrow> mem_free a m)"

fun free_each :: "addr list \<Rightarrow> 'c mem \<Rightarrow> 'c mem option" where
  "free_each [] m = Some m"
| "free_each (p # ps) m = do { m1 \<leftarrow> mem_free p m; free_each ps m1 }"

end
