(* ===== verification/Memory_Cells.thy ===== *)
theory Memory_Cells
  imports Deletion Dynamic_Memory
begin

text \<open>
  Dynamic memory as the code uses it: data lives in cells behind addresses, and using a cell that
  is not there, writing beyond an array or releasing twice has no result.  Here are the cells,
  what the library promises about memory, and the query results of \<open>main/storage_engine.c\<close>
  (\<open>load_event_from_file\<close>, \<open>storage_query_events\<close>, \<open>storage_free_query_results\<close>): the code of
  \<open>Storage_Engine\<close>, one level lower.
\<close>

section \<open>Cells\<close>

datatype cell =
    Event_Cell nostr_event
  | Filters_Cell "nostr_filter option list" \<comment> \<open>an array of filters; none once \<open>nostr_filter_free\<close> has run\<close>
  | Results_Cell "addr option list" \<comment> \<open>an array of pointers to events\<close>
  | Ids_Cell "u8 list list" \<comment> \<open>the part of an array of 64 ids that is written\<close>
  | Request_Cell deletion_request \<comment> \<open>what \<open>nostr_deletion_parse\<close> allocates\<close>
  | Bytes_Cell

type_synonym memory = "cell mem"

fun read_event :: "addr \<Rightarrow> memory \<Rightarrow> nostr_event option" where
  "read_event p m = (case cells m p of Some (Event_Cell ev) \<Rightarrow> Some ev | _ \<Rightarrow> None)"

fun read_request :: "addr \<Rightarrow> memory \<Rightarrow> deletion_request option" where
  "read_request p m = (case cells m p of Some (Request_Cell req) \<Rightarrow> Some req | _ \<Rightarrow> None)"

fun read_filter :: "addr option \<Rightarrow> nat \<Rightarrow> memory \<Rightarrow> nostr_filter option" where
  "read_filter None i m = None"
| "read_filter (Some p) i m =
     (case cells m p of Some (Filters_Cell fs) \<Rightarrow> if i < length fs then fs ! i else None | _ \<Rightarrow> None)"

fun read_result :: "addr \<Rightarrow> nat \<Rightarrow> memory \<Rightarrow> addr option option" where
  "read_result r i m =
     (case cells m r of Some (Results_Cell ps) \<Rightarrow> if i < length ps then Some (ps ! i) else None | _ \<Rightarrow> None)"

fun write_result :: "addr \<Rightarrow> nat \<Rightarrow> addr \<Rightarrow> memory \<Rightarrow> memory option" where
  "write_result r i p m =
     (case cells m r of
        Some (Results_Cell ps) \<Rightarrow>
          if i < length ps then Some (m\<lparr>cells := (cells m)(r \<mapsto> Results_Cell (ps[i := Some p]))\<rparr>) else None
      | _ \<Rightarrow> None)"

section \<open>The library's use of memory\<close>

text \<open>\<open>nostr_client_msg_t\<close> with its pointers, and the router's message likewise.\<close>

datatype client_msg_p =
    Client_Event_P "addr option"
  | Client_Req_P string "addr option" nat
  | Client_Close_P string
  | Client_Auth_P
  | Client_Unknown_P

text \<open>
  \<open>nostr_client_msg_parse\<close>, \<open>nostr_client_msg_free\<close>, \<open>nostr_event_parse\<close>,
  \<open>nostr_event_destroy\<close>, \<open>nostr_filter_free (&fs[i])\<close>, \<open>nostr_free\<close>, \<open>nostr_deletion_parse\<close> and
  \<open>nostr_deletion_free\<close>, as functions on memory.
\<close>

record mem_lib =
  ml_msg_parse :: "string \<Rightarrow> memory \<Rightarrow> (nostr_relay_error + client_msg_p) \<times> memory"
  ml_msg_free :: "client_msg_p \<Rightarrow> memory \<Rightarrow> memory option"
  ml_event_parse :: "string \<Rightarrow> memory \<Rightarrow> addr option \<times> memory"
  ml_event_destroy :: "addr \<Rightarrow> memory \<Rightarrow> memory option"
  ml_filter_free :: "addr \<Rightarrow> nat \<Rightarrow> memory \<Rightarrow> memory option"
  ml_free :: "addr \<Rightarrow> memory \<Rightarrow> memory option"
  ml_deletion_parse :: "nostr_event \<Rightarrow> memory \<Rightarrow> addr option \<times> memory"
  ml_deletion_free :: "addr \<Rightarrow> memory \<Rightarrow> memory option"

text \<open>\<open>extends m m' p c\<close>: \<open>m'\<close> is \<open>m\<close> with one new cell.\<close>

definition extends :: "memory \<Rightarrow> memory \<Rightarrow> addr \<Rightarrow> cell \<Rightarrow> bool" where
  "extends m m' p c \<longleftrightarrow> mem_ok m' \<and> cells m p = None \<and> cells m' = (cells m)(p \<mapsto> c)"

definition same_cells :: "memory \<Rightarrow> memory \<Rightarrow> bool" where
  "same_cells m m' \<longleftrightarrow> mem_ok m' \<and> cells m' = cells m"

text \<open>
  \<open>msg_placed m m' c msg\<close>: in \<open>m'\<close> the message \<open>c\<close> points to what \<open>msg\<close> holds, in new cells.  An
  empty list of filters may be a null pointer.
\<close>

fun msg_placed :: "memory \<Rightarrow> memory \<Rightarrow> client_msg_p \<Rightarrow> client_msg \<Rightarrow> bool" where
  "msg_placed m m' (Client_Event_P q) (Client_Event ev) = (\<exists>p. q = Some p \<and> extends m m' p (Event_Cell ev))"
| "msg_placed m m' (Client_Req_P sid q n) (Client_Req sid' fs) =
     (sid = sid' \<and> n = length fs \<and>
      (case q of None \<Rightarrow> fs = [] \<and> same_cells m m'
       | Some p \<Rightarrow> extends m m' p (Filters_Cell (map Some fs))))"
| "msg_placed m m' (Client_Close_P sid) (Client_Close sid') = (sid = sid' \<and> same_cells m m')"
| "msg_placed m m' Client_Auth_P Client_Auth = same_cells m m'"
| "msg_placed m m' Client_Unknown_P Client_Unknown = same_cells m m'"
| "msg_placed m m' _ _ = False"

text \<open>The client message owns nothing any more.\<close>

fun disowned :: "client_msg_p \<Rightarrow> bool" where
  "disowned (Client_Event_P q) = (q = None)"
| "disowned (Client_Req_P sid q n) = (q = None \<and> n = 0)"
| "disowned _ = True"

text \<open>
  What the library documents: a parser that succeeds returns new memory the caller owns and one
  that fails leaves none; each release function releases what it is given once.  Nothing is said
  of any other use.
\<close>

definition mem_lib_ok :: "nostr_lib \<Rightarrow> mem_lib \<Rightarrow> bool" where
  "mem_lib_ok lib ml \<longleftrightarrow>
     (\<forall>m json. mem_ok m \<longrightarrow>
        (case lib_client_msg_parse lib json of
           Inl e \<Rightarrow> \<exists>m'. ml_msg_parse ml json m = (Inl e, m') \<and> same_cells m m'
         | Inr msg \<Rightarrow> \<exists>c m'. ml_msg_parse ml json m = (Inr c, m') \<and> msg_placed m m' c msg)) \<and>
     (\<forall>m c. disowned c \<longrightarrow> ml_msg_free ml c m = Some m) \<and>
     (\<forall>m json. mem_ok m \<longrightarrow>
        (case lib_event_parse lib json of
           None \<Rightarrow> \<exists>m'. ml_event_parse ml json m = (None, m') \<and> same_cells m m'
         | Some ev \<Rightarrow> \<exists>p m'. ml_event_parse ml json m = (Some p, m') \<and> extends m m' p (Event_Cell ev))) \<and>
     (\<forall>m p ev. cells m p = Some (Event_Cell ev) \<longrightarrow> ml_event_destroy ml p m = mem_free p m) \<and>
     (\<forall>m p fs i f. cells m p = Some (Filters_Cell fs) \<and> i < length fs \<and> fs ! i = Some f \<longrightarrow>
        ml_filter_free ml p i m = Some (m\<lparr>cells := (cells m)(p \<mapsto> Filters_Cell (fs[i := None]))\<rparr>)) \<and>
     (\<forall>m p fs. cells m p = Some (Filters_Cell fs) \<and> set fs \<subseteq> {None} \<longrightarrow> ml_free ml p m = mem_free p m) \<and>
     (\<forall>m ev. mem_ok m \<longrightarrow>
        (case lib_deletion_parse lib ev of
           None \<Rightarrow> \<exists>m'. ml_deletion_parse ml ev m = (None, m') \<and> same_cells m m'
         | Some req \<Rightarrow> \<exists>p m'. ml_deletion_parse ml ev m = (Some p, m') \<and> extends m m' p (Request_Cell req))) \<and>
     (\<forall>m p req. cells m p = Some (Request_Cell req) \<longrightarrow> ml_deletion_free ml p m = mem_free p m)"

section \<open>Query results\<close>

text \<open>\<open>load_event_from_file\<close> of a file that can be read: the text is read into a buffer.\<close>

definition load_event_p ::
    "nostr_lib \<Rightarrow> mem_lib \<Rightarrow> storage_env \<Rightarrow> string \<Rightarrow> storage_sys \<Rightarrow> memory \<Rightarrow> (addr option \<times> memory) option" where
  "load_event_p lib ml env path s m =
     (if \<not> env_read env path then Some (None, m)
      else case files s path of
          None \<Rightarrow> Some (None, m)
        | Some json \<Rightarrow>
            if length json = 0 \<or> STORAGE_MAX_EVENT_SIZE < length json then Some (None, m)
            else
              let (buf, m) = mem_new Bytes_Cell m;
                  (ev, m) = ml_event_parse ml json m
              in do { m \<leftarrow> mem_free buf m; Some (ev, m) })"

fun query_loop_p ::
    "nostr_lib \<Rightarrow> mem_lib \<Rightarrow> storage_env \<Rightarrow> nostr_filter \<Rightarrow> nat \<Rightarrow> u32 \<Rightarrow> nat \<Rightarrow> addr \<Rightarrow> storage_sys \<Rightarrow> nat \<Rightarrow>
     memory \<Rightarrow> (nat \<times> storage_sys \<times> memory) option" where
  "query_loop_p lib ml env f limit now 0 r s count m = Some (count, s, m)"
| "query_loop_p lib ml env f limit now (Suc i) r s count m =
     (if \<not> count < limit then Some (count, s, m)
      else
        let e = idx (eng s) ! i in
        if deleted e then query_loop_p lib ml env f limit now i r s count m
        else if expired now e then query_loop_p lib ml env f limit now i r (mark_entry_expired lib env i s) count m
        else if \<not> index_matches_filter lib e f then query_loop_p lib ml env f limit now i r s count m
        else do {
          (q, m) \<leftarrow> load_event_p lib ml env (entry_path lib e) s m;
          (case q of
             None \<Rightarrow> query_loop_p lib ml env f limit now i r s count m
           | Some p \<Rightarrow> do {
               ev \<leftarrow> read_event p m;
               (if lib_filter_matches lib f ev then do {
                  m \<leftarrow> write_result r count p m;
                  query_loop_p lib ml env f limit now i r s (count + 1) m }
                else do {
                  m \<leftarrow> ml_event_destroy ml p m;
                  query_loop_p lib ml env f limit now i r s count m }) }) })"

text \<open>The result: the error, the array and the count.\<close>

definition storage_query_events_p ::
    "nostr_lib \<Rightarrow> mem_lib \<Rightarrow> storage_env \<Rightarrow> nostr_filter \<Rightarrow> u16 \<Rightarrow> storage_sys \<Rightarrow> memory \<Rightarrow>
     ((storage_error \<times> addr option \<times> nat) \<times> storage_sys \<times> memory) option" where
  "storage_query_events_p lib ml env f limit s m =
     (if \<not> initialized (eng s) then Some ((STORAGE_ERR_NOT_INITIALIZED, None, 0), s, m)
      else
        let limit = (if 500 < limit then 500 else limit) in
        if \<not> env_malloc env then Some ((STORAGE_ERR_NO_MEM, None, 0), s, m)
        else
          let (r, m) = mem_new (Results_Cell (replicate (unat limit) None)) m in
          do { (count, s, m) \<leftarrow> query_loop_p lib ml env f (unat limit) (now_of env)
                                 (unat (index_count (eng s))) r s 0 m;
               Some ((STORAGE_OK, Some r, count), s, m) })"

fun free_results_loop :: "mem_lib \<Rightarrow> addr \<Rightarrow> nat list \<Rightarrow> memory \<Rightarrow> memory option" where
  "free_results_loop ml r [] m = Some m"
| "free_results_loop ml r (i # is) m = do {
     q \<leftarrow> read_result r i m;
     (case q of None \<Rightarrow> free_results_loop ml r is m
      | Some p \<Rightarrow> do { m \<leftarrow> ml_event_destroy ml p m; free_results_loop ml r is m }) }"

fun storage_free_query_results_p :: "mem_lib \<Rightarrow> addr option \<Rightarrow> nat \<Rightarrow> memory \<Rightarrow> memory option" where
  "storage_free_query_results_p ml None count m = Some m"
| "storage_free_query_results_p ml (Some r) count m =
     do { m \<leftarrow> free_results_loop ml r [0 ..< count] m; mem_free r m }"

section \<open>Using memory rightly\<close>

lemma same_cellsI: "mem_ok m \<Longrightarrow> same_cells m m"
  by (simp add: same_cells_def)

lemma same_cells_trans: "same_cells m m' \<Longrightarrow> same_cells m' m'' \<Longrightarrow> same_cells m m''"
  by (simp add: same_cells_def)

lemma mem_ok_put: "mem_ok m \<Longrightarrow> cells m p \<noteq> None \<Longrightarrow> mem_ok (m\<lparr>cells := (cells m)(p \<mapsto> c)\<rparr>)"
  by (auto simp: mem_ok_def)

lemma mem_new_extends:
  assumes "mem_ok m" and "mem_new c m = (p, m')"
  shows "extends m m' p c"
proof -
  have "cells m (next_addr m) = None" using assms(1) by (auto simp: mem_ok_def)
  then show ?thesis using assms by (auto simp: mem_new_def extends_def mem_ok_def less_Suc_eq split: if_splits)
qed

lemma mem_free_live:
  assumes "mem_ok m" and "cells m p = Some c"
  shows "\<exists>m'. mem_free p m = Some m' \<and> mem_ok m' \<and> cells m' = (cells m)(p := None)"
  using assms by (auto simp: mem_free_def mem_ok_def)

text \<open>The laws of the library, one at a time.\<close>

lemma msg_parse_fails:
  assumes "mem_lib_ok lib ml" and "mem_ok m" and "lib_client_msg_parse lib json = Inl e"
  obtains m' where "ml_msg_parse ml json m = (Inl e, m')" and "same_cells m m'"
  using assms(1) [unfolded mem_lib_ok_def, THEN conjunct1, rule_format, OF assms(2), of json] assms(3) by auto

lemma msg_parse_places:
  assumes "mem_lib_ok lib ml" and "mem_ok m" and "lib_client_msg_parse lib json = Inr msg"
  obtains c m' where "ml_msg_parse ml json m = (Inr c, m')" and "msg_placed m m' c msg"
  using assms(1) [unfolded mem_lib_ok_def, THEN conjunct1, rule_format, OF assms(2), of json] assms(3) by auto

lemma msg_free_disowned: "mem_lib_ok lib ml \<Longrightarrow> disowned c \<Longrightarrow> ml_msg_free ml c m = Some m"
  unfolding mem_lib_ok_def by blast

lemma event_parse_law:
  "mem_lib_ok lib ml \<Longrightarrow> mem_ok m \<Longrightarrow>
   (case lib_event_parse lib json of
      None \<Rightarrow> \<exists>m'. ml_event_parse ml json m = (None, m') \<and> same_cells m m'
    | Some ev \<Rightarrow> \<exists>p m'. ml_event_parse ml json m = (Some p, m') \<and> extends m m' p (Event_Cell ev))"
  unfolding mem_lib_ok_def by blast

lemma event_destroy_live:
  "mem_lib_ok lib ml \<Longrightarrow> cells m p = Some (Event_Cell ev) \<Longrightarrow> ml_event_destroy ml p m = mem_free p m"
  unfolding mem_lib_ok_def by blast

lemma filter_free_live:
  "mem_lib_ok lib ml \<Longrightarrow> cells m p = Some (Filters_Cell fs) \<Longrightarrow> i < length fs \<Longrightarrow> fs ! i = Some f \<Longrightarrow>
   ml_filter_free ml p i m = Some (m\<lparr>cells := (cells m)(p \<mapsto> Filters_Cell (fs[i := None]))\<rparr>)"
  unfolding mem_lib_ok_def by blast

lemma free_emptied:
  "mem_lib_ok lib ml \<Longrightarrow> cells m p = Some (Filters_Cell fs) \<Longrightarrow> set fs \<subseteq> {None} \<Longrightarrow> ml_free ml p m = mem_free p m"
  unfolding mem_lib_ok_def by blast

lemma deletion_parse_law:
  "mem_lib_ok lib ml \<Longrightarrow> mem_ok m \<Longrightarrow>
   (case lib_deletion_parse lib ev of
      None \<Rightarrow> \<exists>m'. ml_deletion_parse ml ev m = (None, m') \<and> same_cells m m'
    | Some req \<Rightarrow> \<exists>p m'. ml_deletion_parse ml ev m = (Some p, m') \<and> extends m m' p (Request_Cell req))"
  unfolding mem_lib_ok_def by blast

lemma deletion_free_live:
  "mem_lib_ok lib ml \<Longrightarrow> cells m p = Some (Request_Cell req) \<Longrightarrow> ml_deletion_free ml p m = mem_free p m"
  unfolding mem_lib_ok_def by blast

section \<open>Query results are placed and released\<close>

lemma load_event_places:
  assumes "mem_lib_ok lib ml" and "mem_ok m"
  shows "case load_event_from_file lib env path s of
      None \<Rightarrow> \<exists>m'. load_event_p lib ml env path s m = Some (None, m') \<and> same_cells m m'
    | Some ev \<Rightarrow> \<exists>p m'. load_event_p lib ml env path s m = Some (Some p, m') \<and> extends m m' p (Event_Cell ev)"
proof (cases "env_read env path \<and> (\<exists>json. files s path = Some json \<and> length json \<noteq> 0 \<and> length json \<le> STORAGE_MAX_EVENT_SIZE)")
  case True
  then obtain json where j: "env_read env path" "files s path = Some json" "json \<noteq> []" "length json \<le> STORAGE_MAX_EVENT_SIZE"
    by auto
  have v: "load_event_from_file lib env path s = lib_event_parse lib json"
    using j by (simp add: load_event_from_file_def parse_file_def)
  obtain buf m1 where n: "mem_new Bytes_Cell m = (buf, m1)" by force
  note x = mem_new_extends [OF assms(2) n]
  then have ok1: "mem_ok m1" by (simp add: extends_def)
  show ?thesis
  proof (cases "lib_event_parse lib json")
    case None
    with event_parse_law [OF assms(1) ok1, of json] obtain m2 where
      e: "ml_event_parse ml json m1 = (None, m2)" and s2: "same_cells m1 m2" by auto
    obtain m3 where "mem_free buf m2 = Some m3" "mem_ok m3" "cells m3 = (cells m2)(buf := None)"
      using mem_free_live [of m2 buf Bytes_Cell] s2 x by (auto simp: same_cells_def extends_def)
    moreover have "(cells m2)(buf := None) = cells m" using s2 x by (auto simp: same_cells_def extends_def)
    ultimately show ?thesis using v None j n e by (simp add: load_event_p_def same_cells_def)
  next
    case (Some ev)
    with event_parse_law [OF assms(1) ok1, of json] obtain p m2 where
      e: "ml_event_parse ml json m1 = (Some p, m2)" and s2: "extends m1 m2 p (Event_Cell ev)" by auto
    have pb: "p \<noteq> buf" "cells m p = None" using s2 x by (auto simp: extends_def split: if_splits)
    obtain m3 where "mem_free buf m2 = Some m3" "mem_ok m3" "cells m3 = (cells m2)(buf := None)"
      using mem_free_live [of m2 buf Bytes_Cell] s2 x pb by (auto simp: extends_def)
    moreover have "(cells m2)(buf := None) = (cells m)(p \<mapsto> Event_Cell ev)"
      using s2 x pb by (auto simp: extends_def)
    ultimately show ?thesis using v Some j n e pb by (simp add: load_event_p_def extends_def)
  qed
next
  case False
  then have "load_event_from_file lib env path s = None" "load_event_p lib ml env path s m = Some (None, m)"
    by (auto simp: load_event_from_file_def parse_file_def load_event_p_def split: option.splits)
  then show ?thesis using same_cellsI [OF assms(2)] by simp
qed

text \<open>
  \<open>holds C m r k ps evs\<close>: beyond the cells of \<open>C\<close>, the memory holds an array of \<open>k\<close> pointers at
  \<open>r\<close>, the first of them \<open>ps\<close>, and the events \<open>evs\<close> they point to.
\<close>

definition events_at :: "addr list \<Rightarrow> nostr_event list \<Rightarrow> addr \<rightharpoonup> cell" where
  "events_at ps evs = map_of (zip ps (map Event_Cell evs))"

definition result_array :: "nat \<Rightarrow> addr list \<Rightarrow> cell" where
  "result_array k ps = Results_Cell (map Some ps @ replicate (k - length ps) None)"

definition holds :: "(addr \<rightharpoonup> cell) \<Rightarrow> memory \<Rightarrow> addr \<Rightarrow> nat \<Rightarrow> addr list \<Rightarrow> nostr_event list \<Rightarrow> bool" where
  "holds C m r k ps evs \<longleftrightarrow>
     mem_ok m \<and> length ps = length evs \<and> length ps \<le> k \<and> distinct (r # ps) \<and> set (r # ps) \<inter> dom C = {} \<and>
     cells m = (C ++ events_at ps evs)(r \<mapsto> result_array k ps)"

lemma events_at_dom: "length ps = length evs \<Longrightarrow> dom (events_at ps evs) = set ps"
  by (simp add: events_at_def dom_map_of_zip)

lemma events_at_None: "length ps = length evs \<Longrightarrow> events_at ps evs p = None \<longleftrightarrow> p \<notin> set ps"
  using events_at_dom [of ps evs] by (metis domIff)

lemma events_at_nth: "distinct ps \<Longrightarrow> length ps = length evs \<Longrightarrow> i < length ps \<Longrightarrow> events_at ps evs (ps ! i) = Some (Event_Cell (evs ! i))"
  by (simp add: events_at_def map_of_zip_nth)

lemma events_at_snoc:
  assumes "length ps = length evs" and "p \<notin> set ps"
  shows "events_at (ps @ [p]) (evs @ [ev]) = (events_at ps evs)(p \<mapsto> Event_Cell ev)"
proof -
  have "p \<notin> dom (events_at ps evs)" using assms by (simp add: events_at_dom)
  from map_add_upd_left [OF this, of Map.empty "Event_Cell ev"] assms(1) show ?thesis by (simp add: events_at_def)
qed

lemma events_at_Cons: "events_at (p # ps) (ev # evs) = (events_at ps evs)(p \<mapsto> Event_Cell ev)"
  by (simp add: events_at_def)

lemma holds_start:
  assumes "mem_ok m" and "mem_new (Results_Cell (replicate k None)) m = (r, m')"
  shows "holds (cells m) m' r k [] []"
  using mem_new_extends [OF assms] by (auto simp: holds_def extends_def events_at_def result_array_def)

lemma result_array_write: "length ps < k \<Longrightarrow>
  (map Some ps @ replicate (k - length ps) None)[length ps := Some p] =
  map Some (ps @ [p]) @ replicate (k - length (ps @ [p])) None"
  by (cases "k - length ps") (auto simp: list_update_append)

lemma holds_load:
  assumes h: "holds C m r k ps evs" and "length ps < k" and x: "extends m m1 p (Event_Cell ev)"
  shows "\<exists>m2. write_result r (length ps) p m1 = Some m2 \<and> holds C m2 r k (ps @ [p]) (evs @ [ev])"
proof -
  note d = h [unfolded holds_def]
  have "cells m p = None" "mem_ok m1" "cells m1 = (cells m)(p \<mapsto> Event_Cell ev)" using x by (simp_all add: extends_def)
  with d have p: "p \<noteq> r" "p \<notin> set ps" "C p = None" "mem_ok m1" "cells m1 = (cells m)(p \<mapsto> Event_Cell ev)"
    by (auto simp: events_at_None split: if_splits)
  have c: "cells m1 r = Some (result_array k ps)" using p d by simp
  define m2 where "m2 = m1\<lparr>cells := (cells m1)(r \<mapsto> result_array k (ps @ [p]))\<rparr>"
  have "write_result r (length ps) p m1 = Some m2"
    using c result_array_write [OF assms(2), of p] assms(2) by (simp add: m2_def result_array_def)
  moreover have "holds C m2 r k (ps @ [p]) (evs @ [ev])"
    using d p assms(2) mem_ok_put [of m1 r "result_array k (ps @ [p])"] c
    by (auto simp: holds_def m2_def events_at_snoc fun_upd_twist)
  ultimately show ?thesis by blast
qed

lemma holds_same: "holds C m r k ps evs \<Longrightarrow> same_cells m m' \<Longrightarrow> holds C m' r k ps evs"
  by (simp add: holds_def same_cells_def)

lemma extends_free:
  assumes "extends m m1 p c"
  shows "\<exists>m2. mem_free p m1 = Some m2 \<and> same_cells m m2"
proof -
  have "mem_ok m1" "cells m1 p = Some c" and u: "(cells m1)(p := None) = cells m"
    using assms by (auto simp: extends_def)
  from mem_free_live [OF this(1,2)] u show ?thesis by (auto simp: same_cells_def)
qed

lemma query_loop_places:
  assumes "mem_lib_ok lib ml"
  shows "holds C m r limit ps acc \<Longrightarrow> query_loop lib env f limit now i s acc = (evs, s') \<Longrightarrow>
    \<exists>ps' m'. query_loop_p lib ml env f limit now i r s (length acc) m = Some (length evs, s', m') \<and>
      holds C m' r limit ps' evs"
proof (induction i arbitrary: m ps acc s)
  case (Suc i)
  let ?e = "idx (eng s) ! i"
  note len = Suc.prems(1) [unfolded holds_def]
  consider "\<not> length acc < limit" | "length acc < limit" "deleted ?e"
    | "length acc < limit" "\<not> deleted ?e" "expired now ?e"
    | "length acc < limit" "\<not> deleted ?e" "\<not> expired now ?e" "\<not> index_matches_filter lib ?e f"
    | (load) "length acc < limit" "\<not> deleted ?e" "\<not> expired now ?e" "index_matches_filter lib ?e f"
    by blast
  then show ?case
  proof cases
    case load
    note loaded = load_event_places [OF assms conjunct1 [OF len], of env "entry_path lib ?e" s]
    show ?thesis
    proof (cases "load_event_from_file lib env (entry_path lib ?e) s")
      case None
      with loaded obtain m1 where l: "load_event_p lib ml env (entry_path lib ?e) s m = Some (None, m1)"
        and same: "same_cells m m1" by auto
      have "query_loop lib env f limit now i s acc = (evs, s')" using Suc.prems(2) load None by (simp add: Let_def)
      from Suc.IH [OF holds_same [OF Suc.prems(1) same] this] show ?thesis using load l by (simp add: Let_def)
    next
      case (Some ev)
      with loaded obtain p m1 where l: "load_event_p lib ml env (entry_path lib ?e) s m = Some (Some p, m1)"
        and x: "extends m m1 p (Event_Cell ev)" by auto
      have c: "cells m1 p = Some (Event_Cell ev)" using x by (simp add: extends_def)
      show ?thesis
      proof (cases "lib_filter_matches lib f ev")
        case True
        obtain m2 where w: "write_result r (length acc) p m1 = Some m2"
          and h2: "holds C m2 r limit (ps @ [p]) (acc @ [ev])"
          using holds_load [OF Suc.prems(1) _ x] len load(1) by auto
        have "query_loop lib env f limit now i s (acc @ [ev]) = (evs, s')"
          using Suc.prems(2) load Some True by (simp add: Let_def)
        from Suc.IH [OF h2 this] show ?thesis using load l c True w by (simp add: Let_def)
      next
        case False
        obtain m2 where w: "mem_free p m1 = Some m2" and same: "same_cells m m2" using extends_free [OF x] by blast
        have "query_loop lib env f limit now i s acc = (evs, s')" using Suc.prems(2) load Some False by (simp add: Let_def)
        from Suc.IH [OF holds_same [OF Suc.prems(1) same] this] show ?thesis
          using load l c False w event_destroy_live [OF assms c] by (simp add: Let_def)
      qed
    qed
  qed (use Suc in \<open>auto simp: Let_def\<close>)
qed auto

lemma free_results_loop:
  assumes "mem_lib_ok lib ml"
  shows "mem_ok m \<Longrightarrow> length ps = length evs \<Longrightarrow> distinct (r # ps) \<Longrightarrow> set ps \<inter> dom C = {} \<Longrightarrow>
    cells m = (C ++ events_at ps evs)(r \<mapsto> Results_Cell A) \<Longrightarrow>
    (\<And>j. j < length ps \<Longrightarrow> i + j < length A \<and> A ! (i + j) = Some (ps ! j)) \<Longrightarrow>
    \<exists>m'. free_results_loop ml r [i ..< i + length ps] m = Some m' \<and> mem_ok m' \<and> cells m' = C(r \<mapsto> Results_Cell A)"
proof (induction ps arbitrary: i m evs)
  case Nil then show ?case by (auto simp: events_at_def)
next
  case (Cons p ps)
  obtain ev es where evs: "evs = ev # es" using Cons.prems(2) by (cases evs) auto
  have a: "i < length A" "A ! i = Some p" using Cons.prems(6) [of 0] by auto
  have c: "cells m p = Some (Event_Cell ev)" using Cons.prems(3,5) by (auto simp: evs events_at_Cons)
  obtain m1 where m1: "mem_free p m = Some m1" "mem_ok m1" "cells m1 = (cells m)(p := None)"
    using mem_free_live [OF Cons.prems(1) c] by blast
  have "cells m1 = (C ++ events_at ps es)(r \<mapsto> Results_Cell A)"
  proof
    fix x
    have "p \<notin> dom C" "p \<noteq> r" "events_at ps es p = None"
      using Cons.prems(2-4) by (simp_all add: evs events_at_None)
    then show "cells m1 x = ((C ++ events_at ps es)(r \<mapsto> Results_Cell A)) x"
      using m1(3) Cons.prems(5) by (auto simp: evs events_at_Cons map_add_def)
  qed
  note c1 = this
  have at: "Suc i + j < length A \<and> A ! (Suc i + j) = Some (ps ! j)" if "j < length ps" for j
    using Cons.prems(6) [of "Suc j"] that by simp
  have "length ps = length es" "distinct (r # ps)" "set ps \<inter> dom C = {}" using Cons.prems(2-4) by (simp_all add: evs)
  from Cons.IH [OF m1(2) this c1 at] obtain m' where "free_results_loop ml r [Suc i ..< Suc i + length ps] m1 = Some m'" "mem_ok m'"
      "cells m' = C(r \<mapsto> Results_Cell A)" by blast
  moreover have "cells m r = Some (Results_Cell A)" using Cons.prems(5) by simp
  moreover have "[i ..< i + length (p # ps)] = i # [Suc i ..< Suc i + length ps]" by (simp add: upt_conv_Cons del: upt_Suc)
  ultimately show ?case using a m1 event_destroy_live [OF assms c] by (simp del: upt_Suc fun_upd_apply)
qed

lemma holds_released:
  assumes "mem_lib_ok lib ml" and h: "holds C m r k ps evs"
  shows "\<exists>m'. storage_free_query_results_p ml (Some r) (length evs) m = Some m' \<and> mem_ok m' \<and> cells m' = C"
proof -
  note d = h [unfolded holds_def]
  obtain m1 where m1: "free_results_loop ml r [0 ..< 0 + length ps] m = Some m1" "mem_ok m1"
      "cells m1 = C(r \<mapsto> result_array k ps)"
    using free_results_loop [OF assms(1), of m ps evs r C "map Some ps @ replicate (k - length ps) None" 0] d
    unfolding result_array_def by (auto simp: nth_append)
  have "C r = None" using d by auto
  with m1(3) have "(cells m1)(r := None) = C" by auto
  with mem_free_live [OF m1(2), of r "result_array k ps"] m1(3) obtain m2 where
    "mem_free r m1 = Some m2" "mem_ok m2" "cells m2 = C" by auto
  with m1(1) d show ?thesis by auto
qed

lemma query_places:
  assumes "mem_lib_ok lib ml" and "mem_ok m" and q: "storage_query_events lib env f limit s = ((e, evs), s')"
  obtains (found) a m' k ps where "storage_query_events_p lib ml env f limit s m = Some ((STORAGE_OK, Some a, length evs), s', m')"
      and "e = STORAGE_OK" and "holds (cells m) m' a k ps evs"
    | (failed) "storage_query_events_p lib ml env f limit s m = Some ((e, None, 0), s', m)" and "e \<noteq> STORAGE_OK"
proof (cases "initialized (eng s) \<and> env_malloc env")
  case True
  let ?k = "if 500 < limit then 500 else limit"
  obtain r m1 where n: "mem_new (Results_Cell (replicate (unat ?k) None)) m = (r, m1)" by force
  have "query_loop lib env f (unat ?k) (now_of env) (unat (index_count (eng s))) s [] = (evs, s')" and e: "e = STORAGE_OK"
    using q True by (auto simp: storage_query_events_def Let_def split: prod.splits)
  from query_loop_places [OF assms(1) holds_start [OF assms(2) n] this(1)] obtain ps' m' where
    "query_loop_p lib ml env f (unat ?k) (now_of env) (unat (index_count (eng s))) r s 0 m1 = Some (length evs, s', m')"
    "holds (cells m) m' r (unat ?k) ps' evs" by auto
  with n True e show ?thesis by (intro found) (simp_all add: storage_query_events_p_def Let_def)
next
  case False
  with q show ?thesis by (intro failed) (auto simp: storage_query_events_def storage_query_events_p_def split: if_splits)
qed

lemma holds_reads:
  assumes "holds C m r k ps evs" and "i < length evs"
  shows "read_result r i m = Some (Some (ps ! i)) \<and> read_event (ps ! i) m = Some (evs ! i)"
proof -
  note d = assms(1) [unfolded holds_def]
  have "ps ! i \<noteq> r" using d assms(2) by (metis distinct.simps(2) nth_mem)
  then show ?thesis using d assms(2) by (simp add: result_array_def nth_append events_at_nth)
qed

text \<open>A library that keeps its laws, over the values of any \<open>lib\<close>.\<close>

definition demo_mem :: "nostr_lib \<Rightarrow> mem_lib" where
  "demo_mem lib =
     \<lparr>ml_msg_parse = (\<lambda>json m. case lib_client_msg_parse lib json of
          Inl e \<Rightarrow> (Inl e, m)
        | Inr (Client_Event ev) \<Rightarrow> (let (p, m) = mem_new (Event_Cell ev) m in (Inr (Client_Event_P (Some p)), m))
        | Inr (Client_Req sid fs) \<Rightarrow>
            (let (p, m) = mem_new (Filters_Cell (map Some fs)) m in (Inr (Client_Req_P sid (Some p) (length fs)), m))
        | Inr (Client_Close sid) \<Rightarrow> (Inr (Client_Close_P sid), m)
        | Inr Client_Auth \<Rightarrow> (Inr Client_Auth_P, m)
        | Inr Client_Unknown \<Rightarrow> (Inr Client_Unknown_P, m)),
      ml_msg_free = (\<lambda>c m. case c of Client_Event_P (Some p) \<Rightarrow> mem_free p m | _ \<Rightarrow> Some m),
      ml_event_parse = (\<lambda>json m. case lib_event_parse lib json of None \<Rightarrow> (None, m)
        | Some ev \<Rightarrow> (let (p, m) = mem_new (Event_Cell ev) m in (Some p, m))),
      ml_event_destroy = (\<lambda>p m. mem_free p m),
      ml_filter_free = (\<lambda>p i m. case cells m p of
          Some (Filters_Cell fs) \<Rightarrow>
            if i < length fs then Some (m\<lparr>cells := (cells m)(p \<mapsto> Filters_Cell (fs[i := None]))\<rparr>) else None
        | _ \<Rightarrow> None),
      ml_free = (\<lambda>p m. mem_free p m),
      ml_deletion_parse = (\<lambda>ev m. case lib_deletion_parse lib ev of None \<Rightarrow> (None, m)
        | Some req \<Rightarrow> (let (p, m) = mem_new (Request_Cell req) m in (Some p, m))),
      ml_deletion_free = (\<lambda>p m. mem_free p m)\<rparr>"

lemma demo_mem_ok: "mem_lib_ok lib (demo_mem lib)"
proof -
  have n: "extends m (snd (mem_new c m)) (fst (mem_new c m)) c" if "mem_ok m" for m c
    using mem_new_extends [OF that] by (metis prod.collapse)
  show ?thesis unfolding mem_lib_ok_def
  proof (intro conjI allI impI)
    show "case lib_client_msg_parse lib json of
           Inl e \<Rightarrow> \<exists>m'. ml_msg_parse (demo_mem lib) json m = (Inl e, m') \<and> same_cells m m'
         | Inr msg \<Rightarrow> \<exists>c m'. ml_msg_parse (demo_mem lib) json m = (Inr c, m') \<and> msg_placed m m' c msg"
      if m: "mem_ok m" for m json
      using n [OF m] same_cellsI [OF m]
      by (auto simp: demo_mem_def case_prod_unfold Let_def split: sum.split client_msg.split)
    show "case lib_event_parse lib json of
           None \<Rightarrow> \<exists>m'. ml_event_parse (demo_mem lib) json m = (None, m') \<and> same_cells m m'
         | Some ev \<Rightarrow> \<exists>p m'. ml_event_parse (demo_mem lib) json m = (Some p, m') \<and> extends m m' p (Event_Cell ev)"
      if m: "mem_ok m" for m json
      using n [OF m] same_cellsI [OF m] by (auto simp: demo_mem_def case_prod_unfold Let_def split: option.split)
    show "case lib_deletion_parse lib ev of
           None \<Rightarrow> \<exists>m'. ml_deletion_parse (demo_mem lib) ev m = (None, m') \<and> same_cells m m'
         | Some req \<Rightarrow> \<exists>p m'. ml_deletion_parse (demo_mem lib) ev m = (Some p, m') \<and> extends m m' p (Request_Cell req)"
      if m: "mem_ok m" for m ev
      using n [OF m] same_cellsI [OF m] by (auto simp: demo_mem_def case_prod_unfold Let_def split: option.split)
    show "ml_msg_free (demo_mem lib) c m = Some m" if "disowned c" for m c
      using that by (cases c) (auto simp: demo_mem_def)
  qed (auto simp: demo_mem_def)
qed

end
