(* ===== verification/Event_Memory.thy ===== *)
theory Event_Memory
  imports Handlers Memory_Cells
begin

text \<open>
  The dynamic memory of the EVENT handler: looking up and deleting the targets of a deletion
  request (\<open>main/deletion.c\<close>), saving (\<open>storage_save_event\<close>), sending (\<open>router_send_event\<close> of
  \<open>main/router.c\<close>) and the fan-out; the code of \<open>Deletion\<close>, \<open>Storage_Engine\<close>, \<open>Relay_State\<close> and
  \<open>Handlers\<close>, one level lower.
\<close>

section \<open>Buffers\<close>

text \<open>\<open>malloc\<close> that may fail, and \<open>free\<close>, which ignores a null pointer.\<close>

definition mem_malloc :: "bool \<Rightarrow> memory \<Rightarrow> addr option \<times> memory" where
  "mem_malloc b m = (if b then (let (p, m) = mem_new Bytes_Cell m in (Some p, m)) else (None, m))"

fun free_null :: "addr option \<Rightarrow> memory \<Rightarrow> memory option" where
  "free_null None m = Some m"
| "free_null (Some p) m = mem_free p m"

definition router_send_event_p ::
    "nostr_lib \<Rightarrow> relay_env \<Rightarrow> int \<Rightarrow> string \<Rightarrow> addr \<Rightarrow> ws_state \<Rightarrow> memory \<Rightarrow> ((esp_err \<times> ws_state) \<times> memory) option" where
  "router_send_event_p lib env fd sid p st m = do {
     let (buf, m) = mem_malloc (sd_buf (re_send env (send_tick st))) m;
     (case buf of
        None \<Rightarrow> Some ((ESP_ERR_NO_MEM, st\<lparr>send_tick := send_tick st + 1\<rparr>), m)
      | Some b \<Rightarrow> do {
          ev \<leftarrow> read_event p m;
          (case lib_relay_msg_serialize lib (Relay_Event sid ev) ROUTER_EVENT_BUF_SIZE of
             None \<Rightarrow> do { m \<leftarrow> mem_free b m; Some ((ESP_ERR_NO_MEM, st\<lparr>send_tick := send_tick st + 1\<rparr>), m) }
           | Some text \<Rightarrow> do {
               let (e, st) = send_next (re_send env) fd text st;
               m \<leftarrow> mem_free b m;
               Some ((e, st), m) }) }) }"

fun fanout_loop_p ::
    "nostr_lib \<Rightarrow> relay_env \<Rightarrow> addr \<Rightarrow> sub_match_entry list \<Rightarrow> ws_state \<Rightarrow> memory \<Rightarrow> (ws_state \<times> memory) option" where
  "fanout_loop_p lib env p [] st m = Some (st, m)"
| "fanout_loop_p lib env p (x # xs) st m = do {
     ((e, st), m) \<leftarrow> router_send_event_p lib env (me_conn_fd x) (me_sub_id x) p st m;
     fanout_loop_p lib env p xs st m }"

definition broadcaster_fanout_p ::
    "nostr_lib \<Rightarrow> relay_env \<Rightarrow> addr \<Rightarrow> relay \<Rightarrow> memory \<Rightarrow> (relay \<times> memory) option" where
  "broadcaster_fanout_p lib env p rel m =
     (let (st, r) = rel in
      if \<not> ctx_sub_manager r then Some ((st, r), m)
      else do {
        ev \<leftarrow> read_event p m;
        (let res = sub_manager_match lib (g_sub_manager r) ev in
         if match_count res = 0 then Some ((st, r), m)
         else do {
           (st, m) \<leftarrow> fanout_loop_p lib env p (take (unat (match_count res)) (sm_matches res)) st m;
           Some ((st, r), m) }) })"

section \<open>Saving\<close>

definition storage_save_event_p ::
    "nostr_lib \<Rightarrow> storage_env \<Rightarrow> addr \<Rightarrow> storage_sys \<Rightarrow> memory \<Rightarrow> (storage_error \<times> storage_sys \<times> memory) option" where
  "storage_save_event_p lib env p s m =
     (let en = eng s in
      if \<not> initialized en then Some (STORAGE_ERR_NOT_INITIALIZED, s, m)
      else do {
        ev \<leftarrow> read_event p m;
        (if find_index_entry en (ev_id ev) \<noteq> None then Some (STORAGE_ERR_DUPLICATE, s, m)
         else if max_index_entries en \<le> index_count en then Some (STORAGE_ERR_FULL, s, m)
         else
           let (buf, m) = mem_malloc (env_malloc env) m in
           case buf of
             None \<Rightarrow> Some (STORAGE_ERR_NO_MEM, s, m)
           | Some b \<Rightarrow>
             (case lib_event_serialize lib ev STORAGE_MAX_EVENT_SIZE of
                None \<Rightarrow> do { m \<leftarrow> mem_free b m; Some (STORAGE_ERR_SERIALIZE, s, m) }
              | Some json \<Rightarrow>
                  (let path = get_event_path lib (ev_id ev) (next_file_index en) 128 in
                   if \<not> env_fopen1 env \<and> \<not> env_fopen2 env
                   then do { m \<leftarrow> mem_free b m; Some (STORAGE_ERR_IO, s, m) }
                   else
                     let written = min (env_written env) (length json);
                         s = s\<lparr>files := (files s)(path \<mapsto> take written json)\<rparr>
                     in do {
                       m \<leftarrow> mem_free b m;
                       (if written \<noteq> length json then Some (STORAGE_ERR_IO, unlink_file env path s, m)
                        else
                          let i = unat (index_count en);
                              s = set_entry i (entry_for lib env en ev (idx en ! i)) s;
                              s = s\<lparr>eng := (eng s)\<lparr>index_count := index_count en + 1,
                                                  next_file_index := next_file_index en + 1\<rparr>\<rparr>;
                              s = (if index_count (eng s) mod 10 = 0 then persist env s else s)
                          in Some (STORAGE_OK, s, m)) }))) })"

section \<open>Deletion requests\<close>

definition storage_get_event_p ::
    "nostr_lib \<Rightarrow> mem_lib \<Rightarrow> storage_env \<Rightarrow> u8 list \<Rightarrow> storage_sys \<Rightarrow> memory \<Rightarrow> (addr option \<times> memory) option" where
  "storage_get_event_p lib ml env event_id s m =
     (if \<not> initialized (eng s) then Some (None, m)
      else case find_index_entry (eng s) event_id of
          None \<Rightarrow> Some (None, m)
        | Some i \<Rightarrow> load_event_p lib ml env (entry_path lib (idx (eng s) ! i)) s m)"

text \<open>The loops run over indices of the arrays of the request at \<open>q\<close>.\<close>

fun delete_ids_loop_p ::
    "nostr_lib \<Rightarrow> mem_lib \<Rightarrow> envs \<Rightarrow> addr \<Rightarrow> nat list \<Rightarrow> store_ctx \<Rightarrow> int \<Rightarrow> memory \<Rightarrow> (int \<times> store_ctx \<times> memory) option" where
  "delete_ids_loop_p lib ml envs q [] c n m = Some (n, c, m)"
| "delete_ids_loop_p lib ml envs q (i # js) c n m = do {
     request \<leftarrow> read_request q m;
     (case lib_hex_to_bytes lib (dr_event_ids request ! i) 64 32 of
        None \<Rightarrow> delete_ids_loop_p lib ml envs q js c n m
      | Some event_id \<Rightarrow> do {
          (t, m) \<leftarrow> storage_get_event_p lib ml (envs (sc_tick c)) event_id (sc_store c) m;
          let c = c\<lparr>sc_tick := sc_tick c + 1\<rparr>;
          (case t of
             None \<Rightarrow> delete_ids_loop_p lib ml envs q js c n m
           | Some p \<Rightarrow> do {
               target \<leftarrow> read_event p m;
               let (n, c) =
                 (if lib_deletion_authorized lib request target then
                    let (r, c) = ctx_delete lib envs event_id c in (if r = STORAGE_OK then n + 1 else n, c)
                  else (n, c));
               m \<leftarrow> ml_event_destroy ml p m;
               delete_ids_loop_p lib ml envs q js c n m }) }) }"

fun delete_found_loop_p ::
    "nostr_lib \<Rightarrow> envs \<Rightarrow> (nostr_event \<Rightarrow> bool) \<Rightarrow> addr \<Rightarrow> nat list \<Rightarrow> store_ctx \<Rightarrow> int \<Rightarrow> memory \<Rightarrow> (int \<times> store_ctx) option" where
  "delete_found_loop_p lib envs sel a [] c n m = Some (n, c)"
| "delete_found_loop_p lib envs sel a (e # es) c n m = do {
     p \<leftarrow> read_result a e m;
     p \<leftarrow> p;
     ev \<leftarrow> read_event p m;
     (if sel ev then
        let (r, c) = ctx_delete lib envs (ev_id ev) c
        in delete_found_loop_p lib envs sel a es c (if r = STORAGE_OK then n + 1 else n) m
      else delete_found_loop_p lib envs sel a es c n m) }"

text \<open>The query, the deletions and the release both loops over addresses and kinds share.\<close>

definition query_and_delete_p ::
    "nostr_lib \<Rightarrow> mem_lib \<Rightarrow> envs \<Rightarrow> nostr_filter \<Rightarrow> u16 \<Rightarrow> (nostr_event \<Rightarrow> bool) \<Rightarrow> store_ctx \<Rightarrow> int \<Rightarrow> memory \<Rightarrow>
     (int \<times> store_ctx \<times> memory) option" where
  "query_and_delete_p lib ml envs f limit sel c n m = do {
     ((r, events, count), s, m) \<leftarrow> storage_query_events_p lib ml (envs (sc_tick c)) f limit (sc_store c) m;
     let c = c\<lparr>sc_store := s, sc_tick := sc_tick c + 1\<rparr>;
     (case events of
        Some a \<Rightarrow>
          if r = STORAGE_OK then do {
            (n, c) \<leftarrow> delete_found_loop_p lib envs sel a [0 ..< count] c n m;
            m \<leftarrow> storage_free_query_results_p ml events count m;
            Some (n, c, m) }
          else Some (n, c, m)
      | None \<Rightarrow> Some (n, c, m)) }"

fun delete_addresses_loop_p ::
    "nostr_lib \<Rightarrow> mem_lib \<Rightarrow> envs \<Rightarrow> addr \<Rightarrow> int \<Rightarrow> nat list \<Rightarrow> store_ctx \<Rightarrow> int \<Rightarrow> memory \<Rightarrow>
     (int \<times> store_ctx \<times> memory) option" where
  "delete_addresses_loop_p lib ml envs q before [] c n m = Some (n, c, m)"
| "delete_addresses_loop_p lib ml envs q before (i # js) c n m = do {
     request \<leftarrow> read_request q m;
     (case scan_address (dr_addresses request ! i) of
        None \<Rightarrow> delete_addresses_loop_p lib ml envs q before js c n m
      | Some (kind, pubkey, d_tag) \<Rightarrow>
          if pubkey \<noteq> dr_pubkey request then delete_addresses_loop_p lib ml envs q before js c n m
          else
            let (b1, c) = ctx_malloc c; (b2, c) = ctx_malloc c;
                (kinds, m) = mem_malloc b1 m; (authors, m) = mem_malloc b2 m in
            if kinds = None \<or> authors = None then do {
              m \<leftarrow> free_null kinds m;
              m \<leftarrow> free_null authors m;
              delete_addresses_loop_p lib ml envs q before js c n m }
            else
              let f = zero_filter\<lparr>f_kinds := [kind], f_authors := [pubkey], f_until := before, f_limit := 100\<rparr>
              in do {
                (n, c, m) \<leftarrow> query_and_delete_p lib ml envs f 100 (has_d_tag lib d_tag) c n m;
                m \<leftarrow> free_null kinds m;
                m \<leftarrow> free_null authors m;
                delete_addresses_loop_p lib ml envs q before js c n m }) }"

fun delete_kinds_loop_p ::
    "nostr_lib \<Rightarrow> mem_lib \<Rightarrow> envs \<Rightarrow> addr \<Rightarrow> int list \<Rightarrow> store_ctx \<Rightarrow> int \<Rightarrow> memory \<Rightarrow>
     (int \<times> store_ctx \<times> memory) option" where
  "delete_kinds_loop_p lib ml envs p [] c n m = Some (n, c, m)"
| "delete_kinds_loop_p lib ml envs p (k # ks) c n m = do {
     ev \<leftarrow> read_event p m;
     (let (b, c) = ctx_malloc c; (authors, m) = mem_malloc b m in
      if authors = None then delete_kinds_loop_p lib ml envs p ks c n m
      else
        let f = zero_filter\<lparr>f_kinds := [k], f_authors := [lib_bytes_to_hex lib (ev_pubkey ev)],
                            f_until := ev_created_at ev, f_limit := 500\<rparr>
        in do {
          (n, c, m) \<leftarrow> query_and_delete_p lib ml envs f 500 (\<lambda>_. True) c n m;
          m \<leftarrow> free_null authors m;
          delete_kinds_loop_p lib ml envs p ks c n m }) }"

definition deletion_process_p ::
    "nostr_lib \<Rightarrow> mem_lib \<Rightarrow> envs \<Rightarrow> addr \<Rightarrow> store_ctx \<Rightarrow> memory \<Rightarrow> (int \<times> store_ctx \<times> memory) option" where
  "deletion_process_p lib ml envs p c m = do {
     ev \<leftarrow> read_event p m;
     (if ev_kind ev \<noteq> NOSTR_KIND_DELETION then Some (0, c, m)
      else
        let (req, m) = ml_deletion_parse ml ev m in
        case req of
          None \<Rightarrow> Some (0, c, m)
        | Some q \<Rightarrow> do {
            request \<leftarrow> read_request q m;
            (n1, c, m) \<leftarrow> delete_ids_loop_p lib ml envs q [0 ..< length (dr_event_ids request)] c 0 m;
            (n2, c, m) \<leftarrow> delete_addresses_loop_p lib ml envs q (ev_created_at ev)
                              [0 ..< length (dr_addresses request)] c 0 m;
            (n3, c, m) \<leftarrow> delete_kinds_loop_p lib ml envs p (collect_kinds (ev_tags ev) []) c 0 m;
            m \<leftarrow> ml_deletion_free ml q m;
            Some (n1 + n2 + n3, c, m) }) }"

section \<open>EVENT\<close>

definition handle_event_p ::
    "nostr_lib \<Rightarrow> mem_lib \<Rightarrow> relay_env \<Rightarrow> int \<Rightarrow> addr \<Rightarrow> relay \<Rightarrow> memory \<Rightarrow>
     ((nostr_relay_error \<times> relay) \<times> memory) option" where
  "handle_event_p lib ml env fd p rel m = do {
     ev \<leftarrow> read_event p m;
     let (st, r) = rel;
     let config = \<lparr>vc_max_event_age_sec = cfg_max_event_age_sec (ctx_config r),
                   vc_max_future_sec = cfg_max_future_sec (ctx_config r),
                   vc_min_pow_difficulty = 0, vc_check_duplicates = True\<rparr>;
     let result = validator_check_event lib (re_now_lib env (msg_tick r)) (re_now env (msg_tick r)) ev
                    config (ctx_storage r);
     (if result \<noteq> VALIDATION_OK then Some ((validator_result_to_relay_error result, (st, r)), m)
      else do {
        (r, m) \<leftarrow>
          (if ev_kind ev = NOSTR_KIND_DELETION \<and> ctx_storage r then do {
             (n, c, m) \<leftarrow> deletion_process_p lib ml (re_store env) p
                             \<lparr>sc_store = g_storage r, sc_tick = store_tick r, sc_heap = alloc r\<rparr> m;
             Some (r\<lparr>g_storage := sc_store c, store_tick := sc_tick c, alloc := sc_heap c\<rparr>, m) }
           else Some (r, m));
        (if \<not> lib_kind_is_ephemeral lib (ev_kind ev) \<and> ctx_storage r then do {
           (e, s, m) \<leftarrow> storage_save_event_p lib (re_store env (store_tick r)) p (g_storage r) m;
           let r = r\<lparr>g_storage := s, store_tick := store_tick r + 1\<rparr>;
           (if e \<noteq> STORAGE_OK \<and> e \<noteq> STORAGE_ERR_DUPLICATE then Some ((NOSTR_RELAY_ERR_STORAGE, (st, r)), m)
            else do {
              (rel, m) \<leftarrow> broadcaster_fanout_p lib env p (st, r) m;
              Some ((NOSTR_RELAY_OK, rel), m) }) }
         else do {
           (rel, m) \<leftarrow> broadcaster_fanout_p lib env p (st, r) m;
           Some ((NOSTR_RELAY_OK, rel), m) }) }) }"

section \<open>The level below computes the same and keeps the memory\<close>

lemma mem_malloc_cases:
  assumes "mem_ok m" and "mem_malloc b m = (q, m')"
  obtains (failed) "\<not> b" and "q = None" and "m' = m"
    | (given) p where "b" and "q = Some p" and "extends m m' p Bytes_Cell"
  using assms mem_new_extends [OF assms(1)] by (auto simp: mem_malloc_def split: if_splits prod.splits)

lemma same_read_event: "same_cells m m' \<Longrightarrow> read_event p m' = read_event p m"
  by (simp add: same_cells_def)

lemma extends_read:
  "extends m m' p c \<Longrightarrow> read_event a m = Some ev \<Longrightarrow> read_event a m' = Some ev"
  "extends m m' p c \<Longrightarrow> read_request a m = Some req \<Longrightarrow> read_request a m' = Some req"
  by (auto simp: extends_def)

lemma router_send_event_reads:
  assumes "mem_ok m" and "read_event p m = Some ev"
  shows "\<exists>m'. router_send_event_p lib env fd sid p st m = Some (router_send_event lib env fd sid ev st, m') \<and> same_cells m m'"
proof -
  obtain q m1 where q: "mem_malloc (sd_buf (re_send env (send_tick st))) m = (q, m1)" by force
  show ?thesis
  proof (cases rule: mem_malloc_cases [OF assms(1) q, case_names failed given])
    case failed
    then show ?thesis using q same_cellsI [OF assms(1)] by (simp add: router_send_event_p_def router_send_event_def)
  next
    case (given b)
    then obtain m2 where "mem_free b m1 = Some m2" "same_cells m m2" using extends_free by blast
    with q given extends_read(1) [OF given(3) assms(2)] show ?thesis
      by (auto simp: router_send_event_p_def router_send_event_def simp del: read_event.simps split: option.split prod.split)
  qed
qed

lemma fanout_loop_reads:
  "mem_ok m \<Longrightarrow> read_event p m = Some ev \<Longrightarrow>
   \<exists>m'. fanout_loop_p lib env p xs st m = Some (fanout_loop lib env ev xs st, m') \<and> same_cells m m'"
proof (induction xs arbitrary: st m)
  case Nil then show ?case by (simp add: same_cellsI)
next
  case (Cons x xs)
  obtain e st1 m1 where s: "router_send_event_p lib env (me_conn_fd x) (me_sub_id x) p st m = Some ((e, st1), m1)"
      "router_send_event lib env (me_conn_fd x) (me_sub_id x) ev st = (e, st1)" "same_cells m m1"
    using router_send_event_reads [OF Cons.prems] by (metis prod.collapse)
  from s(3) have "mem_ok m1" by (simp add: same_cells_def)
  from Cons.IH [OF this, of st1] same_read_event [OF s(3), of p] Cons.prems(2) s show ?case
    using same_cells_trans [OF s(3)] by auto
qed

lemma broadcaster_fanout_reads:
  assumes "mem_ok m" and "read_event p m = Some ev"
  shows "\<exists>m'. broadcaster_fanout_p lib env p rel m = Some (broadcaster_fanout lib env ev rel, m') \<and> same_cells m m'"
proof -
  obtain st r where rel: "rel = (st, r)" by force
  let ?res = "sub_manager_match lib (g_sub_manager r) ev"
  obtain m' where "fanout_loop_p lib env p (take (unat (match_count ?res)) (sm_matches ?res)) st m =
      Some (fanout_loop lib env ev (take (unat (match_count ?res)) (sm_matches ?res)) st, m')" "same_cells m m'"
    using fanout_loop_reads [OF assms] by blast
  then show ?thesis using assms same_cellsI [OF assms(1)]
    by (auto simp: broadcaster_fanout_p_def broadcaster_fanout_def rel Let_def simp del: read_event.simps)
qed

lemma storage_save_event_reads:
  assumes "mem_ok m" and "read_event p m = Some ev" and "storage_save_event lib env ev s = (e, s')"
  shows "\<exists>m'. storage_save_event_p lib env p s m = Some (e, s', m') \<and> same_cells m m'"
proof (cases "initialized (eng s) \<and> find_index_entry (eng s) (ev_id ev) = None \<and> index_count (eng s) < max_index_entries (eng s)")
  case False
  then show ?thesis using assms same_cellsI [OF assms(1)]
    by (auto simp: storage_save_event_p_def storage_save_event_def Let_def linorder_not_less simp del: read_event.simps)
next
  case True
  then have ready: "initialized (eng s)" "find_index_entry (eng s) (ev_id ev) = None" "\<not> max_index_entries (eng s) \<le> index_count (eng s)"
    by (simp_all add: linorder_not_le)
  obtain q m1 where q: "mem_malloc (env_malloc env) m = (q, m1)" by force
  show ?thesis
  proof (cases rule: mem_malloc_cases [OF assms(1) q, case_names failed given])
    case failed
    with ready q assms same_cellsI [OF assms(1)] show ?thesis
      by (simp add: storage_save_event_p_def storage_save_event_def Let_def del: read_event.simps)
  next
    case (given b)
    then obtain m2 where "mem_free b m1 = Some m2" "same_cells m m2" using extends_free by blast
    with ready q given assms show ?thesis
      by (auto simp: storage_save_event_p_def storage_save_event_def Let_def simp del: read_event.simps
          split: option.splits if_splits)
  qed
qed

lemma storage_get_event_places:
  assumes "mem_lib_ok lib ml" and "mem_ok m"
  shows "case storage_get_event lib env event_id s of
      None \<Rightarrow> \<exists>m'. storage_get_event_p lib ml env event_id s m = Some (None, m') \<and> same_cells m m'
    | Some ev \<Rightarrow> \<exists>p m'. storage_get_event_p lib ml env event_id s m = Some (Some p, m') \<and> extends m m' p (Event_Cell ev)"
proof (cases "initialized (eng s)")
  case True
  show ?thesis
  proof (cases "find_index_entry (eng s) event_id")
    case None
    with True same_cellsI [OF assms(2)] show ?thesis by (simp add: storage_get_event_def storage_get_event_p_def)
  next
    case (Some i)
    with True load_event_places [OF assms, of env "entry_path lib (idx (eng s) ! i)" s] show ?thesis
      by (simp add: storage_get_event_def storage_get_event_p_def split: option.splits)
  qed
qed (use same_cellsI [OF assms(2)] in \<open>simp add: storage_get_event_def storage_get_event_p_def\<close>)

lemma delete_ids_loop_reads:
  assumes ok: "mem_lib_ok lib ml"
  shows "mem_ok m \<Longrightarrow> read_request q m = Some request \<Longrightarrow>
    delete_ids_loop lib envs request (map ((!) (dr_event_ids request)) js) c n = (n', c') \<Longrightarrow>
    \<exists>m'. delete_ids_loop_p lib ml envs q js c n m = Some (n', c', m') \<and> same_cells m m'"
proof (induction js arbitrary: c n m)
  case Nil then show ?case by (simp add: same_cellsI)
next
  case (Cons i js)
  note req = Cons.prems(2)
  have again: "\<exists>m'. delete_ids_loop_p lib ml envs q js c1 n1 m1 = Some (n', c', m') \<and> same_cells m m'"
    if s: "same_cells m m1"
      and v: "delete_ids_loop lib envs request (map ((!) (dr_event_ids request)) js) c1 n1 = (n', c')" for m1 c1 n1
  proof -
    have "mem_ok m1" "read_request q m1 = Some request" using s req by (simp_all add: same_cells_def)
    from Cons.IH [OF this v] show ?thesis using same_cells_trans [OF s] by blast
  qed
  show ?case
  proof (cases "lib_hex_to_bytes lib (dr_event_ids request ! i) 64 32")
    case None
    with Cons.prems again [OF same_cellsI [OF Cons.prems(1)]] show ?thesis by (simp del: read_request.simps)
  next
    case (Some event_id)
    note hex = this
    let ?c = "c\<lparr>sc_tick := sc_tick c + 1\<rparr>"
    note got = storage_get_event_places [OF ok Cons.prems(1), of "envs (sc_tick c)" event_id "sc_store c"]
    show ?thesis
    proof (cases "storage_get_event lib (envs (sc_tick c)) event_id (sc_store c)")
      case None
      with got obtain m1 where "storage_get_event_p lib ml (envs (sc_tick c)) event_id (sc_store c) m = Some (None, m1)"
        "same_cells m m1" by auto
      with None Cons.prems again [of m1 ?c n] hex show ?thesis by (simp add: ctx_get_def del: read_request.simps)
    next
      case (Some target)
      with got obtain p m1 where g: "storage_get_event_p lib ml (envs (sc_tick c)) event_id (sc_store c) m = Some (Some p, m1)"
        and x: "extends m m1 p (Event_Cell target)" by auto
      have t: "cells m1 p = Some (Event_Cell target)" using x by (simp add: extends_def)
      obtain m2 where m2: "mem_free p m1 = Some m2" "same_cells m m2" using extends_free [OF x] by blast
      obtain r c1 where d: "ctx_delete lib envs event_id ?c = (r, c1)" by force
      show ?thesis
      proof (cases "lib_deletion_authorized lib request target")
        case True
        have "delete_ids_loop lib envs request (map ((!) (dr_event_ids request)) js) c1 (if r = STORAGE_OK then n + 1 else n) = (n', c')"
          using Cons.prems(3) hex Some True d by (simp add: ctx_get_def)
        from again [OF m2(2) this] show ?thesis
          using req hex g t True d m2(1) event_destroy_live [OF ok t] by (simp del: read_request.simps)
      next
        case False
        have "delete_ids_loop lib envs request (map ((!) (dr_event_ids request)) js) ?c n = (n', c')"
          using Cons.prems(3) hex Some False by (simp add: ctx_get_def)
        from again [OF m2(2) this] show ?thesis
          using req hex g t False m2(1) event_destroy_live [OF ok t] by (simp del: read_request.simps)
      qed
    qed
  qed
qed

lemma delete_found_loop_reads:
  "(\<And>j. j < length evs \<Longrightarrow> \<exists>p. read_result a (i + j) m = Some (Some p) \<and> read_event p m = Some (evs ! j)) \<Longrightarrow>
   delete_found_loop_p lib envs sel a [i ..< i + length evs] c n m = Some (delete_found_loop lib envs sel evs c n)"
proof (induction evs arbitrary: i c n)
  case (Cons ev evs)
  obtain p where "read_result a i m = Some (Some p)" "read_event p m = Some ev" using Cons.prems [of 0] by auto
  moreover have "\<exists>p. read_result a (Suc i + j) m = Some (Some p) \<and> read_event p m = Some (evs ! j)"
    if "j < length evs" for j using Cons.prems [of "Suc j"] that by simp
  note rest = Cons.IH [of "Suc i", OF this]
  have "[i ..< i + length (ev # evs)] = i # [Suc i ..< Suc i + length evs]" by (simp add: upt_conv_Cons del: upt_Suc)
  ultimately show ?case using rest
    by (simp split: prod.split del: upt_Suc read_event.simps read_result.simps)
qed auto

lemma query_and_delete_reads:
  assumes ok: "mem_lib_ok lib ml" "mem_ok m"
    and v: "ctx_query lib envs f limit c = ((r, evs), c1)"
    and d: "(if r = STORAGE_OK then delete_found_loop lib envs sel evs c1 n else (n, c1)) = (n', c')"
  shows "\<exists>m'. query_and_delete_p lib ml envs f limit sel c n m = Some (n', c', m') \<and> same_cells m m'"
proof -
  obtain s where q: "storage_query_events lib (envs (sc_tick c)) f limit (sc_store c) = ((r, evs), s)"
    and c1: "c1 = c\<lparr>sc_store := s, sc_tick := sc_tick c + 1\<rparr>"
    using v by (auto simp: ctx_query_def split: prod.splits)
  show ?thesis
  proof (cases rule: query_places [OF ok q, case_names found failed])
    case (found a m1 k ps)
    have "\<exists>p. read_result a (0 + j) m1 = Some (Some p) \<and> read_event p m1 = Some (evs ! j)" if "j < length evs" for j
      using holds_reads [OF found(3) that] by (metis add_0)
    from delete_found_loop_reads [OF this, where c = c1 and n = n]
    have "delete_found_loop_p lib envs sel a [0 ..< length evs] c1 n m1 = Some (n', c')"
      using d found(2) by simp
    moreover obtain m2 where "storage_free_query_results_p ml (Some a) (length evs) m1 = Some m2" "same_cells m m2"
      using holds_released [OF ok(1) found(3)] by (auto simp: same_cells_def)
    ultimately show ?thesis using found(1)
      by (simp add: query_and_delete_p_def c1 del: storage_free_query_results_p.simps)
  next
    case failed
    with d same_cellsI [OF ok(2)] show ?thesis by (simp add: query_and_delete_p_def c1)
  qed
qed

text \<open>A buffer that was allocated is released after whatever leaves the memory as it was.\<close>

lemma buffer_released:
  assumes "mem_ok m" and "mem_malloc b m = (q, m1)" and "same_cells m1 m2"
  shows "\<exists>m3. free_null q m2 = Some m3 \<and> same_cells m m3"
proof (cases rule: mem_malloc_cases [OF assms(1,2), case_names failed given])
  case failed then show ?thesis using assms(3) by simp
next
  case (given p)
  then have "extends m m2 p Bytes_Cell" using assms(3) by (simp add: extends_def same_cells_def)
  from extends_free [OF this] given(2) show ?thesis by simp
qed

lemma mem_malloc_keeps:
  assumes "mem_ok m" and "mem_malloc b m = (q, m1)"
  shows "mem_ok m1" and "q = None \<longleftrightarrow> \<not> b"
    and "read_request a m = Some req \<Longrightarrow> read_request a m1 = Some req"
    and "read_event a m = Some ev \<Longrightarrow> read_event a m1 = Some ev"
proof -
  consider "m1 = m" "q = None" "\<not> b" | p where "extends m m1 p Bytes_Cell" "q = Some p" "b"
    using mem_malloc_cases [OF assms] by metis
  note c = this
  show "mem_ok m1" using c assms(1) by cases (simp_all add: extends_def)
  show "q = None \<longleftrightarrow> \<not> b" using c by cases simp_all
  show "read_request a m1 = Some req" if "read_request a m = Some req"
    using c that extends_read(2) by cases (simp, blast)
  show "read_event a m1 = Some ev" if "read_event a m = Some ev"
    using c that extends_read(1) by cases (simp, blast)
qed

lemma buffers_released:
  assumes "mem_ok m" and "mem_malloc b1 m = (k, m1)" and "mem_malloc b2 m1 = (a, m2)" and "same_cells m2 m3"
  shows "\<exists>m4 m5. free_null k m3 = Some m4 \<and> free_null a m4 = Some m5 \<and> same_cells m m5"
proof -
  note ok1 = mem_malloc_keeps(1) [OF assms(1,2)]
  consider "k = None" "m1 = m" | p where "k = Some p" "extends m m1 p Bytes_Cell"
    using mem_malloc_cases [OF assms(1,2)] by metis
  then show ?thesis
  proof cases
    case 1
    then show ?thesis using buffer_released [OF ok1 assms(3,4)] by simp
  next
    case (2 p)
    consider "a = None" "m2 = m1" | u where "a = Some u" "extends m1 m2 u Bytes_Cell"
      using mem_malloc_cases [OF ok1 assms(3)] by metis
    then show ?thesis
    proof cases
      case 1
      then show ?thesis using buffer_released [OF assms(1,2), of m3] assms(4) by auto
    next
      case (2 u)
      have c: "mem_ok m3" "cells m3 = (cells m)(p \<mapsto> Bytes_Cell, u \<mapsto> Bytes_Cell)" "u \<noteq> p" "cells m p = None" "cells m u = None"
        using assms(4) 2 \<open>extends m m1 p Bytes_Cell\<close> by (auto simp: same_cells_def extends_def split: if_splits)
      obtain m4 where m4: "mem_free p m3 = Some m4" "mem_ok m4" "cells m4 = (cells m3)(p := None)"
        using mem_free_live [OF c(1), of p Bytes_Cell] c(2,3) by auto
      obtain m5 where m5: "mem_free u m4 = Some m5" "mem_ok m5" "cells m5 = (cells m4)(u := None)"
        using mem_free_live [OF m4(2), of u Bytes_Cell] m4(3) c(2,3) by auto
      have "cells m5 = cells m" using m5(3) m4(3) c by (auto simp: fun_eq_iff)
      then show ?thesis using 2 \<open>k = Some p\<close> m4(1) m5(1,2) by (simp add: same_cells_def)
    qed
  qed
qed

lemma delete_addresses_loop_reads:
  assumes ok: "mem_lib_ok lib ml"
  shows "mem_ok m \<Longrightarrow> read_request q m = Some request \<Longrightarrow>
    delete_addresses_loop lib envs request before (map ((!) (dr_addresses request)) js) c n = (n', c') \<Longrightarrow>
    \<exists>m'. delete_addresses_loop_p lib ml envs q before js c n m = Some (n', c', m') \<and> same_cells m m'"
proof (induction js arbitrary: c n m)
  case Nil then show ?case by (simp add: same_cellsI)
next
  case (Cons i js)
  note req = Cons.prems(2) and v = Cons.prems(3)
  let ?rest = "map ((!) (dr_addresses request)) js"
  have again: "\<exists>m'. delete_addresses_loop_p lib ml envs q before js c1 n1 m1 = Some (n', c', m') \<and> same_cells m m'"
    if s: "same_cells m m1" and v: "delete_addresses_loop lib envs request before ?rest c1 n1 = (n', c')" for m1 c1 n1
  proof -
    have "mem_ok m1" "read_request q m1 = Some request" using s req by (simp_all add: same_cells_def)
    from Cons.IH [OF this v] show ?thesis using same_cells_trans [OF s] by blast
  qed
  note here = again [OF same_cellsI [OF Cons.prems(1)]]
  consider (skip) "scan_address (dr_addresses request ! i) = None"
    | (other) kind pubkey d_tag where "scan_address (dr_addresses request ! i) = Some (kind, pubkey, d_tag)"
        "pubkey \<noteq> dr_pubkey request"
    | (own) kind d_tag where "scan_address (dr_addresses request ! i) = Some (kind, dr_pubkey request, d_tag)"
    by (metis prod.collapse option.exhaust)
  then show ?case
  proof cases
    case (own kind d_tag)
    obtain b1 c1 where b1: "ctx_malloc c = (b1, c1)" by force
    obtain b2 c2 where b2: "ctx_malloc c1 = (b2, c2)" by force
    obtain k m1 where k: "mem_malloc b1 m = (k, m1)" by force
    obtain a m2 where a: "mem_malloc b2 m1 = (a, m2)" by force
    note k1 = mem_malloc_keeps [OF Cons.prems(1) k] and a1 = mem_malloc_keeps [OF k1(1) a]
    note release = buffers_released [OF Cons.prems(1) k a]
    show ?thesis
    proof (cases "b1 \<and> b2")
      case False
      obtain m4 m5 where m: "free_null k m2 = Some m4" "free_null a m4 = Some m5" "same_cells m m5"
        using release [OF same_cellsI [OF a1(1)]] by blast
      have "delete_addresses_loop lib envs request before ?rest c2 n = (n', c')" using v own b1 b2 False by simp
      from again [OF m(3) this] show ?thesis using req own b1 b2 k a m False k1(2) a1(2) by (auto simp del: read_request.simps)
    next
      case True
      let ?f = "zero_filter\<lparr>f_kinds := [kind], f_authors := [dr_pubkey request], f_until := before, f_limit := 100\<rparr>"
      obtain r evs c3 where q: "ctx_query lib envs ?f 100 c2 = ((r, evs), c3)" by (metis prod.collapse)
      obtain n1 c4 where d: "(if r = STORAGE_OK then delete_found_loop lib envs (has_d_tag lib d_tag) evs c3 n else (n, c3)) = (n1, c4)"
        by force
      obtain m3 where m3: "query_and_delete_p lib ml envs ?f 100 (has_d_tag lib d_tag) c2 n m2 = Some (n1, c4, m3)" "same_cells m2 m3"
        using query_and_delete_reads [OF ok a1(1) q d] by blast
      obtain m4 m5 where m: "free_null k m3 = Some m4" "free_null a m4 = Some m5" "same_cells m m5"
        using release [OF m3(2)] by blast
      have "delete_addresses_loop lib envs request before ?rest c4 n1 = (n', c')" using v own b1 b2 True q d by (simp add: Let_def)
      from again [OF m(3) this] show ?thesis
        using req own b1 b2 k a m m3(1) True k1(2) a1(2) by (auto simp: Let_def simp del: read_request.simps)
    qed
  qed (use v req here in \<open>simp_all del: read_request.simps\<close>)
qed

lemma delete_kinds_loop_reads:
  assumes ok: "mem_lib_ok lib ml"
  shows "mem_ok m \<Longrightarrow> read_event p m = Some ev \<Longrightarrow> delete_kinds_loop lib envs ev ks c n = (n', c') \<Longrightarrow>
    \<exists>m'. delete_kinds_loop_p lib ml envs p ks c n m = Some (n', c', m') \<and> same_cells m m'"
proof (induction ks arbitrary: c n m)
  case Nil then show ?case by (simp add: same_cellsI)
next
  case (Cons x ks)
  note evt = Cons.prems(2) and v = Cons.prems(3)
  have again: "\<exists>m'. delete_kinds_loop_p lib ml envs p ks c1 n1 m1 = Some (n', c', m') \<and> same_cells m m'"
    if s: "same_cells m m1" and v: "delete_kinds_loop lib envs ev ks c1 n1 = (n', c')" for m1 c1 n1
  proof -
    have "mem_ok m1" "read_event p m1 = Some ev" using s evt by (simp_all add: same_cells_def)
    from Cons.IH [OF this v] show ?thesis using same_cells_trans [OF s] by blast
  qed
  obtain b c1 where b: "ctx_malloc c = (b, c1)" by force
  obtain a m1 where a: "mem_malloc b m = (a, m1)" by force
  note a1 = mem_malloc_keeps [OF Cons.prems(1) a]
  show ?case
  proof (cases b)
    case False
    then have "m1 = m" using a by (simp add: mem_malloc_def)
    moreover have "delete_kinds_loop lib envs ev ks c1 n = (n', c')" using v b False by simp
    ultimately show ?thesis using again [OF same_cellsI [OF Cons.prems(1)], of c1 n] evt b a False a1(2)
      by (simp del: read_event.simps)
  next
    case True
    let ?f = "zero_filter\<lparr>f_kinds := [x], f_authors := [lib_bytes_to_hex lib (ev_pubkey ev)],
                          f_until := ev_created_at ev, f_limit := 500\<rparr>"
    obtain r evs c3 where q: "ctx_query lib envs ?f 500 c1 = ((r, evs), c3)" by (metis prod.collapse)
    obtain n1 c4 where d: "(if r = STORAGE_OK then delete_found_loop lib envs (\<lambda>_. True) evs c3 n else (n, c3)) = (n1, c4)"
      by force
    obtain m3 where m3: "query_and_delete_p lib ml envs ?f 500 (\<lambda>_. True) c1 n m1 = Some (n1, c4, m3)" "same_cells m1 m3"
      using query_and_delete_reads [OF ok a1(1) q d] by blast
    obtain m4 where m: "free_null a m3 = Some m4" "same_cells m m4"
      using buffer_released [OF Cons.prems(1) a m3(2)] by blast
    have "delete_kinds_loop lib envs ev ks c4 n1 = (n', c')" using v b True q d by (simp add: Let_def)
    from again [OF m(2) this] show ?thesis
      using evt b a m m3(1) True a1(2) by (auto simp: Let_def simp del: read_event.simps)
  qed
qed

lemma delete_by_kinds_loop: "delete_by_kinds lib envs ev c = delete_kinds_loop lib envs ev (collect_kinds (ev_tags ev) []) c 0"
  by (simp add: delete_by_kinds_def Let_def)

lemma deletion_process_reads:
  assumes ok: "mem_lib_ok lib ml" "mem_ok m" and evt: "read_event p m = Some ev"
    and v: "deletion_process lib envs ev c = (n, c')"
  shows "\<exists>m'. deletion_process_p lib ml envs p c m = Some (n, c', m') \<and> same_cells m m'"
proof (cases "ev_kind ev = NOSTR_KIND_DELETION")
  case False
  then show ?thesis using evt v same_cellsI [OF ok(2)] by (simp add: deletion_process_p_def deletion_process_def del: read_event.simps)
next
  case kind: True
  note parsed = deletion_parse_law [OF ok, of ev]
  show ?thesis
  proof (cases "lib_deletion_parse lib ev")
    case None
    with parsed kind evt v show ?thesis by (auto simp: deletion_process_p_def deletion_process_def simp del: read_event.simps)
  next
    case (Some request)
    with parsed obtain q m1 where q: "ml_deletion_parse ml ev m = (Some q, m1)" and x: "extends m m1 q (Request_Cell request)" by auto
    have ok1: "mem_ok m1" and req: "read_request q m1 = Some request" using x by (simp_all add: extends_def)
    have evt1: "read_event p m1 = Some ev" by (rule extends_read(1) [OF x evt])
    obtain n1 c1 where v1: "delete_by_event_ids lib envs request c = (n1, c1)" by force
    obtain n2 c2 where v2: "delete_by_addresses lib envs request (ev_created_at ev) c1 = (n2, c2)" by force
    obtain n3 c3 where v3: "delete_by_kinds lib envs ev c2 = (n3, c3)" by force
    have map: "map ((!) xs) [0 ..< length xs] = xs" for xs :: "string list" by (rule map_nth)
    obtain m2 where m2: "delete_ids_loop_p lib ml envs q [0 ..< length (dr_event_ids request)] c 0 m1 = Some (n1, c1, m2)"
        "same_cells m1 m2"
      using delete_ids_loop_reads [OF ok(1) ok1 req, of envs "[0 ..< length (dr_event_ids request)]" c 0 n1 c1] v1
      by (auto simp: map delete_by_event_ids_def)
    have s2: "mem_ok m2" "read_request q m2 = Some request" using m2(2) req by (simp_all add: same_cells_def)
    obtain m3 where m3: "delete_addresses_loop_p lib ml envs q (ev_created_at ev) [0 ..< length (dr_addresses request)] c1 0 m2 =
        Some (n2, c2, m3)" "same_cells m2 m3"
      using delete_addresses_loop_reads [OF ok(1) s2, of envs "ev_created_at ev" "[0 ..< length (dr_addresses request)]" c1 0 n2 c2] v2
      by (auto simp: map delete_by_addresses_def)
    have s3: "mem_ok m3" "read_event p m3 = Some ev" using m2(2) m3(2) evt1 by (simp_all add: same_cells_def)
    obtain m4 where m4: "delete_kinds_loop_p lib ml envs p (collect_kinds (ev_tags ev) []) c2 0 m3 = Some (n3, c3, m4)" "same_cells m3 m4"
      using delete_kinds_loop_reads [OF ok(1) s3] v3 delete_by_kinds_loop by metis
    have "extends m m4 q (Request_Cell request)" using x m2(2) m3(2) m4(2) by (simp add: extends_def same_cells_def)
    moreover from this have "cells m4 q = Some (Request_Cell request)" by (simp add: extends_def)
    ultimately obtain m5 where "ml_deletion_free ml q m4 = Some m5" "same_cells m m5"
      using extends_free deletion_free_live [OF ok(1)] by metis
    moreover have "n = n1 + n2 + n3" "c' = c3" using v kind Some v1 v2 v3 by (simp_all add: deletion_process_def)
    ultimately show ?thesis using evt kind q req m2(1) m3(1) m4(1)
      by (simp add: deletion_process_p_def del: read_event.simps read_request.simps)
  qed
qed

lemma handle_event_reads:
  assumes ok: "mem_lib_ok lib ml" "mem_ok m" and evt: "read_event p m = Some ev"
  shows "\<exists>m'. handle_event_p lib ml env fd p rel m = Some (handle_event lib env fd ev rel, m') \<and> same_cells m m'"
proof -
  obtain st r where rel: "rel = (st, r)" by force
  let ?config = "\<lparr>vc_max_event_age_sec = cfg_max_event_age_sec (ctx_config r), vc_max_future_sec = cfg_max_future_sec (ctx_config r),
                  vc_min_pow_difficulty = 0, vc_check_duplicates = True\<rparr>"
  let ?result = "validator_check_event lib (re_now_lib env (msg_tick r)) (re_now env (msg_tick r)) ev ?config (ctx_storage r)"
  let ?d = "ev_kind ev = NOSTR_KIND_DELETION \<and> ctx_storage r"
  define r1 where "r1 = (if ?d then relay_deletion lib env ev r else r)"
  let ?del = "if ?d then do {
      (n, c, m) \<leftarrow> deletion_process_p lib ml (re_store env) p
                     \<lparr>sc_store = g_storage r, sc_tick = store_tick r, sc_heap = alloc r\<rparr> m;
      Some (r\<lparr>g_storage := sc_store c, store_tick := sc_tick c, alloc := sc_heap c\<rparr>, m) }
    else Some (r, m)"
  have "\<exists>m1. ?del = Some (r1, m1) \<and> same_cells m m1"
  proof (cases ?d)
    case True
    obtain n c where d: "deletion_process lib (re_store env) ev
        \<lparr>sc_store = g_storage r, sc_tick = store_tick r, sc_heap = alloc r\<rparr> = (n, c)" by force
    from deletion_process_reads [OF ok evt d] True d show ?thesis by (auto simp: r1_def relay_deletion_def)
  qed (use same_cellsI [OF ok(2)] r1_def in auto)
  then obtain m1 where m1: "?del = Some (r1, m1)" "same_cells m m1" by blast
  have ok1: "mem_ok m1" and evt1: "read_event p m1 = Some ev" using m1(2) evt by (simp_all add: same_cells_def)
  obtain e s where v: "storage_save_event lib (re_store env (store_tick r1)) ev (g_storage r1) = (e, s)" by force
  obtain m2 where m2: "storage_save_event_p lib (re_store env (store_tick r1)) p (g_storage r1) m1 = Some (e, s, m2)" "same_cells m1 m2"
    using storage_save_event_reads [OF ok1 evt1 v] by blast
  have ok2: "mem_ok m2" and evt2: "read_event p m2 = Some ev" using m2(2) evt1 by (simp_all add: same_cells_def)
  let ?r2 = "r1\<lparr>g_storage := s, store_tick := store_tick r1 + 1\<rparr>"
  obtain m3 where m3: "broadcaster_fanout_p lib env p (st, ?r2) m2 = Some (broadcaster_fanout lib env ev (st, ?r2), m3)" "same_cells m2 m3"
    using broadcaster_fanout_reads [OF ok2 evt2] by blast
  obtain m4 where m4: "broadcaster_fanout_p lib env p (st, r1) m1 = Some (broadcaster_fanout lib env ev (st, r1), m4)" "same_cells m1 m4"
    using broadcaster_fanout_reads [OF ok1 evt1] by blast
  note same = same_cells_trans [OF m1(2)] same_cells_trans [OF same_cells_trans [OF m1(2) m2(2)]]
  have c: "ctx_storage r1 = ctx_storage r" by (simp add: r1_def relay_deletion_def split: prod.split)
  show ?thesis
  proof (cases "?result = VALIDATION_OK")
    case False
    with evt same_cellsI [OF ok(2)] show ?thesis by (simp add: handle_event_p_def handle_event_def rel Let_def del: read_event.simps)
  next
    case True
    have p: "handle_event_p lib ml env fd p rel m = (if \<not> lib_kind_is_ephemeral lib (ev_kind ev) \<and> ctx_storage r1
        then (if e \<noteq> STORAGE_OK \<and> e \<noteq> STORAGE_ERR_DUPLICATE then Some ((NOSTR_RELAY_ERR_STORAGE, (st, ?r2)), m2)
              else Some ((NOSTR_RELAY_OK, broadcaster_fanout lib env ev (st, ?r2)), m3))
        else Some ((NOSTR_RELAY_OK, broadcaster_fanout lib env ev (st, r1)), m4))"
      using True evt m1(1) m2(1) m3(1) m4(1) unfolding handle_event_p_def rel by (simp add: Let_def del: read_event.simps)
    have v: "handle_event lib env fd ev rel = (if \<not> lib_kind_is_ephemeral lib (ev_kind ev) \<and> ctx_storage r1
        then (if e \<noteq> STORAGE_OK \<and> e \<noteq> STORAGE_ERR_DUPLICATE then (NOSTR_RELAY_ERR_STORAGE, (st, ?r2))
              else (NOSTR_RELAY_OK, broadcaster_fanout lib env ev (st, ?r2)))
        else (NOSTR_RELAY_OK, broadcaster_fanout lib env ev (st, r1)))"
      using True v by (simp add: handle_event_def rel relay_save_def Let_def flip: r1_def)
    show ?thesis unfolding p v using same(1) [OF m2(2)] same(2) [OF m3(2)] same(1) [OF m4(2)] by simp
  qed
qed

end
