(* ===== verification/Message_Memory.thy ===== *)
theory Message_Memory
  imports Relay_Props Event_Memory
begin

text \<open>
  The dynamic memory of a client message: the event or the filters the parser allocates
  (\<open>router_parse\<close>, \<open>router_msg_free\<close> of \<open>main/router.c\<close>), the query results and the ids sent so
  far (\<open>handle_req\<close> of \<open>main/handlers_stub.c\<close>).  The same code as in \<open>Router\<close>, \<open>Handlers\<close> and
  \<open>Relay\<close>, one level lower.
\<close>

fun read_ids :: "addr \<Rightarrow> memory \<Rightarrow> u8 list list option" where
  "read_ids p m = (case cells m p of Some (Ids_Cell ids) \<Rightarrow> Some ids | _ \<Rightarrow> None)"

fun append_id :: "addr \<Rightarrow> u8 list \<Rightarrow> memory \<Rightarrow> memory option" where
  "append_id p i m =
     (case cells m p of
        Some (Ids_Cell ids) \<Rightarrow>
          if length ids < MAX_SENT_IDS then Some (m\<lparr>cells := (cells m)(p \<mapsto> Ids_Cell (ids @ [i]))\<rparr>) else None
      | _ \<Rightarrow> None)"

section \<open>Messages\<close>

datatype router_msg_p =
    ROUTER_MSG_EVENT_P "addr option"
  | ROUTER_MSG_REQ_P string "addr option" nat
  | ROUTER_MSG_CLOSE_P string
  | ROUTER_MSG_AUTH_P
  | ROUTER_MSG_UNKNOWN_P
  | ROUTER_MSG_INVALID_P

text \<open>What the router takes over, and what is left of the client message.\<close>

fun take_over :: "client_msg_p \<Rightarrow> router_msg_p \<times> client_msg_p" where
  "take_over (Client_Event_P q) = (ROUTER_MSG_EVENT_P q, Client_Event_P None)"
| "take_over (Client_Req_P sid q n) =
     (ROUTER_MSG_REQ_P (strncpy_z sid ROUTER_MAX_SUB_ID) q n, Client_Req_P sid None 0)"
| "take_over (Client_Close_P sid) = (ROUTER_MSG_CLOSE_P (strncpy_z sid ROUTER_MAX_SUB_ID), Client_Close_P sid)"
| "take_over Client_Auth_P = (ROUTER_MSG_AUTH_P, Client_Auth_P)"
| "take_over Client_Unknown_P = (ROUTER_MSG_UNKNOWN_P, Client_Unknown_P)"

definition router_parse_p ::
    "mem_lib \<Rightarrow> string \<Rightarrow> memory \<Rightarrow> ((nostr_relay_error \<times> router_msg_p) \<times> memory) option" where
  "router_parse_p ml json m =
     (case ml_msg_parse ml json m of
        (Inl e, m) \<Rightarrow> Some ((e, ROUTER_MSG_INVALID_P), m)
      | (Inr msg, m) \<Rightarrow>
          (let (out, rest) = take_over msg in
           do { m \<leftarrow> ml_msg_free ml rest m; Some ((NOSTR_RELAY_OK, out), m) }))"

text \<open>\<open>for (i = 0; i < filter_count; i++) nostr_filter_free (&filters[i])\<close>\<close>

fun free_filters_loop :: "mem_lib \<Rightarrow> addr \<Rightarrow> nat list \<Rightarrow> memory \<Rightarrow> memory option" where
  "free_filters_loop ml p [] m = Some m"
| "free_filters_loop ml p (i # is) m = do { m \<leftarrow> ml_filter_free ml p i m; free_filters_loop ml p is m }"

fun router_msg_free_p :: "mem_lib \<Rightarrow> router_msg_p \<Rightarrow> memory \<Rightarrow> (router_msg_p \<times> memory) option" where
  "router_msg_free_p ml (ROUTER_MSG_EVENT_P (Some p)) m =
     do { m \<leftarrow> ml_event_destroy ml p m; Some (ROUTER_MSG_EVENT_P None, m) }"
| "router_msg_free_p ml (ROUTER_MSG_REQ_P sid (Some p) n) m =
     do { m \<leftarrow> free_filters_loop ml p [0 ..< n] m;
          m \<leftarrow> ml_free ml p m;
          Some (ROUTER_MSG_REQ_P sid None 0, m) }"
| "router_msg_free_p ml msg m = Some (msg, m)"

section \<open>The REQ handler\<close>

text \<open>\<open>sent_ids\<close> is null when it could not be allocated.\<close>

definition already_sent :: "addr option \<Rightarrow> u8 list \<Rightarrow> memory \<Rightarrow> bool option" where
  "already_sent sent i m =
     (case sent of None \<Rightarrow> Some False | Some p \<Rightarrow> map_option (list_ex (\<lambda>j. j = i)) (read_ids p m))"

definition record_sent :: "addr option \<Rightarrow> u8 list \<Rightarrow> memory \<Rightarrow> memory option" where
  "record_sent sent i m =
     (case sent of None \<Rightarrow> Some m
      | Some p \<Rightarrow> do { ids \<leftarrow> read_ids p m; (if length ids < MAX_SENT_IDS then append_id p i m else Some m) })"

fun req_events_loop_p ::
    "nostr_lib \<Rightarrow> relay_env \<Rightarrow> int \<Rightarrow> string \<Rightarrow> addr \<Rightarrow> nat list \<Rightarrow> addr option \<Rightarrow> ws_state \<Rightarrow> memory \<Rightarrow>
     (ws_state \<times> memory) option" where
  "req_events_loop_p lib env fd sid r [] sent st m = Some (st, m)"
| "req_events_loop_p lib env fd sid r (e # es) sent st m = do {
     q \<leftarrow> read_result r e m;
     p \<leftarrow> q;
     ev \<leftarrow> read_event p m;
     dup \<leftarrow> already_sent sent (ev_id ev) m;
     (if \<not> dup then do {
        ((x, st), m) \<leftarrow> router_send_event_p lib env fd sid p st m;
        m \<leftarrow> record_sent sent (ev_id ev) m;
        req_events_loop_p lib env fd sid r es sent st m }
      else req_events_loop_p lib env fd sid r es sent st m) }"

fun req_filters_loop_p ::
    "nostr_lib \<Rightarrow> mem_lib \<Rightarrow> relay_env \<Rightarrow> int \<Rightarrow> string \<Rightarrow> addr option \<Rightarrow> nat list \<Rightarrow> addr option \<Rightarrow> relay \<Rightarrow> memory \<Rightarrow>
     (relay \<times> memory) option" where
  "req_filters_loop_p lib ml env fd sid q [] sent rel m = Some (rel, m)"
| "req_filters_loop_p lib ml env fd sid q (i # is) sent rel m = do {
     let (st, r) = rel;
     f \<leftarrow> read_filter q i m;
     ((e, events, count), s, m) \<leftarrow>
        storage_query_events_p lib ml (re_store env (store_tick r)) f (req_limit f) (g_storage r) m;
     let r = r\<lparr>g_storage := s, store_tick := store_tick r + 1\<rparr>;
     (st, m) \<leftarrow> (case events of
          Some a \<Rightarrow>
            if e = STORAGE_OK then do {
              (st, m) \<leftarrow> req_events_loop_p lib env fd sid a [0 ..< count] sent st m;
              m \<leftarrow> storage_free_query_results_p ml events count m;
              Some (st, m) }
            else Some (st, m)
        | None \<Rightarrow> Some (st, m));
     req_filters_loop_p lib ml env fd sid q is sent (st, r) m }"

fun read_filters :: "addr option \<Rightarrow> nat list \<Rightarrow> memory \<Rightarrow> nostr_filter list option" where
  "read_filters q [] m = Some []"
| "read_filters q (i # is) m =
     do { f \<leftarrow> read_filter q i m; fs \<leftarrow> read_filters q is m; Some (f # fs) }"

text \<open>The manager copies the filters; its copies are its own.\<close>

definition handle_req_p ::
    "nostr_lib \<Rightarrow> mem_lib \<Rightarrow> relay_env \<Rightarrow> int \<Rightarrow> string \<Rightarrow> addr option \<Rightarrow> nat \<Rightarrow> relay \<Rightarrow> memory \<Rightarrow> (relay \<times> memory) option" where
  "handle_req_p lib ml env fd sid q n rel m =
     (let (st, r) = rel in
      if \<not> ctx_sub_manager r then Some ((snd (router_send_eose lib env fd sid st), r), m)
      else do {
        filters \<leftarrow> read_filters q [0 ..< n] m;
        (let (err, mgr, h) = sub_manager_add lib (g_sub_manager r) fd sid filters (alloc r);
             r = r\<lparr>g_sub_manager := mgr, alloc := h\<rparr>
         in if err \<noteq> NOSTR_RELAY_OK
            then Some ((snd (router_send_closed lib env fd sid ''error: too many subscriptions'' st), r), m)
            else do {
              ((st, r), m) \<leftarrow>
                (if ctx_storage r then
                   let (b, h) = malloc (alloc r); r = r\<lparr>alloc := h\<rparr>;
                       (sent, m) = (if b then (let (p, m) = mem_new (Ids_Cell []) m in (Some p, m)) else (None, m))
                   in do {
                     (rel, m) \<leftarrow> req_filters_loop_p lib ml env fd sid q [0 ..< n] sent (st, r) m;
                     m \<leftarrow> (case sent of Some p \<Rightarrow> mem_free p m | None \<Rightarrow> Some m);
                     Some (rel, m) }
                 else Some ((st, r), m));
              Some ((snd (router_send_eose lib env fd sid st), r), m) }) })"

section \<open>A message from beginning to end\<close>

definition dispatch_event_p ::
    "nostr_lib \<Rightarrow> mem_lib \<Rightarrow> relay_env \<Rightarrow> int \<Rightarrow> addr \<Rightarrow> relay \<Rightarrow> memory \<Rightarrow> (relay \<times> memory) option" where
  "dispatch_event_p lib ml env fd p rel m = do {
     ev \<leftarrow> read_event p m;
     let (st, r) = rel;
     let id_hex = lib_event_get_id_hex lib ev;
     let (limited, r) = rate_limited env fd RATE_TYPE_EVENT r;
     (if limited then Some ((snd (router_send_ok lib env fd id_hex False ''rate-limited:'' st), r), m)
      else do {
        ((result, (st, r)), m) \<leftarrow> handle_event_p lib ml env fd p (st, r) m;
        let accepted = (result = NOSTR_RELAY_OK);
        let message = (if accepted then '''' else get_event_rejection_message lib result);
        Some ((snd (router_send_ok lib env fd id_hex accepted message st), r), m) }) }"

fun router_dispatch_p ::
    "nostr_lib \<Rightarrow> mem_lib \<Rightarrow> relay_env \<Rightarrow> int \<Rightarrow> router_msg_p \<Rightarrow> relay \<Rightarrow> memory \<Rightarrow> (relay \<times> memory) option" where
  "router_dispatch_p lib ml env fd (ROUTER_MSG_EVENT_P q) rel m =
     do { p \<leftarrow> q; dispatch_event_p lib ml env fd p rel m }"
| "router_dispatch_p lib ml env fd (ROUTER_MSG_REQ_P sid q n) rel m =
     (let (st, r) = rel;
          (limited, r) = rate_limited env fd RATE_TYPE_REQ r
      in if limited then Some ((snd (router_send_closed lib env fd sid ''rate-limited:'' st), r), m)
         else if length sid = 0 \<or> ROUTER_MAX_SUB_ID < length sid
         then Some ((snd (router_send_closed lib env fd sid ''error: invalid subscription id'' st), r), m)
         else if ROUTER_MAX_FILTERS < n
         then Some ((snd (router_send_closed lib env fd sid ''error: too many filters'' st), r), m)
         else handle_req_p lib ml env fd sid q n (st, r) m)"
| "router_dispatch_p lib ml env fd (ROUTER_MSG_CLOSE_P sid) rel m = Some (dispatch_close lib env fd sid rel, m)"
| "router_dispatch_p lib ml env fd ROUTER_MSG_AUTH_P rel m =
     Some ((snd (router_send_notice lib env fd ''AUTH not implemented'' (fst rel)), snd rel), m)"
| "router_dispatch_p lib ml env fd ROUTER_MSG_UNKNOWN_P rel m =
     Some ((snd (router_send_notice lib env fd ''unknown message type'' (fst rel)), snd rel), m)"
| "router_dispatch_p lib ml env fd ROUTER_MSG_INVALID_P rel m =
     Some ((snd (router_send_notice lib env fd ''invalid message format'' (fst rel)), snd rel), m)"

definition on_ws_message_p ::
    "nostr_lib \<Rightarrow> mem_lib \<Rightarrow> relay_env \<Rightarrow> int \<Rightarrow> string \<Rightarrow> relay \<Rightarrow> memory \<Rightarrow> (relay \<times> memory) option" where
  "on_ws_message_p lib ml env fd data rel m =
     (let (st, r) = rel; r = r\<lparr>msg_tick := msg_tick r + 1\<rparr> in
      if length data = 0 \<or> WS_MAX_FRAME_SIZE < length data then Some ((st, r), m)
      else do {
        ((e, msg), m) \<leftarrow> router_parse_p ml data m;
        (if e \<noteq> NOSTR_RELAY_OK
         then Some ((snd (router_send_notice lib env fd ''error: failed to parse message'' st), r), m)
         else do {
           (rel, m) \<leftarrow> router_dispatch_p lib ml env fd msg (st, r) m;
           (msg, m) \<leftarrow> router_msg_free_p ml msg m;
           Some (rel, m) }) })"

section \<open>The REQ handler\<close>

text \<open>
  \<open>only_at q m m'\<close>: nothing but the cell at \<open>q\<close> may differ.  \<open>sent_is q sent m\<close>: the array of ids
  at \<open>q\<close> holds \<open>sent\<close>.
\<close>

definition only_at :: "addr option \<Rightarrow> memory \<Rightarrow> memory \<Rightarrow> bool" where
  "only_at q m m' \<longleftrightarrow> mem_ok m' \<and> (\<forall>b. q \<noteq> Some b \<longrightarrow> cells m' b = cells m b)"

definition sent_is :: "addr option \<Rightarrow> u8 list list option \<Rightarrow> memory \<Rightarrow> bool" where
  "sent_is q sent m \<longleftrightarrow>
     (case q of None \<Rightarrow> sent = None | Some p \<Rightarrow> \<exists>ids. sent = Some ids \<and> cells m p = Some (Ids_Cell ids))"

lemma only_at_refl: "mem_ok m \<Longrightarrow> only_at q m m"
  by (simp add: only_at_def)

lemma only_at_trans: "only_at q m m' \<Longrightarrow> only_at q m' m'' \<Longrightarrow> only_at q m m''"
  by (simp add: only_at_def)

lemma already_sent_is:
  assumes "sent_is q sent m"
  shows "already_sent q i m = Some (case sent of None \<Rightarrow> False | Some ids \<Rightarrow> list_ex (\<lambda>j. j = i) ids)"
  using assms by (auto simp: sent_is_def already_sent_def split: option.splits)

lemma record_sent_is:
  assumes "sent_is q sent m" and "mem_ok m"
  shows "\<exists>m'. record_sent q i m = Some m' \<and> only_at q m m' \<and>
    sent_is q (case sent of None \<Rightarrow> None | Some ids \<Rightarrow> Some (if length ids < MAX_SENT_IDS then ids @ [i] else ids)) m'"
proof (cases q)
  case None then show ?thesis using assms by (auto simp: sent_is_def record_sent_def only_at_refl)
next
  case (Some p)
  then obtain ids where i: "sent = Some ids" "cells m p = Some (Ids_Cell ids)" using assms(1) by (auto simp: sent_is_def)
  then show ?thesis using Some assms(2) mem_ok_put [of m p "Ids_Cell (ids @ [i])"]
    by (auto simp: record_sent_def sent_is_def only_at_def)
qed

text \<open>Reading the results while ids are recorded: the cells read are not the one written.\<close>

lemma cell_apart:
  assumes "sent_is q sent m" and "only_at q m m'" and "cells m b = Some c" and "\<And>ids. c \<noteq> Ids_Cell ids"
  shows "cells m' b = Some c"
  using assms by (cases "q = Some b") (auto simp: sent_is_def only_at_def)

lemma sent_cell_apart:
  assumes "sent_is q sent m" and "only_at q m m'"
  shows "read_result r i m = Some p \<Longrightarrow> read_result r i m' = Some p"
    and "read_event a m = Some ev \<Longrightarrow> read_event a m' = Some ev"
    and "read_filter f i m = Some g \<Longrightarrow> read_filter f i m' = Some g"
proof -
  show "read_result r i m = Some p \<Longrightarrow> read_result r i m' = Some p"
    by (cases "cells m r"; cases "the (cells m r)") (use cell_apart [OF assms, of r] in auto)
  show "read_event a m = Some ev \<Longrightarrow> read_event a m' = Some ev"
    by (cases "cells m a"; cases "the (cells m a)") (use cell_apart [OF assms, of a] in auto)
  show "read_filter f i m = Some g \<Longrightarrow> read_filter f i m' = Some g"
    by (cases f; cases "cells m (the f)"; cases "the (cells m (the f))") (use cell_apart [OF assms, of "the f"] in auto)
qed

lemma req_events_loop_reads:
  "sent_is q sent m \<Longrightarrow> mem_ok m \<Longrightarrow>
   (\<And>j. j < length evs \<Longrightarrow> \<exists>p. read_result r (i + j) m = Some (Some p) \<and> read_event p m = Some (evs ! j)) \<Longrightarrow>
   req_events_loop lib env fd sid evs sent st = (sent', st') \<Longrightarrow>
   \<exists>m'. req_events_loop_p lib env fd sid r [i ..< i + length evs] q st m = Some (st', m') \<and>
     only_at q m m' \<and> sent_is q sent' m'"
proof (induction evs arbitrary: i m sent st)
  case Nil then show ?case by (auto simp: only_at_refl)
next
  case (Cons ev evs)
  obtain p where r: "read_result r i m = Some (Some p)" "read_event p m = Some ev" using Cons.prems(3) [of 0] by auto
  have rest: "\<exists>p. read_result r (Suc i + j) m = Some (Some p) \<and> read_event p m = Some (evs ! j)" if "j < length evs" for j
    using Cons.prems(3) [of "Suc j"] that by simp
  have range: "[i ..< i + length (ev # evs)] = i # [Suc i ..< Suc i + length evs]" by (simp add: upt_conv_Cons del: upt_Suc)
  note dup = already_sent_is [OF Cons.prems(1), of "ev_id ev"]
  let ?dup = "case sent of None \<Rightarrow> False | Some ids \<Rightarrow> list_ex (\<lambda>j. j = ev_id ev) ids"
  show ?case
  proof (cases ?dup)
    case True
    then have "req_events_loop lib env fd sid evs sent st = (sent', st')" using Cons.prems(4) by simp
    from Cons.IH [OF Cons.prems(1,2) rest this] show ?thesis unfolding range using r dup True by (simp del: upt_Suc)
  next
    case False
    let ?sent = "case sent of None \<Rightarrow> None | Some ids \<Rightarrow> Some (if length ids < MAX_SENT_IDS then ids @ [ev_id ev] else ids)"
    let ?st = "snd (router_send_event lib env fd sid ev st)"
    obtain m0 x where m0: "router_send_event_p lib env fd sid p st m = Some ((x, ?st), m0)" "same_cells m m0"
      using router_send_event_reads [OF Cons.prems(2) r(2)] by (metis prod.collapse)
    have s0: "sent_is q sent m0" "mem_ok m0" "only_at q m m0"
      using Cons.prems(1) m0(2) by (auto simp: sent_is_def same_cells_def only_at_def split: option.splits)
    obtain m1 where m1: "record_sent q (ev_id ev) m0 = Some m1" "only_at q m m1" "sent_is q ?sent m1"
      using record_sent_is [OF s0(1,2)] only_at_trans [OF s0(3)] by blast
    have "req_events_loop lib env fd sid evs ?sent ?st = (sent', st')" using Cons.prems(4) False by (simp add: Let_def)
    moreover have "\<exists>p. read_result r (Suc i + j) m1 = Some (Some p) \<and> read_event p m1 = Some (evs ! j)"
      if j: "j < length evs" for j
      using rest [OF j] sent_cell_apart(1,2) [OF Cons.prems(1) m1(2)] by blast
    moreover have "mem_ok m1" using m1(2) by (simp add: only_at_def)
    ultimately obtain m' where
      "req_events_loop_p lib env fd sid r [Suc i ..< Suc i + length evs] q ?st m1 = Some (st', m')"
      "only_at q m1 m'" "sent_is q sent' m'" using Cons.IH [OF m1(3)] by blast
    then show ?thesis unfolding range using r dup False m0(1) m1 only_at_trans
      by (auto simp: Let_def simp del: upt_Suc read_event.simps read_result.simps)
  qed
qed

text \<open>Recording ids changes the cells the result was placed beside, not the result.\<close>

lemma holds_only_at:
  assumes "holds C m r k ps evs" and "only_at q m m'" and "sent_is q sent m" and "sent_is q sent' m'"
    and "\<And>p. q = Some p \<Longrightarrow> C p \<noteq> None"
  shows "\<exists>C'. holds C' m' r k ps evs \<and> (\<forall>b. q \<noteq> Some b \<longrightarrow> C' b = C b) \<and> (\<forall>p. q = Some p \<longrightarrow> C' p = cells m' p)"
proof (cases q)
  case None
  then have "cells m' = cells m" "mem_ok m'" using assms(2) by (auto simp: only_at_def)
  then show ?thesis using assms(1) None by (auto simp: holds_def)
next
  case (Some p)
  note d = assms(1) [unfolded holds_def]
  have p: "C p \<noteq> None" using assms(5) Some by blast
  then have pr: "p \<noteq> r" "p \<notin> set ps" using d by auto
  obtain c where c: "cells m' p = Some c" using assms(4) Some by (auto simp: sent_is_def)
  have "cells m' = (cells m)(p \<mapsto> c)" "mem_ok m'" using assms(2) Some c by (auto simp: only_at_def)
  moreover have "(C ++ events_at ps evs)(r \<mapsto> result_array k ps, p \<mapsto> c) =
      (C(p \<mapsto> c) ++ events_at ps evs)(r \<mapsto> result_array k ps)"
    using pr d map_add_upd_left [of p "events_at ps evs" C c] by (simp add: events_at_dom fun_upd_twist)
  ultimately have "holds (C(p \<mapsto> c)) m' r k ps evs" using d p by (auto simp: holds_def)
  then show ?thesis using c Some by (intro exI [of _ "C(p \<mapsto> c)"]) auto
qed

lemma req_filters_loop_reads:
  assumes "mem_lib_ok lib ml"
  shows "sent_is q sent m \<Longrightarrow> mem_ok m \<Longrightarrow> (\<And>i. i \<in> set js \<Longrightarrow> read_filter fp i m = Some (fs ! i)) \<Longrightarrow>
    \<exists>m' sent'. req_filters_loop_p lib ml env fd sid fp js q (st, r) m =
        Some (req_filters_loop lib env fd sid (map ((!) fs) js) sent (st, r), m') \<and>
      only_at q m m' \<and> sent_is q sent' m'"
proof (induction js arbitrary: m sent st r)
  case Nil then show ?case by (auto simp: only_at_refl)
next
  case (Cons i js)
  let ?f = "fs ! i" and ?env = "re_store env (store_tick r)"
  have f: "read_filter fp i m = Some ?f" using Cons.prems(3) by simp
  obtain e evs s' where qv: "storage_query_events lib ?env ?f (req_limit ?f) (g_storage r) = ((e, evs), s')"
    by (metis prod.collapse)
  let ?r = "r\<lparr>g_storage := s', store_tick := store_tick r + 1\<rparr>"
  show ?case
  proof (cases rule: query_places [OF assms Cons.prems(2) qv, case_names found failed])
    case (found a m1 k ps)
    obtain sent1 st1 where ev: "req_events_loop lib env fd sid evs sent st = (sent1, st1)" by force
    have C: "cells m p \<noteq> None" if "q = Some p" for p using Cons.prems(1) that by (auto simp: sent_is_def)
    have keep: "cells m1 p = cells m p" if "cells m p \<noteq> None" for p
    proof -
      have "p \<noteq> a" "p \<notin> set ps" "length ps = length evs" using found(3) that by (auto simp: holds_def)
      then have "p \<noteq> a" "events_at ps evs p = None" by (simp_all add: events_at_None)
      then show ?thesis using found(3) by (simp add: holds_def map_add_def)
    qed
    have sent1: "sent_is q sent m1" using Cons.prems(1) keep by (auto simp: sent_is_def split: option.splits)
    have ok1: "mem_ok m1" using found(3) by (simp add: holds_def)
    have "\<exists>p. read_result a (0 + j) m1 = Some (Some p) \<and> read_event p m1 = Some (evs ! j)" if "j < length evs" for j
      using holds_reads [OF found(3) that] by (metis add_0)
    from req_events_loop_reads [OF sent1 ok1 this ev] obtain m2 where m2: "req_events_loop_p lib env fd sid a [0 ..< length evs] q st m1 = Some (st1, m2)"
        "only_at q m1 m2" "sent_is q sent1 m2" unfolding add_0 by blast
    obtain C' where C': "holds C' m2 a k ps evs" "\<forall>b. q \<noteq> Some b \<longrightarrow> C' b = cells m b"
        "\<forall>p. q = Some p \<longrightarrow> C' p = cells m2 p"
      using holds_only_at [OF found(3) m2(2) sent1 m2(3) C] by blast
    obtain m3 where m3: "storage_free_query_results_p ml (Some a) (length evs) m2 = Some m3" "mem_ok m3" "cells m3 = C'"
      using holds_released [OF assms C'(1)] by blast
    have at3: "only_at q m m3" using C'(2) m3 by (simp add: only_at_def)
    have s3: "sent_is q sent1 m3" using m2(3) C'(3) m3(3) by (auto simp: sent_is_def split: option.splits)
    have "read_filter fp j m3 = Some (fs ! j)" if "j \<in> set js" for j
      using sent_cell_apart(3) [OF Cons.prems(1) at3] Cons.prems(3) that by simp
    from Cons.IH [OF s3 m3(2) this, of st1 ?r] obtain m' sent' where
      "req_filters_loop_p lib ml env fd sid fp js q (st1, ?r) m3 =
        Some (req_filters_loop lib env fd sid (map ((!) fs) js) sent1 (st1, ?r), m')"
      "only_at q m3 m'" "sent_is q sent' m'" by blast
    then show ?thesis using f qv found(1,2) ev m2(1) m3(1) only_at_trans [OF at3]
      by (auto simp: relay_query_def Let_def simp del: storage_free_query_results_p.simps)
  next
    case failed
    have "read_filter fp j m = Some (fs ! j)" if "j \<in> set js" for j using Cons.prems(3) that by simp
    from Cons.IH [OF Cons.prems(1,2) this, of st ?r] f qv failed show ?thesis by (auto simp: relay_query_def Let_def)
  qed
qed

lemma read_filters_map:
  "(\<And>i. i \<in> set js \<Longrightarrow> read_filter fp i m = Some (fs ! i)) \<Longrightarrow> read_filters fp js m = Some (map ((!) fs) js)"
  by (induction js) auto

lemma new_ids:
  assumes "mem_ok m" and "mem_new (Ids_Cell []) m = (p, m1)"
  shows "sent_is (Some p) (Some []) m1" and "mem_ok m1" and "cells m p = None" and "cells m1 = (cells m)(p \<mapsto> Ids_Cell [])"
  using mem_new_extends [OF assms] by (auto simp: extends_def sent_is_def)

lemma handle_req_reads:
  assumes ok: "mem_lib_ok lib ml" "mem_ok m" and n: "n = length fs"
    and f: "\<And>i. i < n \<Longrightarrow> read_filter fp i m = Some (fs ! i)"
  shows "\<exists>m'. handle_req_p lib ml env fd sid fp n rel m = Some (handle_req lib env fd sid fs rel, m') \<and> same_cells m m'"
proof -
  obtain st r where rel: "rel = (st, r)" by force
  have fs: "read_filters fp [0 ..< n] m = Some fs" and map: "map ((!) fs) [0 ..< n] = fs"
    using read_filters_map [of "[0 ..< n]" fp m fs] f n by (simp_all add: map_nth)
  obtain err mgr h where add: "sub_manager_add lib (g_sub_manager r) fd sid fs (alloc r) = (err, mgr, h)"
    by (metis prod.collapse)
  let ?r = "r\<lparr>g_sub_manager := mgr, alloc := h\<rparr>"
  obtain b h' where b: "malloc (alloc ?r) = (b, h')" by force
  let ?r' = "?r\<lparr>alloc := h'\<rparr>"
  show ?thesis
  proof (cases "ctx_sub_manager r \<and> err = NOSTR_RELAY_OK \<and> ctx_storage ?r")
    case False
    then show ?thesis using fs add same_cellsI [OF ok(2)] by (auto simp: handle_req_p_def handle_req_def rel Let_def)
  next
    case True
    show ?thesis
    proof (cases b)
      case False
      have "sent_is None None m" by (simp add: sent_is_def)
      from req_filters_loop_reads [OF ok(1) this ok(2), of "[0 ..< n]" fp fs env fd sid st ?r'] f obtain m' where
        "req_filters_loop_p lib ml env fd sid fp [0 ..< n] None (st, ?r') m =
          Some (req_filters_loop lib env fd sid fs None (st, ?r'), m')" "only_at None m m'"
        by (auto simp: map)
      then show ?thesis using True False fs add b
        by (auto simp: handle_req_p_def handle_req_def rel Let_def same_cells_def only_at_def split: prod.splits)
    next
      case b1: True
      obtain p m1 where new: "mem_new (Ids_Cell []) m = (p, m1)" by force
      note ids = new_ids [OF ok(2) new]
      have "read_filter fp i m1 = Some (fs ! i)" if "i < n" for i
        using f [OF that] ids(3,4) by (cases fp) (auto split: option.splits)
      then obtain m2 sent' where m2:
        "req_filters_loop_p lib ml env fd sid fp [0 ..< n] (Some p) (st, ?r') m1 =
          Some (req_filters_loop lib env fd sid fs (Some []) (st, ?r'), m2)" "only_at (Some p) m1 m2" "sent_is (Some p) sent' m2"
        using req_filters_loop_reads [OF ok(1) ids(1,2), of "[0 ..< n]" fp fs env fd sid st ?r'] by (auto simp: map)
      then obtain c where "mem_ok m2" "cells m2 p = Some c" by (auto simp: only_at_def sent_is_def)
      from mem_free_live [OF this] obtain m3 where m3: "mem_free p m2 = Some m3" "mem_ok m3" "cells m3 = (cells m2)(p := None)"
        by blast
      have "cells m3 = cells m" using m2(2) m3(3) ids(3,4) by (auto simp: only_at_def fun_eq_iff)
      then show ?thesis using True b1 fs add b new m2(1) m3
        by (auto simp: handle_req_p_def handle_req_def rel Let_def same_cells_def split: prod.splits)
    qed
  qed
qed

section \<open>The whole message\<close>

text \<open>
  \<open>msg_holds C m out msg\<close>: the router's message \<open>out\<close> points to what \<open>msg\<close> holds, and what it
  owns is all the memory holds beyond \<open>C\<close>.
\<close>

fun msg_holds :: "(addr \<rightharpoonup> cell) \<Rightarrow> memory \<Rightarrow> router_msg_p \<Rightarrow> router_msg \<Rightarrow> bool" where
  "msg_holds C m (ROUTER_MSG_EVENT_P q) (ROUTER_MSG_EVENT ev) =
     (\<exists>p. q = Some p \<and> C p = None \<and> cells m = C(p \<mapsto> Event_Cell ev))"
| "msg_holds C m (ROUTER_MSG_REQ_P sid q n) (ROUTER_MSG_REQ sid' fs) =
     (sid = sid' \<and> n = length fs \<and>
      (case q of None \<Rightarrow> fs = [] \<and> cells m = C
       | Some p \<Rightarrow> C p = None \<and> cells m = C(p \<mapsto> Filters_Cell (map Some fs))))"
| "msg_holds C m (ROUTER_MSG_CLOSE_P sid) (ROUTER_MSG_CLOSE sid') = (sid = sid' \<and> cells m = C)"
| "msg_holds C m ROUTER_MSG_AUTH_P ROUTER_MSG_AUTH = (cells m = C)"
| "msg_holds C m ROUTER_MSG_UNKNOWN_P ROUTER_MSG_UNKNOWN = (cells m = C)"
| "msg_holds C m ROUTER_MSG_INVALID_P ROUTER_MSG_INVALID = (cells m = C)"
| "msg_holds C m _ _ = False"

lemma router_parse_places:
  assumes "mem_lib_ok lib ml" and "mem_ok m" and "router_parse lib json = (e, msg)"
  shows "\<exists>out m'. router_parse_p ml json m = Some ((e, out), m') \<and> mem_ok m' \<and> msg_holds (cells m) m' out msg"
proof (cases "lib_client_msg_parse lib json")
  case (Inl x)
  with msg_parse_fails [OF assms(1,2)] assms(3) show ?thesis
    by (fastforce simp: router_parse_def router_parse_p_def same_cells_def)
next
  case (Inr c)
  obtain cp m1 where c: "ml_msg_parse ml json m = (Inr cp, m1)" "msg_placed m m1 cp c"
    using msg_parse_places [OF assms(1,2) Inr] by blast
  obtain out rest where t: "take_over cp = (out, rest)" by force
  have "disowned rest" using t by (cases cp) auto
  then have f: "ml_msg_free ml rest m1 = Some m1" using msg_free_disowned [OF assms(1)] by blast
  have "mem_ok m1 \<and> e = NOSTR_RELAY_OK \<and> msg_holds (cells m) m1 out msg"
    using c(2) t assms(3) Inr
    by (cases cp; cases c) (auto simp: router_parse_def same_cells_def extends_def split: option.splits)
  with c(1) t f show ?thesis by (simp add: router_parse_p_def)
qed

lemma free_filters_loop_empties:
  assumes "mem_lib_ok lib ml"
  shows "mem_ok m \<Longrightarrow> cells m p = Some (Filters_Cell (replicate i None @ map Some fs)) \<Longrightarrow>
    \<exists>m'. free_filters_loop ml p [i ..< i + length fs] m = Some m' \<and> mem_ok m' \<and>
      cells m' = (cells m)(p \<mapsto> Filters_Cell (replicate (i + length fs) None))"
proof (induction fs arbitrary: i m)
  case Nil then show ?case by (auto simp: fun_upd_idem)
next
  case (Cons f fs)
  let ?A = "replicate i None @ map Some (f # fs)"
  define m1 where "m1 = m\<lparr>cells := (cells m)(p \<mapsto> Filters_Cell (?A[i := None]))\<rparr>"
  have "ml_filter_free ml p i m = Some m1"
    unfolding m1_def by (rule filter_free_live [OF assms Cons.prems(2), of i f]) (simp_all add: nth_append)
  moreover have ok1: "mem_ok m1" unfolding m1_def by (rule mem_ok_put [OF Cons.prems(1)]) (simp add: Cons.prems(2))
  have "?A[i := None] = replicate (Suc i) None @ map Some fs"
    by (simp add: list_update_append replicate_append_same flip: append_Cons append_assoc)
  then have "cells m1 p = Some (Filters_Cell (replicate (Suc i) None @ map Some fs))" by (simp add: m1_def)
  from Cons.IH [OF ok1 this] obtain m' where "free_filters_loop ml p [Suc i ..< Suc i + length fs] m1 = Some m'" "mem_ok m'"
      "cells m' = (cells m1)(p \<mapsto> Filters_Cell (replicate (Suc i + length fs) None))" by blast
  moreover have "(cells m1)(p \<mapsto> c) = (cells m)(p \<mapsto> c)" for c by (simp add: m1_def)
  moreover have "[i ..< i + length (f # fs)] = i # [Suc i ..< Suc i + length fs]" by (simp add: upt_conv_Cons del: upt_Suc)
  ultimately show ?case by (simp del: upt_Suc replicate_Suc fun_upd_apply)
qed

lemma router_msg_free_releases:
  assumes "mem_lib_ok lib ml" and "mem_ok m" and "msg_holds C m out msg"
  shows "\<exists>out' m'. router_msg_free_p ml out m = Some (out', m') \<and> mem_ok m' \<and> cells m' = C \<and>
    router_msg_free_p ml out' m' = Some (out', m')"
proof (cases "(\<exists>p. out = ROUTER_MSG_EVENT_P (Some p)) \<or> (\<exists>sid p n. out = ROUTER_MSG_REQ_P sid (Some p) n)")
  case False
  then have "router_msg_free_p ml out m = Some (out, m)" "cells m = C"
    using assms(3) by (cases out; cases msg; force split: option.splits)+
  then show ?thesis using assms(2) by blast
next
  case True
  then show ?thesis
  proof (elim disjE exE)
    fix p assume o: "out = ROUTER_MSG_EVENT_P (Some p)"
    then obtain ev where "C p = None" "cells m = C(p \<mapsto> Event_Cell ev)" using assms(3) by (cases msg) auto
    moreover from this have "cells m p = Some (Event_Cell ev)" by simp
    ultimately show ?thesis using event_destroy_live [OF assms(1)] mem_free_live [OF assms(2)] o by fastforce
  next
    fix sid p n assume o: "out = ROUTER_MSG_REQ_P sid (Some p) n"
    then obtain fs where c: "n = length fs" "C p = None" "cells m = C(p \<mapsto> Filters_Cell (map Some fs))"
      using assms(3) by (cases msg) auto
    then obtain m1 where m1: "free_filters_loop ml p [0 ..< n] m = Some m1" "mem_ok m1"
        "cells m1 = (cells m)(p \<mapsto> Filters_Cell (replicate n None))"
      using free_filters_loop_empties [OF assms(1,2), of p 0 fs] by auto
    have "ml_free ml p m1 = mem_free p m1" by (rule free_emptied [OF assms(1)]) (use m1(3) in auto)
    moreover obtain m2 where "mem_free p m1 = Some m2" "mem_ok m2" "cells m2 = (cells m1)(p := None)"
      using mem_free_live [OF m1(2), of p] m1(3) by auto
    moreover have "(cells m1)(p := None) = C" using m1(3) c by auto
    ultimately show ?thesis using o m1(1) by auto
  qed
qed

lemma dispatch_event_reads:
  assumes "mem_lib_ok lib ml" and "mem_ok m" and "read_event p m = Some ev"
  shows "\<exists>m'. dispatch_event_p lib ml env fd p rel m = Some (dispatch_event lib env fd ev rel, m') \<and> same_cells m m'"
proof -
  obtain st r where rel: "rel = (st, r)" by force
  obtain limited r1 where l: "rate_limited env fd RATE_TYPE_EVENT r = (limited, r1)" by force
  obtain m1 where m1: "handle_event_p lib ml env fd p (st, r1) m = Some (handle_event lib env fd ev (st, r1), m1)" "same_cells m m1"
    using handle_event_reads [OF assms] by blast
  obtain e st2 r2 where h: "handle_event lib env fd ev (st, r1) = (e, (st2, r2))" by (metis prod.collapse)
  show ?thesis using assms(3) l m1 h same_cellsI [OF assms(2)]
    by (cases limited) (simp_all add: dispatch_event_p_def dispatch_event_def rel Let_def del: read_event.simps)
qed

lemma dispatch_reads:
  assumes "mem_lib_ok lib ml" and "mem_ok m" and "msg_holds C m out msg"
  shows "\<exists>m'. router_dispatch_p lib ml env fd out rel m = Some (router_dispatch lib env fd msg rel, m') \<and> same_cells m m'"
proof (cases msg)
  case (ROUTER_MSG_EVENT ev)
  then obtain p where o: "out = ROUTER_MSG_EVENT_P (Some p)" and "cells m p = Some (Event_Cell ev)"
    using assms(3) by (cases out) auto
  then have "read_event p m = Some ev" by simp
  from dispatch_event_reads [OF assms(1,2) this] show ?thesis by (simp add: o ROUTER_MSG_EVENT router_dispatch_def)
next
  case (ROUTER_MSG_REQ sid fs)
  then obtain q where o: "out = ROUTER_MSG_REQ_P sid q (length fs)"
    and q: "case q of None \<Rightarrow> fs = [] | Some p \<Rightarrow> cells m p = Some (Filters_Cell (map Some fs))"
    using assms(3) by (cases out) (auto split: option.splits)
  have "read_filter q i m = Some (fs ! i)" if "i < length fs" for i using q that by (cases q) auto
  from handle_req_reads [OF assms(1,2) refl this] show ?thesis
    using same_cellsI [OF assms(2)] by (auto simp: o ROUTER_MSG_REQ router_dispatch_def dispatch_req_def split: prod.split)
qed (use assms(3) same_cellsI [OF assms(2)] in \<open>cases out; auto simp: router_dispatch_def\<close>)+

section \<open>Properties\<close>



end
