(* ===== verification/Message_Steps.thy ===== *)
theory Message_Steps
  imports Relay_Props
begin

text \<open>
  What the handlers do to the log, the subscriptions and the output when the sends they make
  succeed: the lemmas behind the properties of the messages.
\<close>

section \<open>Sends that succeed\<close>

text \<open>
  \<open>sends env\<close>: no send fails.  \<open>wire lib n m s\<close>: the message fits its buffer and
  reads \<open>s\<close> on the wire.
\<close>

definition sends :: "relay_env \<Rightarrow> bool" where
  "sends env \<longleftrightarrow> re_send env = (\<lambda>_. good_send)"

abbreviation wire :: "nostr_lib \<Rightarrow> nat \<Rightarrow> relay_msg \<Rightarrow> string \<Rightarrow> bool" where
  "wire lib n msg s \<equiv> lib_relay_msg_serialize lib msg n = Some s"

lemma reply_good:
  assumes "sends env" and "ws_httpd (ws st)" and "wire lib ROUTER_SEND_BUF_SIZE msg s"
  shows "outbox (snd (send_relay_msg lib env fd msg st)) = outbox st @ [frame_for st fd s]"
  using assms send_next_good [OF assms(2), of fd s] by (simp add: send_relay_msg_def sends_def)

lemma event_good:
  assumes "sends env" and "ws_httpd (ws st)" and "wire lib ROUTER_EVENT_BUF_SIZE (Relay_Event sid ev) s"
  shows "outbox (snd (router_send_event lib env fd sid ev st)) = outbox st @ [frame_for st fd s]"
  using assms send_next_good [OF assms(2), of fd s]
  by (simp add: router_send_event_def sends_def good_send_def)

lemma talks_keeps:
  assumes "talks fds st st'"
  shows "ws st' = ws st" "g_current_req st' = g_current_req st" "frame_for st' = frame_for st"
  using assms by (auto simp: talks_def intro: frame_for_cong)

text \<open>The frames a fan-out hands over.\<close>

lemma fanout_good:
  assumes "sends env" and "ws_httpd (ws st)"
    and "\<And>m. m \<in> set ms \<Longrightarrow> wire lib ROUTER_EVENT_BUF_SIZE (Relay_Event (me_sub_id m) ev) (enc (me_sub_id m))"
  shows "outbox (fanout_loop lib env ev ms st) =
    outbox st @ map (\<lambda>m. frame_for st (me_conn_fd m) (enc (me_sub_id m))) ms"
  using assms(2,3)
proof (induction ms arbitrary: st)
  case (Cons m ms)
  let ?st = "snd (router_send_event lib env (me_conn_fd m) (me_sub_id m) ev st)"
  note k = talks_keeps [OF talks_event [of "me_conn_fd m" st lib env "me_sub_id m" ev]]
  have "ws_httpd (ws ?st)" using k(1) Cons.prems(1) by simp
  then have "outbox (fanout_loop lib env ev ms ?st) = outbox ?st @ map (\<lambda>m. frame_for st (me_conn_fd m) (enc (me_sub_id m))) ms"
    using Cons.IH [of ?st] Cons.prems(2) by (simp add: k(3))
  moreover have "outbox ?st = outbox st @ [frame_for st (me_conn_fd m) (enc (me_sub_id m))]"
    using event_good [OF assms(1) Cons.prems(1)] Cons.prems(2) by simp
  ultimately show ?case by simp
qed simp

lemma fanout_silent:
  assumes "\<And>sid. lib_relay_msg_serialize lib (Relay_Event sid ev) ROUTER_EVENT_BUF_SIZE = None"
  shows "outbox (fanout_loop lib env ev ms st) = outbox st"
  by (induction ms arbitrary: st) (simp_all add: router_send_event_def assms)

text \<open>The subscriptions an event is for.\<close>

definition subscribers :: "nostr_lib \<Rightarrow> relay_core \<Rightarrow> nostr_event \<Rightarrow> (int \<times> string) set" where
  "subscribers lib r ev = {k. \<exists>fs. sm_view (g_sub_manager r) k = Some fs \<and> lib_filters_match lib fs ev}"

lemma broadcast_good:
  assumes "sends env" and "ws_httpd (ws st)" and "ctx_sub_manager r" and inv: "sm_inv (g_sub_manager r)"
    and enc: "\<And>fd sid. (fd, sid) \<in> subscribers lib r ev \<Longrightarrow> wire lib ROUTER_EVENT_BUF_SIZE (Relay_Event sid ev) (enc sid)"
  shows "\<exists>ks. outbox (fst (broadcaster_fanout lib env ev (st, r))) =
      outbox st @ map (\<lambda>(fd, sid). frame_for st fd (enc sid)) ks \<and>
    distinct ks \<and> set ks = subscribers lib r ev"
proof (intro exI conjI)
  let ?res = "sub_manager_match lib (g_sub_manager r) ev"
  note m = match_step [OF inv, of lib ev]
  then have n: "unat (match_count ?res) = length (sm_matches ?res)" by blast
  show "distinct (map entry_key (sm_matches ?res))" "set (map entry_key (sm_matches ?res)) = subscribers lib r ev"
    using m by (simp_all add: subscribers_def)
  have "fst (broadcaster_fanout lib env ev (st, r)) = fanout_loop lib env ev (sm_matches ?res) st"
  proof (cases "match_count ?res = 0")
    case True
    with n have "sm_matches ?res = []" by simp
    with True assms(3) show ?thesis by (simp add: broadcaster_fanout_def Let_def)
  next
    case False
    with n assms(3) show ?thesis by (simp add: broadcaster_fanout_def Let_def)
  qed
  moreover have "wire lib ROUTER_EVENT_BUF_SIZE (Relay_Event (me_sub_id m) ev) (enc (me_sub_id m))"
    if "m \<in> set (sm_matches ?res)" for m
    using enc [of "me_conn_fd m" "me_sub_id m"] m that by (force simp: subscribers_def entry_key_def)
  ultimately show "outbox (fst (broadcaster_fanout lib env ev (st, r))) =
      outbox st @ map (\<lambda>(fd, sid). frame_for st fd (enc sid)) (map entry_key (sm_matches ?res))"
    using fanout_good [OF assms(1,2), of "sm_matches ?res" lib ev enc] by (simp add: entry_key_def comp_def)
qed

lemma broadcast_rest: "snd (broadcaster_fanout lib env ev (st, r)) = r"
  by (simp add: broadcaster_fanout_def Let_def)

section \<open>The handler\<close>

text \<open>The checks an event has to pass, with the limits the relay is started with.\<close>

definition event_config :: validator_config where
  "event_config = \<lparr>vc_max_event_age_sec = 21 * 24 * 60 * 60, vc_max_future_sec = 900,
     vc_min_pow_difficulty = 0, vc_check_duplicates = True\<rparr>"

definition accepts :: "nostr_lib \<Rightarrow> relay_env \<Rightarrow> nat \<Rightarrow> nostr_event \<Rightarrow> bool" where
  "accepts lib env n ev \<longleftrightarrow> acceptable lib (re_now_lib env n) (re_now env n) ev event_config"

lemma handle_event_refuses:
  assumes "ctx_config r = relay_defaults" and "\<not> accepts lib env (msg_tick r) ev"
  shows "\<exists>e. handle_event lib env fd ev (st, r) = (e, (st, r)) \<and> e \<noteq> NOSTR_RELAY_OK \<and> e \<noteq> NOSTR_RELAY_ERR_STORAGE"
proof -
  let ?v = "validator_check_event lib (re_now_lib env (msg_tick r)) (re_now env (msg_tick r)) ev event_config (ctx_storage r)"
  have v: "?v \<noteq> VALIDATION_OK" using assms(2) by (simp add: check_ok_iff accepts_def)
  have "handle_event lib env fd ev (st, r) = (validator_result_to_relay_error ?v, (st, r))"
    using v assms(1) by (simp add: handle_event_def Let_def event_config_def relay_defaults_def)
  moreover have "validator_result_to_relay_error x \<noteq> NOSTR_RELAY_ERR_STORAGE" for x by (cases x) simp_all
  ultimately show ?thesis using relay_error_ok v by metis
qed

lemma handle_event_accepts:
  assumes "ctx_config r = relay_defaults" and "ctx_storage r" and "accepts lib env (msg_tick r) ev"
    and "ev_kind ev \<noteq> NOSTR_KIND_DELETION"
  shows "handle_event lib env fd ev (st, r) =
    (if lib_kind_is_ephemeral lib (ev_kind ev) then (NOSTR_RELAY_OK, broadcaster_fanout lib env ev (st, r))
     else case relay_save lib env ev r of
       (e, r') \<Rightarrow> if e = STORAGE_OK \<or> e = STORAGE_ERR_DUPLICATE
         then (NOSTR_RELAY_OK, broadcaster_fanout lib env ev (st, r'))
         else (NOSTR_RELAY_ERR_STORAGE, (st, r')))"
proof -
  have "validator_check_event lib (re_now_lib env (msg_tick r)) (re_now env (msg_tick r)) ev event_config (ctx_storage r) = VALIDATION_OK"
    using assms(3) by (simp add: check_ok_iff accepts_def)
  with assms show ?thesis
    by (auto simp: handle_event_def Let_def event_config_def relay_defaults_def split: prod.split)
qed

section \<open>Messages\<close>

text \<open>The rate limiter lets the next message of a connection pass.\<close>

definition permits :: "relay_env \<Rightarrow> int \<Rightarrow> rate_type \<Rightarrow> relay_core \<Rightarrow> bool" where
  "permits env fd ty r \<longleftrightarrow> fst (rate_limiter_check (g_rate_limiter r) fd ty
     (re_timer_open env (msg_tick r + 1)) (re_timer env (msg_tick r + 1)))"

text \<open>The core as a handler sees it: counted, and past the rate limiter.\<close>

definition metered :: "relay_env \<Rightarrow> int \<Rightarrow> rate_type \<Rightarrow> relay_core \<Rightarrow> relay_core" where
  "metered env fd ty r = r\<lparr>msg_tick := msg_tick r + 1,
     g_rate_limiter := snd (rate_limiter_check (g_rate_limiter r) fd ty
       (re_timer_open env (msg_tick r + 1)) (re_timer env (msg_tick r + 1)))\<rparr>"

lemma metered_frame [simp]:
  "g_sub_manager (metered env fd ty r) = g_sub_manager r" "g_storage (metered env fd ty r) = g_storage r"
  "ctx_sub_manager (metered env fd ty r) = ctx_sub_manager r" "ctx_storage (metered env fd ty r) = ctx_storage r"
  "ctx_config (metered env fd ty r) = ctx_config r" "store_tick (metered env fd ty r) = store_tick r"
  "msg_tick (metered env fd ty r) = msg_tick r + 1" "alloc (metered env fd ty r) = alloc r"
  by (simp_all add: metered_def)

lemma metered_inv:
  assumes "core_inv lib fds r" and "fd \<in> fds"
  shows "core_inv lib fds (metered env fd ty r)"
proof -
  let ?r = "r\<lparr>msg_tick := msg_tick r + 1\<rparr>"
  have c: "core_inv lib fds ?r" using assms(1) by (simp add: core_inv_def)
  obtain b r1 where l: "rate_limited env fd ty ?r = (b, r1)" by force
  have "r1 = metered env fd ty r" using l assms(1) by (simp add: rate_limited_def metered_def core_inv_def split: prod.splits)
  with serves_inv [OF c assms(2)] rate_limited_step [OF l, of lib] show ?thesis by blast
qed

lemma rate_limited_eq:
  assumes "ctx_rate_limiter r"
  shows "rate_limited env fd ty (r\<lparr>msg_tick := msg_tick r + 1\<rparr>) = (\<not> permits env fd ty r, metered env fd ty r)"
  using assms by (simp add: rate_limited_def permits_def metered_def split: prod.split)

text \<open>What surrounds the message callback.\<close>

lemma delivered:
  assumes "relay_inv lib (st, r)" and "delivers req st"
    and "ws_handler (on_ws_message lib env) req (st, r) = (e, (st', r'))"
  obtains st1 st2 where "outbox st1 = outbox st" and "ws_httpd (ws st1)" and "g_current_req st1 = Some (rq_fd req)"
    and "on_ws_message lib env (rq_fd req) (rq_payload req) (st1, r) = (st2, r')" and "outbox st' = outbox st2"
proof -
  let ?st1 = "(if g_server st then st\<lparr>ws := update_connection_activity (rq_time req) (rq_fd req) (ws st)\<rparr> else st)
      \<lparr>g_current_req := Some (rq_fd req)\<rparr>"
  obtain st2 where "on_ws_message lib env (rq_fd req) (rq_payload req) (?st1, r) = (st2, r')"
    and "st' = st2\<lparr>g_current_req := None\<rparr>"
    using assms(3) handler_delivers [OF assms(2), of "on_ws_message lib env" r] by (auto simp: Let_def split: prod.splits)
  moreover have "ws_httpd (ws ?st1)" using assms(1) by (simp add: relay_inv_def)
  moreover have "g_current_req ?st1 = Some (rq_fd req)" "outbox ?st1 = outbox st" by simp_all
  ultimately show thesis using that [of ?st1 st2] by simp
qed

lemma message_length: "delivers req st \<Longrightarrow> \<not> (length (rq_payload req) = 0 \<or> WS_MAX_FRAME_SIZE < length (rq_payload req))"
  by (simp add: delivers_def WS_MAX_FRAME_SIZE_def)

lemma message_parsed:
  assumes "delivers req st" and "router_parse lib (rq_payload req) = (NOSTR_RELAY_OK, msg)"
  shows "on_ws_message lib env fd (rq_payload req) (st1, r) =
    router_dispatch lib env fd msg (st1, r\<lparr>msg_tick := msg_tick r + 1\<rparr>)"
  using assms(2) message_length [OF assms(1)] by (simp add: on_ws_message_def Let_def)

lemma parse_event: "lib_client_msg_parse lib s = Inr (Client_Event ev) \<Longrightarrow> router_parse lib s = (NOSTR_RELAY_OK, ROUTER_MSG_EVENT ev)"
  by (simp add: router_parse_def)

lemma dispatch_event_eq:
  assumes "ctx_rate_limiter r"
  shows "dispatch_event lib env fd ev (st, r\<lparr>msg_tick := msg_tick r + 1\<rparr>) =
    (if \<not> permits env fd RATE_TYPE_EVENT r
     then (snd (router_send_ok lib env fd (lib_event_get_id_hex lib ev) False ''rate-limited:'' st), metered env fd RATE_TYPE_EVENT r)
     else case handle_event lib env fd ev (st, metered env fd RATE_TYPE_EVENT r) of
       (res, (st, r)) \<Rightarrow>
         (snd (router_send_ok lib env fd (lib_event_get_id_hex lib ev) (res = NOSTR_RELAY_OK)
            (if res = NOSTR_RELAY_OK then '''' else get_event_rejection_message lib res) st), r))"
  using rate_limited_eq [OF assms] by (simp add: dispatch_event_def Let_def split: prod.split)

text \<open>A frame in the answer to a message of \<open>fd0\<close>: at once to \<open>fd0\<close>, queued for the others.\<close>

definition answer :: "int \<Rightarrow> int \<Rightarrow> string \<Rightarrow> ws_out" where
  "answer fd0 fd s = (if fd = fd0 then Out_Frame fd WS_TEXT s else Out_Queued fd s)"

lemma answer_frame: "g_current_req st = Some fd0 \<Longrightarrow> frame_for st = answer fd0"
  by (auto simp: frame_for_def answer_def fun_eq_iff)

lemma broadcast_talks:
  "\<exists>fds. talks fds st (fst (broadcaster_fanout lib env ev (st, r)))"
  using fanout_talks [of _ st lib env ev] talks_refl by (auto simp: broadcaster_fanout_def Let_def)

lemma publish:
  assumes "sends env" and "ws_httpd (ws st)" and "g_current_req st = Some fd0" and "ctx_sub_manager r" and "sm_inv (g_sub_manager r)"
    and "\<And>fd sid. (fd, sid) \<in> subscribers lib r ev \<Longrightarrow> wire lib ROUTER_EVENT_BUF_SIZE (Relay_Event sid ev) (enc sid)"
    and "wire lib ROUTER_SEND_BUF_SIZE (Relay_Ok i True '''') ok"
  shows "\<exists>ks. outbox (snd (router_send_ok lib env fd0 i True '''' (fst (broadcaster_fanout lib env ev (st, r))))) =
      outbox st @ map (\<lambda>(fd, sid). answer fd0 fd (enc sid)) ks @ [answer fd0 fd0 ok] \<and>
    distinct ks \<and> set ks = subscribers lib r ev"
proof -
  let ?st = "fst (broadcaster_fanout lib env ev (st, r))"
  obtain fds where "talks fds st ?st" using broadcast_talks by blast
  note k = talks_keeps [OF this]
  have "outbox (snd (router_send_ok lib env fd0 i True '''' ?st)) = outbox ?st @ [answer fd0 fd0 ok]"
    using reply_good [OF assms(1) _ assms(7), of ?st fd0] k assms(2,3)
    by (simp add: router_send_ok_def answer_frame)
  with broadcast_good [OF assms(1,2,4,5,6)] answer_frame [OF assms(3)] show ?thesis by auto
qed

lemma save_of_metered:
  assumes "core_inv lib fds r" and "lib_ok lib" and "accepts lib env n ev" and "next_file_index (eng (g_storage r)) \<noteq> -1"
    and "relay_save lib env ev (metered env fd ty r) = (e, r')"
  shows "e = save_result lib (re_store env (store_tick r)) ev (g_storage r)"
    "stored lib (g_storage r') = stored lib (g_storage r) @
      (if e = STORAGE_OK then [(entry_for lib (re_store env (store_tick r)) (eng (g_storage r)) ev
         (idx (eng (g_storage r)) ! unat (index_count (eng (g_storage r)))), Some ev)] else [])"
    "g_sub_manager r' = g_sub_manager r" "ctx_sub_manager r'"
proof -
  have s: "store_inv lib (g_storage r)" "ctx_sub_manager r" using core_parts(6,8) [OF assms(1)] by blast+
  note I = s(1) [unfolded store_inv_def]
  have ev: "length (ev_id ev) = 32" "codec_ok lib ev"
    using assms(2,3) by (auto simp: lib_ok_def accepts_def acceptable_def)
  obtain s' where save: "storage_save_event lib (re_store env (store_tick r)) ev (g_storage r) = (e, s')"
    and r': "r' = (metered env fd ty r)\<lparr>g_storage := s', store_tick := store_tick r + 1\<rparr>"
    using assms(5) by (auto simp: relay_save_def split: prod.splits)
  show "e = save_result lib (re_store env (store_tick r)) ev (g_storage r)"
    using save_result_eq I save by (metis fst_conv)
  show "stored lib (g_storage r') = stored lib (g_storage r) @
      (if e = STORAGE_OK then [(entry_for lib (re_store env (store_tick r)) (eng (g_storage r)) ev
         (idx (eng (g_storage r)) ! unat (index_count (eng (g_storage r)))), Some ev)] else [])"
    using save_step [OF _ _ _ ev(2,1) assms(4) save] I by (simp add: r')
  show "g_sub_manager r' = g_sub_manager r" "ctx_sub_manager r'" using s(2) by (simp_all add: r')
qed

section \<open>Answering a REQ\<close>

text \<open>
  The events a REQ sends out of those it finds: one per id, as long as the array of sent ids has
  room (none when there is no array).
\<close>

fun fresh_events :: "nostr_event list \<Rightarrow> u8 list list option \<Rightarrow> nostr_event list \<times> u8 list list option" where
  "fresh_events [] sent = ([], sent)"
| "fresh_events (e # es) sent =
     (case sent of
        None \<Rightarrow> (case fresh_events es None of (xs, sent) \<Rightarrow> (e # xs, sent))
      | Some ids \<Rightarrow>
          if ev_id e \<in> set ids then fresh_events es (Some ids)
          else case fresh_events es (Some (if length ids < 64 then ids @ [ev_id e] else ids)) of
            (xs, sent) \<Rightarrow> (e # xs, sent))"

lemma fresh_events_append:
  "fresh_events (xs @ ys) sent =
     (case fresh_events xs sent of (as, sent) \<Rightarrow> case fresh_events ys sent of (bs, sent) \<Rightarrow> (as @ bs, sent))"
  by (induction xs arbitrary: sent) (auto split: prod.splits option.splits)

lemma fresh_events_subset: "set (fst (fresh_events es sent)) \<subseteq> set es"
proof (induction es arbitrary: sent)
  case (Cons e es)
  then show ?case
    by (auto simp: subset_iff split: prod.split option.split) (metis fst_conv)+
qed simp

lemma fresh_events_all:
  "ev_id ` set es \<subseteq> set ids \<union> ev_id ` set (fst (fresh_events es (Some ids)))"
proof (induction es arbitrary: ids)
  case (Cons e es)
  show ?case
  proof (cases "ev_id e \<in> set ids")
    case True
    with Cons [of ids] show ?thesis by simp
  next
    case False
    with Cons [of "if length ids < 64 then ids @ [ev_id e] else ids"] show ?thesis
      by (auto split: prod.splits if_splits)
  qed
qed simp

lemma fresh_events_distinct:
  "length ids + length (fst (fresh_events es (Some ids))) \<le> 64 \<Longrightarrow>
    distinct (map ev_id (fst (fresh_events es (Some ids)))) \<and>
    set ids \<inter> ev_id ` set (fst (fresh_events es (Some ids))) = {}"
proof (induction es arbitrary: ids)
  case (Cons e es)
  show ?case
  proof (cases "ev_id e \<in> set ids")
    case True
    with Cons show ?thesis by simp
  next
    case False
    let ?xs = "fst (fresh_events es (Some (ids @ [ev_id e])))"
    have room: "length ids < 64" using Cons.prems False by (auto split: prod.splits if_splits)
    then have eq: "fst (fresh_events (e # es) (Some ids)) = e # ?xs" using False by (simp split: prod.split)
    then have "length (ids @ [ev_id e]) + length ?xs \<le> 64" using Cons.prems by simp
    from Cons.IH [OF this] False show ?thesis unfolding eq by auto
  qed
qed simp

lemma req_events_good:
  assumes "sends env" and "ws_httpd (ws st)"
    and "\<And>e. e \<in> set es \<Longrightarrow> wire lib ROUTER_EVENT_BUF_SIZE (Relay_Event sid e) (enc e)"
  shows "outbox (snd (req_events_loop lib env fd sid es sent st)) =
      outbox st @ map (\<lambda>e. frame_for st fd (enc e)) (fst (fresh_events es sent)) \<and>
    fst (req_events_loop lib env fd sid es sent st) = snd (fresh_events es sent)"
  using assms(2,3)
proof (induction es arbitrary: sent st)
  case (Cons e es)
  let ?st = "snd (router_send_event lib env fd sid e st)"
  note k = talks_keeps [OF talks_event [of fd st lib env sid e]]
  have st: "ws_httpd (ws ?st)" using k(1) Cons.prems(1) by simp
  have es: "\<And>e. e \<in> set es \<Longrightarrow> wire lib ROUTER_EVENT_BUF_SIZE (Relay_Event sid e) (enc e)" using Cons.prems(2) by simp
  note IH = Cons.IH [OF Cons.prems(1) es] Cons.IH [OF st es]
  have "wire lib ROUTER_EVENT_BUF_SIZE (Relay_Event sid e) (enc e)" using Cons.prems(2) by simp
  note ev = event_good [OF assms(1) Cons.prems(1) this, of fd]
  show ?case
    using IH ev
    by (cases sent) (auto simp: Let_def k(3) list_ex_iff MAX_SENT_IDS_def split: prod.splits)
qed simp

text \<open>
  What the filters find in the log, in their order.  The storage calls of the message see one
  clock reading and one set of readable files.
\<close>

definition req_found :: "nostr_lib \<Rightarrow> storage_env \<Rightarrow> log \<Rightarrow> nostr_filter list \<Rightarrow> nostr_event list" where
  "req_found lib senv log fs =
     concat (map (\<lambda>f. take (capped (req_limit f)) (List.map_filter (shown lib senv f) (rev log))) fs)"

lemma shown_expired: "expired (now_of env) (fst x) \<Longrightarrow> shown lib env f x = None"
  by (auto simp: shown_def split: option.split)

lemma shown_filter:
  assumes "\<forall>e \<in> X. expired (now_of env) e"
  shows "List.map_filter (shown lib env f) (rev (filter (\<lambda>x. fst x \<notin> X) xs)) = List.map_filter (shown lib env f) (rev xs)"
proof (induction xs)
  case (Cons x xs)
  have "shown lib env f x = None" if "fst x \<in> X" using that assms shown_expired by blast
  with Cons show ?case by (simp add: map_filter_append map_filter_Cons)
qed simp

definition log_fits :: "nostr_lib \<Rightarrow> log \<Rightarrow> nostr_filter \<Rightarrow> bool" where
  "log_fits lib log f \<longleftrightarrow> (\<forall>e ev. (e, Some ev) \<in> set log \<longrightarrow> match_contract lib f ev \<and> times_fit f ev)"

lemma req_filters_good:
  assumes "sends env" and "env_malloc senv"
  shows "ws_httpd (ws st) \<Longrightarrow> store_inv lib (g_storage r) \<Longrightarrow>
    (\<And>x e. (x, Some e) \<in> set (stored lib (g_storage r)) \<Longrightarrow> wire lib ROUTER_EVENT_BUF_SIZE (Relay_Event sid e) (enc e)) \<Longrightarrow>
    \<forall>f \<in> set fs. log_fits lib (stored lib (g_storage r)) f \<Longrightarrow>
    \<forall>i < length fs. re_store env (store_tick r + i) = senv \<Longrightarrow>
    req_filters_loop lib env fd sid fs sent (st, r) = (st', r') \<Longrightarrow>
    outbox st' = outbox st @ map (\<lambda>e. frame_for st fd (enc e))
      (fst (fresh_events (req_found lib senv (stored lib (g_storage r)) fs) sent)) \<and>
    g_sub_manager r' = g_sub_manager r \<and>
    (\<exists>X. (\<forall>e \<in> X. expired (now_of senv) e) \<and>
      stored lib (g_storage r') = filter (\<lambda>x. fst x \<notin> X) (stored lib (g_storage r)))"
proof (induction fs arbitrary: sent st r)
  case Nil
  then show ?case by (auto simp: req_found_def intro!: exI [of _ "{}"])
next
  case (Cons f fs)
  let ?log = "stored lib (g_storage r)"
  obtain e evs s1 where q: "storage_query_events lib senv f (req_limit f) (g_storage r) = ((e, evs), s1)"
    by (metis prod.collapse)
  let ?r1 = "r\<lparr>g_storage := s1, store_tick := store_tick r + 1\<rparr>"
  have "re_store env (store_tick r) = senv" using Cons.prems(5) by (metis add.right_neutral length_greater_0_conv list.distinct(1))
  with q have rq: "relay_query lib env f (req_limit f) r = ((e, evs), ?r1)" by (simp add: relay_query_def)
  have "log_fits lib ?log f" using Cons.prems(4) by simp
  note qs = query_shown [OF Cons.prems(2) assms(2) this [unfolded log_fits_def] q]
  then obtain X where X: "\<forall>e \<in> X. expired (now_of senv) e" "stored lib s1 = filter (\<lambda>x. fst x \<notin> X) ?log" by blast
  obtain sent1 st1 where l: "req_events_loop lib env fd sid evs sent st = (sent1, st1)" by force
  have wired: "wire lib ROUTER_EVENT_BUF_SIZE (Relay_Event sid e) (enc e)" if "e \<in> set evs" for e
  proof -
    have "e \<in> set (List.map_filter (shown lib senv f) (rev ?log))" using that qs by (auto dest: in_set_takeD)
    then obtain x where "x \<in> set ?log" "snd x = Some e" by (auto simp: set_map_filter shown_def split: option.splits if_splits)
    with Cons.prems(3) show ?thesis by (metis prod.collapse)
  qed
  note ev = req_events_good [OF assms(1) Cons.prems(1) wired, of evs fd sent, simplified, unfolded l fst_conv snd_conv]
  have k: "ws st1 = ws st" "frame_for st1 = frame_for st"
    using talks_keeps [OF req_events_talks [of fd st lib env sid evs sent]] by (simp_all add: l)
  have next1: "\<forall>i < length fs. re_store env (store_tick ?r1 + i) = senv"
    using Cons.prems(5) by (auto dest: spec [of _ "Suc i" for i])
  have fits: "\<forall>f \<in> set fs. log_fits lib (stored lib (g_storage ?r1)) f"
    using Cons.prems(4) X(2) by (auto simp: log_fits_def)
  have rest: "req_filters_loop lib env fd sid fs sent1 (st1, ?r1) = (st', r')"
    using Cons.prems(6) rq l qs by simp
  have "ws_httpd (ws st1)" "store_inv lib (g_storage ?r1)" using k(1) Cons.prems(1) qs by simp_all
  moreover have "wire lib ROUTER_EVENT_BUF_SIZE (Relay_Event sid e) (enc e)" if "(x, Some e) \<in> set (stored lib (g_storage ?r1))" for x e
    using that X(2) Cons.prems(3) [of x e] by simp
  ultimately have IH: "outbox st' = outbox st1 @ map (\<lambda>e. frame_for st1 fd (enc e))
      (fst (fresh_events (req_found lib senv (stored lib (g_storage ?r1)) fs) sent1)) \<and>
    g_sub_manager r' = g_sub_manager ?r1 \<and>
    (\<exists>X. (\<forall>e \<in> X. expired (now_of senv) e) \<and>
      stored lib (g_storage r') = filter (\<lambda>x. fst x \<notin> X) (stored lib (g_storage ?r1)))"
    using Cons.IH [of st1 ?r1 sent1] fits next1 rest by blast
  have same: "req_found lib senv (stored lib (g_storage ?r1)) fs = req_found lib senv ?log fs"
    by (simp add: req_found_def X(2) shown_filter [OF X(1)])
  have "outbox st' = outbox st @ map (\<lambda>e. frame_for st fd (enc e))
      (fst (fresh_events evs sent) @ fst (fresh_events (req_found lib senv ?log fs) (snd (fresh_events evs sent))))"
    using IH ev k(2) same by simp
  moreover have "req_found lib senv ?log (f # fs) = evs @ req_found lib senv ?log fs"
    using qs by (simp add: req_found_def)
  moreover obtain Y where "\<forall>e \<in> Y. expired (now_of senv) e" "stored lib (g_storage r') = filter (\<lambda>x. fst x \<notin> Y) (stored lib s1)"
    using IH by auto
  then have "\<exists>Z. (\<forall>e \<in> Z. expired (now_of senv) e) \<and> stored lib (g_storage r') = filter (\<lambda>x. fst x \<notin> Z) ?log"
    using X by (intro exI [of _ "X \<union> Y"]) (auto intro: filter_cong)
  ultimately show ?case using IH by (simp add: fresh_events_append split: prod.splits)
qed

lemma add_no_failure:
  assumes "sub_manager_add lib mgr fd sid fs [] = (e, mgr', h)"
  shows "h = []"
proof -
  have "\<exists>s'. copy_filters_to_slot lib s fs' [] = (True, s', [])" for s fs' by (rule copy_slot_ok)
  then show ?thesis
    using assms unfolding sub_manager_add_def Let_def
    by (auto split: option.splits if_splits prod.splits bool.splits) (metis prod.inject)+
qed

text \<open>A REQ that is accepted: the events, then EOSE; and the subscription is registered.\<close>

lemma handle_req_good:
  assumes "sends env" and "env_malloc senv" and inv: "core_inv lib fds r" and "ws_httpd (ws st)"
    and "alloc r = []" and "length sid \<le> 64" and "length fs \<le> 4"
    and room: "sm_view (g_sub_manager r) (fd, sid) \<noteq> None \<or>
      conn_slots (g_sub_manager r) fd < 8 \<and> card (dom (sm_view (g_sub_manager r))) < 64"
    and "\<forall>i < length fs. re_store env (store_tick r + i) = senv"
    and "\<forall>f \<in> set fs. log_fits lib (stored lib (g_storage r)) f"
    and "\<And>x e. (x, Some e) \<in> set (stored lib (g_storage r)) \<Longrightarrow> wire lib ROUTER_EVENT_BUF_SIZE (Relay_Event sid e) (enc e)"
    and "wire lib ROUTER_SEND_BUF_SIZE (Relay_Eose sid) eose"
    and hr: "handle_req lib env fd sid fs (st, r) = (st', r')"
  shows "outbox st' = outbox st @ map (\<lambda>e. frame_for st fd (enc e))
      (fst (fresh_events (req_found lib senv (stored lib (g_storage r)) fs) (Some []))) @ [frame_for st fd eose] \<and>
    sm_view (g_sub_manager r') = (sm_view (g_sub_manager r))((fd, sid) \<mapsto> fs) \<and>
    (\<exists>X. (\<forall>e \<in> X. expired (now_of senv) e) \<and>
      stored lib (g_storage r') = filter (\<lambda>x. fst x \<notin> X) (stored lib (g_storage r)))"
proof -
  note p = core_parts [OF inv]
  obtain e mgr h where add: "sub_manager_add lib (g_sub_manager r) fd sid fs [] = (e, mgr, h)" by (metis prod_cases3)
  have "subs_spec_add True (sm_view (g_sub_manager r)) fd sid fs = (e, sm_view mgr)"
    using add_step [OF p(1) _ add] assms(6) copies_empty_schedule [of lib fs] by (simp add: SUB_MAX_ID_LEN_def)
  then have e: "e = NOSTR_RELAY_OK" "sm_view mgr = (sm_view (g_sub_manager r))((fd, sid) \<mapsto> fs)"
    using room assms(7) by (auto simp: subs_spec_add_def inv_conn_card [OF p(1)] sub_consts split: if_splits)
  have h: "h = []" using add_no_failure [OF add] .
  define r1 where "r1 = r\<lparr>g_sub_manager := mgr, alloc := []\<rparr>"
  obtain st2 r2 where l: "req_filters_loop lib env fd sid fs (Some []) (st, r1) = (st2, r2)" by force
  have res: "st' = snd (router_send_eose lib env fd sid st2)" "r' = r2"
    using hr p(8,9) assms(5) by (simp_all add: handle_req_def add e h r1_def [symmetric] l)
  have "g_storage r1 = g_storage r" "store_tick r1 = store_tick r" by (simp_all add: r1_def)
  note g = req_filters_good [where r = r1, unfolded this, OF assms(1,2,4) p(6) assms(11,10,9) l]
  have k: "ws st2 = ws st" "frame_for st2 = frame_for st"
    using talks_keeps req_filters_step [OF l] by blast+
  have "outbox st' = outbox st2 @ [frame_for st fd eose]"
    using reply_good [OF assms(1) _ assms(12), of st2 fd] k assms(4) by (simp add: res router_send_eose_def)
  with g e res(2) show ?thesis by (simp add: r1_def)
qed

lemma parse_req:
  "lib_client_msg_parse lib s = Inr (Client_Req sid fs) \<Longrightarrow> length sid \<le> 64 \<Longrightarrow>
    router_parse lib s = (NOSTR_RELAY_OK, ROUTER_MSG_REQ sid fs)"
  by (simp add: router_parse_def ROUTER_MAX_SUB_ID_def)

lemma dispatch_req_eq:
  assumes "ctx_rate_limiter r"
  shows "dispatch_req lib env fd sid fs (st, r\<lparr>msg_tick := msg_tick r + 1\<rparr>) =
    (if \<not> permits env fd RATE_TYPE_REQ r
     then (snd (router_send_closed lib env fd sid ''rate-limited:'' st), metered env fd RATE_TYPE_REQ r)
     else if length sid = 0 \<or> 64 < length sid
     then (snd (router_send_closed lib env fd sid ''error: invalid subscription id'' st), metered env fd RATE_TYPE_REQ r)
     else if 4 < length fs
     then (snd (router_send_closed lib env fd sid ''error: too many filters'' st), metered env fd RATE_TYPE_REQ r)
     else handle_req lib env fd sid fs (st, metered env fd RATE_TYPE_REQ r))"
  using rate_limited_eq [OF assms]
  by (simp add: dispatch_req_def Let_def ROUTER_MAX_SUB_ID_def ROUTER_MAX_FILTERS_def)

lemma req_effect:
  fixes r :: relay_core and lib :: nostr_lib and env :: relay_env and fs :: "nostr_filter list"
  defines "senv \<equiv> re_store env (store_tick r)"
  defines "found \<equiv> req_found lib senv (stored lib (g_storage r)) fs"
  assumes "lib_ok lib" and "reachable lib env (st, r)" and "rq_fd req \<in> open_fds (ws st)" and "delivers req st"
    and "lib_client_msg_parse lib (rq_payload req) = Inr (Client_Req sid fs)"
    and "permits env (rq_fd req) RATE_TYPE_REQ r" and "sid \<noteq> []" and "length sid \<le> 64" and "length fs \<le> 4"
    and "sm_view (g_sub_manager r) (rq_fd req, sid) \<noteq> None \<or> unat (sub_manager_count (g_sub_manager r) (rq_fd req)) < 8"
    and "alloc r = []" and "env_malloc senv" and "\<forall>i < length fs. re_store env (store_tick r + i) = senv"
    and "\<forall>f \<in> set fs. log_fits lib (stored lib (g_storage r)) f" and "sends env"
    and "\<And>x e. (x, Some e) \<in> set (stored lib (g_storage r)) \<Longrightarrow> wire lib ROUTER_EVENT_BUF_SIZE (Relay_Event sid e) (enc e)"
    and "wire lib ROUTER_SEND_BUF_SIZE (Relay_Eose sid) eose"
    and "ws_handler (on_ws_message lib env) req (st, r) = (e, (st', r'))"
  shows "(\<exists>evs. outbox st' = outbox st @ map (\<lambda>e. answer (rq_fd req) (rq_fd req) (enc e)) evs
        @ [answer (rq_fd req) (rq_fd req) eose] \<and>
      evs = fst (fresh_events found (Some [])) \<and> set evs \<subseteq> set found \<and> ev_id ` set evs = ev_id ` set found \<and>
      (length evs \<le> 64 \<longrightarrow> distinct (map ev_id evs))) \<and>
    sm_view (g_sub_manager r') = (sm_view (g_sub_manager r))((rq_fd req, sid) \<mapsto> fs) \<and>
    (\<exists>X. (\<forall>e \<in> X. expired (now_of senv) e) \<and>
      stored lib (g_storage r') = filter (\<lambda>x. fst x \<notin> X) (stored lib (g_storage r)))"
proof -
  let ?m = "metered env (rq_fd req) RATE_TYPE_REQ r" and ?fd = "rq_fd req"
  note inv = reachable_inv [OF assms(3,4)]
  have c: "core_inv lib (open_fds (ws st)) r" "ws_inv (ws st)" using inv by (simp_all add: relay_inv_def)
  note cm = metered_inv [OF c(1) assms(5), of env RATE_TYPE_REQ]
  note p = core_parts [OF c(1)]
  obtain st1 st2 where h: "outbox st1 = outbox st" "ws_httpd (ws st1)" "g_current_req st1 = Some ?fd"
      "on_ws_message lib env ?fd (rq_payload req) (st1, r) = (st2, r')" "outbox st' = outbox st2"
    using delivered [OF inv assms(6) assms(20)] .
  have hr: "handle_req lib env ?fd sid fs (st1, ?m) = (st2, r')"
    using h(4) message_parsed [OF assms(6) parse_req [OF assms(7,10)]] dispatch_req_eq [OF p(10)] assms(8-11)
    by (simp add: router_dispatch_def)
  have room: "sm_view (g_sub_manager ?m) (?fd, sid) \<noteq> None \<or>
      conn_slots (g_sub_manager ?m) ?fd < 8 \<and> card (dom (sm_view (g_sub_manager ?m))) < 64"
    using assms(12) subs_card [OF p(1,2) open_fds_finite open_fds_max [OF c(2)] assms(5)]
    unfolding count_step [OF p(1)] metered_frame by blast
  note g = handle_req_good [OF assms(17) assms(14) cm h(2) _ assms(10,11) room _ _ _ assms(19) hr]
  have d: "length evs \<le> 64 \<longrightarrow> distinct (map ev_id evs)" if "evs = fst (fresh_events found (Some []))" for evs
    using fresh_events_distinct [of "[]" found] that by simp
  have all: "ev_id ` set (fst (fresh_events found (Some []))) = ev_id ` set found"
    using fresh_events_all [of found "[]"] fresh_events_subset [of found "Some []"] by auto
  show ?thesis
    using g assms(13,15,16,18) h(1,5) d all fresh_events_subset [of found "Some []"] answer_frame [OF h(3)]
    by (simp add: found_def)
qed

lemma event_effect:
  fixes lib :: nostr_lib and env :: relay_env and st :: ws_state and r :: relay_core and ev :: nostr_event
  defines "res \<equiv> save_result lib (re_store env (store_tick r)) ev (g_storage r)"
  assumes "lib_ok lib" and "reachable lib env (st, r)" and "rq_fd req \<in> open_fds (ws st)" and "delivers req st"
    and "next_file_index (eng (g_storage r)) \<noteq> -1"
    and "lib_client_msg_parse lib (rq_payload req) = Inr (Client_Event ev)"
    and "permits env (rq_fd req) RATE_TYPE_EVENT r" and "accepts lib env (msg_tick r + 1) ev"
    and "ev_kind ev \<noteq> NOSTR_KIND_DELETION"
    and "lib_kind_is_ephemeral lib (ev_kind ev) \<or> res \<in> {STORAGE_OK, STORAGE_ERR_DUPLICATE}"
    and "sends env" and "\<And>fd sid. (fd, sid) \<in> subscribers lib r ev \<Longrightarrow> wire lib ROUTER_EVENT_BUF_SIZE (Relay_Event sid ev) (enc sid)"
    and "wire lib ROUTER_SEND_BUF_SIZE (Relay_Ok (lib_event_get_id_hex lib ev) True '''') ok"
    and "ws_handler (on_ws_message lib env) req (st, r) = (e, (st', r'))"
  shows "(\<exists>ks. outbox st' = outbox st @ map (\<lambda>(fd, sid). answer (rq_fd req) fd (enc sid)) ks
        @ [answer (rq_fd req) (rq_fd req) ok] \<and>
      distinct ks \<and> set ks = subscribers lib r ev) \<and>
    g_sub_manager r' = g_sub_manager r \<and>
    stored lib (g_storage r') = stored lib (g_storage r) @
      (if \<not> lib_kind_is_ephemeral lib (ev_kind ev) \<and> res = STORAGE_OK
       then [(entry_for lib (re_store env (store_tick r)) (eng (g_storage r)) ev
         (idx (eng (g_storage r)) ! unat (index_count (eng (g_storage r)))), Some ev)] else [])"
proof -
  let ?m = "metered env (rq_fd req) RATE_TYPE_EVENT r" and ?fd = "rq_fd req"
  note inv = reachable_inv [OF assms(2,3)]
  have c: "core_inv lib (open_fds (ws st)) r" using inv by (simp add: relay_inv_def)
  note p = core_parts [OF c] and pm = core_parts [OF metered_inv [OF c assms(4)], of env RATE_TYPE_EVENT]
  obtain st1 st2 where h: "outbox st1 = outbox st" "ws_httpd (ws st1)" "g_current_req st1 = Some ?fd"
      "on_ws_message lib env ?fd (rq_payload req) (st1, r) = (st2, r')" "outbox st' = outbox st2"
    using delivered [OF inv assms(5,15)] .
  obtain r2 where r2: "handle_event lib env ?fd ev (st1, ?m) = (NOSTR_RELAY_OK, broadcaster_fanout lib env ev (st1, r2))"
    and keep: "g_sub_manager r2 = g_sub_manager r" "ctx_sub_manager r2"
    and log: "stored lib (g_storage r2) = stored lib (g_storage r) @
      (if \<not> lib_kind_is_ephemeral lib (ev_kind ev) \<and> res = STORAGE_OK
       then [(entry_for lib (re_store env (store_tick r)) (eng (g_storage r)) ev
         (idx (eng (g_storage r)) ! unat (index_count (eng (g_storage r)))), Some ev)] else [])"
  proof (cases "lib_kind_is_ephemeral lib (ev_kind ev)")
    case True
    then show thesis
      using that [of ?m] handle_event_accepts [of ?m lib env ev ?fd st1] assms(9,10) p(7-9) by simp
  next
    case False
    obtain e r2 where s: "relay_save lib env ev ?m = (e, r2)" by force
    note sm = save_of_metered [OF c assms(2,9,6) s]
    have "e = res" using sm(1) by (simp add: res_def)
    with False show thesis
      using that [of r2] handle_event_accepts [of ?m lib env ev ?fd st1] assms(9,10,11) p(7-9) s sm by auto
  qed
  have "(st2, r') = (snd (router_send_ok lib env ?fd (lib_event_get_id_hex lib ev) True ''''
      (fst (broadcaster_fanout lib env ev (st1, r2)))), r2)"
    using h(4) message_parsed [OF assms(5) parse_event [OF assms(7)]] dispatch_event_eq [OF p(10)] assms(8) r2
      broadcast_rest [of lib env ev st1 r2]
    by (simp add: router_dispatch_def split: prod.splits)
  moreover have "subscribers lib r2 ev = subscribers lib r ev" by (simp add: subscribers_def keep)
  ultimately show ?thesis
    using publish [OF assms(12) h(2,3) keep(2), of lib ev enc "lib_event_get_id_hex lib ev" ok] assms(13,14) p(1) keep(1) log h(1,5)
    by simp
qed

end
