(* ===== verification/Message_Props.thy ===== *)
theory Message_Props
  imports Message_Steps
begin

text \<open>
  What a client's message does, from the frame that carries it to the frames it causes: an
  EVENT is checked, stored, sent to every subscriber and confirmed, or refused with a reason; a
  REQ is answered from the log and registered; a CLOSE ends a subscription.
\<close>

section \<open>Relays for the witnesses\<close>

text \<open>
  The relay with one connection, after it has published note 7 (\<open>demo_saved\<close>), or after
  it has subscribed to the notes and a second connection has opened (\<open>demo_two\<close>).
\<close>

definition handled :: "int \<Rightarrow> string \<Rightarrow> relay \<Rightarrow> relay" where
  "handled fd data rel = snd (ws_handler (on_ws_message (demo_lib demo_notes) demo_env) (text_request fd data) rel)"

definition event_text :: "nat \<Rightarrow> string" where
  "event_text n = CHR ''E'' # demo_hex (ev_id (demo_note n))"

definition demo_saved :: relay where "demo_saved = handled 54 (event_text 7) demo_one"

definition demo_fed :: relay where "demo_fed = handled 54 ''Rfeed'' demo_one"

definition demo_two :: relay where
  "demo_two = (snd (on_open 0 None 55 (fst demo_fed)), snd demo_fed)"

lemma permits_fresh:
  assumes "core_inv lib fds r" and "rl_view (g_rate_limiter r) fd = None" and "finite fds" and "card fds \<le> 8"
  shows "permits env fd ty r"
proof -
  note p = core_parts [OF assms(1)]
  obtain b rl where c: "rate_limiter_check (g_rate_limiter r) fd ty (re_timer_open env (msg_tick r + 1))
      (re_timer env (msg_tick r + 1)) = (b, rl)" by force
  have "card (dom (rl_view (g_rate_limiter r))) \<le> 8"
    using card_mono [OF assms(3) p(5)] assms(4) by simp
  then have b: "b"
    using check_step [OF p(3) c] assms(2) p(4)
    by (auto simp: limiter_spec_def RATE_LIMITER_MAX_BUCKETS_def take_token_def roll_window_def open_bucket_def
          relay_limits_def Let_def split: rate_type.splits if_splits)
  show ?thesis using b c by (simp add: permits_def)
qed

lemma demo_delivers: "g_message_callback st \<Longrightarrow> data \<noteq> [] \<Longrightarrow> length data \<le> 65536 \<Longrightarrow> delivers (text_request fd data) st"
  by (simp add: delivers_def text_request_def)

lemma demo_text: "rq_fd (text_request fd data) = fd" "rq_payload (text_request fd data) = data"
  by (simp_all add: text_request_def)

lemma demo_parse_req: "lib_client_msg_parse (demo_lib demo_notes) ''Rfeed'' = Inr (Client_Req ''feed'' [kind_one])"
  by (simp add: demo_lib_def kind_one_def)

lemma demo_hex_eq: "demo_hex a = demo_hex b \<longleftrightarrow> a = b"
  using unhex_demo_hex by (metis option.inject)

lemma demo_note_ids: "ev_id (demo_note 7) \<noteq> ev_id (demo_note 9)"
  by (simp add: demo_note_def)

lemma demo_parse_event: "lib_client_msg_parse (demo_lib demo_notes) (event_text 7) = Inr (Client_Event (demo_note 7))"
  using demo_note_ids by (simp add: demo_lib_def event_text_def demo_notes_def demo_erase_def demo_hex_eq)

lemma demo_event_ok:
  "accepts (demo_lib demo_notes) demo_env n (demo_note 7)" "ev_kind (demo_note 7) \<noteq> NOSTR_KIND_DELETION"
  "\<not> lib_kind_is_ephemeral (demo_lib demo_notes) (ev_kind (demo_note 7))" "sends demo_env"
  "length (event_text 7) = 65" "length (ev_id (demo_note 7)) = 32"
  by (simp_all add: accepts_def acceptable_def event_config_def demo_env_def demo_lib_def demo_notes_def demo_erase_def
        demo_note_def NOSTR_KIND_DELETION_def sends_def event_text_def length_demo_hex word_le_nat_alt)

lemma demo_wires:
  "wire (demo_lib demo_notes) n (Relay_Event sid e) (''EVENT '' @ sid)"
  "wire (demo_lib demo_notes) n (Relay_Eose sid) (''EOSE '' @ sid)"
  "wire (demo_lib demo_notes) n (Relay_Ok i b m) (''OK '' @ i)"
  "wire (demo_lib demo_notes) n (Relay_Closed sid m) (''CLOSED '' @ sid)"
  by (simp_all add: demo_lib_def)

text \<open>Saving note 7 in the empty store of the started relay.\<close>

lemma demo_saves:
  assumes "stored (demo_lib demo_notes) s = []" and "index_count (eng s) = 0" and "max_index_entries (eng s) = 5000"
    and "default_ttl_sec (eng s) = 1814400"
  shows "save_result (demo_lib demo_notes) (good_env 2000) (demo_note 7) s = STORAGE_OK"
    and "\<not> expired (now_of (good_env 2000)) (entry_for (demo_lib demo_notes) (good_env 2000) (eng s) (demo_note 7) e)"
proof -
  have "\<exists>json. lib_event_serialize (demo_lib demo_notes) (demo_note 7) STORAGE_MAX_EVENT_SIZE = Some json \<and> length json = 64"
    by (simp add: demo_lib_def length_demo_hex demo_note_def)
  then show "save_result (demo_lib demo_notes) (good_env 2000) (demo_note 7) s = STORAGE_OK"
    using assms(1-3) by (auto simp: save_result_def good_env_def STORAGE_MAX_EVENT_SIZE_def)
  show "\<not> expired (now_of (good_env 2000)) (entry_for (demo_lib demo_notes) (good_env 2000) (eng s) (demo_note 7) e)"
    using assms(4) by (simp add: expired_def entry_for_def entry_expiry_def now_of_def good_env_def demo_lib_def)
qed

text \<open>A second connection.\<close>

lemma demo_second:
  assumes reach: "reachable (demo_lib demo_notes) demo_env (st, r)" and fds: "open_fds (ws st) = {54}"
    and op: "on_open 0 None 55 st = (e, st1)"
  shows "reachable (demo_lib demo_notes) demo_env (st1, r)" "open_fds (ws st1) = {54, 55}"
    "permits demo_env 55 ty r" "unat (sub_manager_count (g_sub_manager r) 55) = 0" "g_message_callback st1"
proof -
  note c = reachable_core [OF demo_lib_ok reach]
  note p = core_parts [OF c(1)]
  have new: "55 \<notin> open_fds (ws st)" using fds by simp
  show reach1: "reachable (demo_lib demo_notes) demo_env (st1, r)" by (rule reach_step [OF reach step_open [OF new op]])
  show "open_fds (ws st1) = {54, 55}"
    using on_open_step [OF c(2) new op] fds c(3) by (auto simp: WS_MAX_CONNECTIONS_def split: if_splits)
  have "rl_view (g_rate_limiter r) 55 = None" using p(5) new by blast
  then show "permits demo_env 55 ty r"
    by (rule permits_fresh [OF c(1)]) (simp_all add: fds)
  have "55 \<notin> sub_owners (g_sub_manager r)" using p(2) new by blast
  then have "{k \<in> dom (sm_view (g_sub_manager r)). fst k = 55} = {}"
    by (force simp: sub_owners_def)
  then show "unat (sub_manager_count (g_sub_manager r) 55) = 0"
    using count_step [OF p(1), of 55] inv_conn_card [OF p(1), of 55] by (metis card.empty)
  show "g_message_callback st1" using reachable_core(5) [OF demo_lib_ok reach1] .
qed

lemma demo_one_parts:
  assumes "demo_one = (st, r)"
  shows "reachable (demo_lib demo_notes) env (st, r)" "open_fds (ws st) = {54}" "g_message_callback st"
    "stored (demo_lib demo_notes) (g_storage r) = []" "index_count (eng (g_storage r)) = 0"
    "next_file_index (eng (g_storage r)) = 0" "max_index_entries (eng (g_storage r)) = 5000"
    "default_ttl_sec (eng (g_storage r)) = 1814400" "alloc r = []" "sm_view (g_sub_manager r) = Map.empty"
    "permits env 54 ty r" "unat (sub_manager_count (g_sub_manager r) 54) = 0"
proof -
  show reach: "reachable (demo_lib demo_notes) env (st, r)" "open_fds (ws st) = {54}"
    and "stored (demo_lib demo_notes) (g_storage r) = []" "index_count (eng (g_storage r)) = 0"
      "next_file_index (eng (g_storage r)) = 0" "max_index_entries (eng (g_storage r)) = 5000"
      "default_ttl_sec (eng (g_storage r)) = 1814400" "alloc r = []"
    and view: "sm_view (g_sub_manager r) = Map.empty"
    using demo_opened(1-4) demo_started(3-8) unfolding demo_opened(5) [symmetric] assms fst_conv snd_conv by blast+
  note c = reachable_core [OF demo_lib_ok reach(1)]
  show "g_message_callback st" using c(5) .
  show "permits env 54 ty r"
    by (rule permits_fresh [OF c(1)]) (use demo_opened(4) [unfolded assms] reach(2) in simp_all)
  show "unat (sub_manager_count (g_sub_manager r) 54) = 0"
    using count_step [OF core_parts(1) [OF c(1)], of 54] inv_conn_card [OF core_parts(1) [OF c(1)], of 54] view by simp
qed

lemma save_alloc: "relay_save lib env ev r = (e, r') \<Longrightarrow> alloc r' = alloc r"
  by (auto simp: relay_save_def split: prod.splits)

lemma handle_event_alloc:
  assumes "ev_kind ev \<noteq> NOSTR_KIND_DELETION"
  shows "alloc (snd (snd (handle_event lib env fd ev (st, r)))) = alloc r"
  using assms save_alloc
  by (simp add: handle_event_def Let_def broadcast_rest split: prod.split)

lemma event_alloc:
  assumes "ev_kind ev \<noteq> NOSTR_KIND_DELETION" and "ctx_rate_limiter r"
  shows "alloc (snd (dispatch_event lib env fd ev (st, r\<lparr>msg_tick := msg_tick r + 1\<rparr>))) = alloc r"
  using handle_event_alloc [OF assms(1), of lib env fd st "metered env fd RATE_TYPE_EVENT r"]
  unfolding dispatch_event_eq [OF assms(2)] by (auto split: prod.split)

text \<open>After the publication of note 7.\<close>

lemma demo_saved_parts:
  assumes "demo_saved = (st, r)"
  shows "reachable (demo_lib demo_notes) demo_env (st, r)" "open_fds (ws st) = {54}" "alloc r = []"
    "\<exists>e. stored (demo_lib demo_notes) (g_storage r) = [(e, Some (demo_note 7))] \<and> \<not> expired (now_of (good_env 2000)) e"
    "next_file_index (eng (g_storage r)) = 1"
proof -
  let ?lib = "demo_lib demo_notes" and ?req = "text_request 54 (event_text 7)"
  obtain st0 r0 where one: "demo_one = (st0, r0)" by force
  note o = demo_one_parts [OF one]
  obtain e where h: "ws_handler (on_ws_message ?lib demo_env) ?req (st0, r0) = (e, (st, r))"
    using assms one by (metis demo_saved_def handled_def prod.collapse)
  have fd: "rq_fd ?req \<in> open_fds (ws st0)" using o(2) by (simp add: demo_text)
  have del: "delivers ?req st0"
    by (rule demo_delivers [OF o(3)]) (simp_all add: demo_event_ok(5), simp add: event_text_def)
  have nowrap: "next_file_index (eng (g_storage r0)) \<noteq> -1" using o(6) by simp
  show "reachable ?lib demo_env (st, r)" by (rule reach_step [OF o(1) step_request [OF fd nowrap h]])
  show "open_fds (ws st) = {54}"
    using request_step [OF demo_lib_ok reachable_inv [OF demo_lib_ok o(1)] fd nowrap h] o(2) by simp
  note sv = demo_saves [OF o(4,5,7,8)]
  have env: "re_store demo_env n = good_env 2000" for n by (simp add: demo_env_def)
  have parse: "lib_client_msg_parse ?lib (rq_payload ?req) = Inr (Client_Event (demo_note 7))"
    using demo_parse_event by (simp add: demo_text)
  have "stored ?lib (g_storage r) = stored ?lib (g_storage r0) @
      [(entry_for ?lib (good_env 2000) (eng (g_storage r0)) (demo_note 7)
         (idx (eng (g_storage r0)) ! unat (index_count (eng (g_storage r0)))), Some (demo_note 7))]"
    using event_effect [OF demo_lib_ok o(1) fd del nowrap parse _ demo_event_ok(1,2) _ demo_event_ok(4) demo_wires(1,3) h]
      o(11) sv(1) demo_event_ok(3) by (simp add: demo_text env)
  with sv(2) o(4) show "\<exists>e. stored ?lib (g_storage r) = [(e, Some (demo_note 7))] \<and> \<not> expired (now_of (good_env 2000)) e"
    by auto
  obtain st1 st2 where m: "on_ws_message ?lib demo_env (rq_fd ?req) (rq_payload ?req) (st1, r0) = (st2, r)"
    using delivered [OF reachable_inv [OF demo_lib_ok o(1)] del h] by metis
  let ?m = "metered demo_env 54 RATE_TYPE_EVENT r0"
  obtain e2 r2 where s2: "relay_save ?lib demo_env (demo_note 7) ?m = (e2, r2)" by force
  note c0 = reachable_core(1) [OF demo_lib_ok o(1) [of demo_env]]
  have "e2 = STORAGE_OK"
    using save_of_metered(1) [OF c0 demo_lib_ok demo_event_ok(1) nowrap s2] sv(1) by (simp add: env)
  then obtain s' where "storage_save_event ?lib (re_store demo_env (store_tick ?m)) (demo_note 7) (g_storage ?m) = (STORAGE_OK, s')"
    "g_storage r2 = s'" using s2 by (auto simp: relay_save_def split: prod.splits)
  from save_frame [OF this(1)] this(2) o(6) have "next_file_index (eng (g_storage r2)) = 1" by simp
  moreover have "r = r2"
    using m message_parsed [OF del parse_event [OF parse]] dispatch_event_eq [OF core_parts(10) [OF c0], of ?lib demo_env 54 "demo_note 7" st1]
      handle_event_accepts [of ?m ?lib demo_env "demo_note 7" 54 st1] core_parts(7,9) [OF c0] o(11) demo_event_ok(1-3) s2
      broadcast_rest [of ?lib demo_env "demo_note 7" st1 r2] \<open>e2 = STORAGE_OK\<close>
    by (auto simp: router_dispatch_def demo_text split: prod.splits)
  ultimately show "next_file_index (eng (g_storage r)) = 1" by simp
  show "alloc r = []"
    using m message_parsed [OF del parse_event [OF parse]] o(9)
      event_alloc [OF demo_event_ok(2) core_parts(10) [OF reachable_core(1) [OF demo_lib_ok o(1)]], of ?lib demo_env "rq_fd ?req" st1]
    by (simp add: router_dispatch_def)
qed

section \<open>REQ\<close>


lemma demo_fits:
  assumes "\<And>x. x \<in> set log \<Longrightarrow> snd x = Some (demo_note 7)"
  shows "log_fits (demo_lib demo_notes) log kind_one"
proof -
  have "match_contract (demo_lib demo_notes) kind_one (demo_note 7) \<and> times_fit kind_one (demo_note 7)"
    using demo_match_contract [of "demo_note 7"]
    by (simp add: times_fit_def kind_one_def zero_filter_def demo_note_def)
  moreover have "ev = demo_note 7" if "(e, Some ev) \<in> set log" for e ev using assms [OF that] by simp
  ultimately show ?thesis unfolding log_fits_def by blast
qed


section \<open>EVENT\<close>


lemma query_empty: "index_count (eng s) = 0 \<Longrightarrow> snd (storage_query_events lib env f l s) = s"
  by (simp add: storage_query_events_def Let_def)

lemma req_filters_empty:
  "index_count (eng (g_storage r)) = 0 \<Longrightarrow> g_storage (snd (req_filters_loop lib env fd sid fs sent (st, r))) = g_storage r"
proof (induction fs arbitrary: sent st r)
  case (Cons f fs)
  obtain e evs r1 where q: "relay_query lib env f (req_limit f) r = ((e, evs), r1)" by (metis prod.collapse)
  then have "g_storage r1 = g_storage r"
    using query_empty [OF Cons.prems, of lib "re_store env (store_tick r)" f "req_limit f"]
    by (auto simp: relay_query_def split: prod.splits)
  with Cons q show ?case by (simp add: Let_def split: prod.split)
qed simp

lemma handle_req_empty:
  assumes "index_count (eng (g_storage r)) = 0"
  shows "g_storage (snd (handle_req lib env fd sid fs (st, r))) = g_storage r"
proof -
  have "g_storage (snd (req_filters_loop lib env fd sid fs sent (st, r'))) = g_storage r" if "g_storage r' = g_storage r" for sent r'
    using req_filters_empty [of r'] assms that by simp
  then have "g_storage r2 = g_storage r"
    if "req_filters_loop lib env fd sid fs sent (st, r') = (st2, r2)" "g_storage r' = g_storage r" for sent r' st2 r2
    using that by (metis snd_conv)
  then show ?thesis by (auto simp: handle_req_def Let_def split: prod.split)
qed

text \<open>After the subscription of the first connection.\<close>

lemma demo_fed_parts:
  assumes "demo_fed = (st, r)"
  shows "reachable (demo_lib demo_notes) demo_env (st, r)" "open_fds (ws st) = {54}"
    "sm_view (g_sub_manager r) = [(54, ''feed'') \<mapsto> [kind_one]]" "g_storage r = g_storage (snd demo_one)"
    "outbox st = outbox (fst demo_one) @ [Out_Frame 54 WS_TEXT ''EOSE feed'']"
proof -
  let ?lib = "demo_lib demo_notes" and ?req = "text_request 54 ''Rfeed''"
  obtain st0 r0 where one: "demo_one = (st0, r0)" by force
  note o = demo_one_parts [OF one]
  obtain e where h: "ws_handler (on_ws_message ?lib demo_env) ?req (st0, r0) = (e, (st, r))"
    using assms one by (metis demo_fed_def handled_def prod.collapse)
  have fd: "rq_fd ?req \<in> open_fds (ws st0)" using o(2) by (simp add: demo_text)
  have del: "delivers ?req st0" by (rule demo_delivers [OF o(3)]) simp_all
  have nowrap: "next_file_index (eng (g_storage r0)) \<noteq> -1" using o(6) by simp
  show "reachable ?lib demo_env (st, r)" by (rule reach_step [OF o(1) step_request [OF fd nowrap h]])
  show "open_fds (ws st) = {54}"
    using request_step [OF demo_lib_ok reachable_inv [OF demo_lib_ok o(1)] fd nowrap h] o(2) by simp
  have env: "re_store demo_env n = good_env 2000" for n by (simp add: demo_env_def)
  have parse: "lib_client_msg_parse ?lib (rq_payload ?req) = Inr (Client_Req ''feed'' [kind_one])"
    using demo_parse_req by (simp add: demo_text)
  have fits: "\<forall>f \<in> set [kind_one]. log_fits ?lib (stored ?lib (g_storage r0)) f"
    using demo_fits [of "[]"] o(4) by simp
  have "sm_view (g_sub_manager r) = [(54, ''feed'') \<mapsto> [kind_one]] \<and>
      outbox st = outbox st0 @ [answer 54 54 (''EOSE '' @ ''feed'')]"
    using req_effect [OF demo_lib_ok o(1) fd del parse _ _ _ _ _ o(9) _ _ fits demo_event_ok(4) demo_wires(1,2) h]
      o(4,10-12) by (simp add: demo_text env req_found_def capped_def) (simp add: good_env_def)
  then show "sm_view (g_sub_manager r) = [(54, ''feed'') \<mapsto> [kind_one]]"
      "outbox st = outbox (fst demo_one) @ [Out_Frame 54 WS_TEXT ''EOSE feed'']" by (simp_all add: one answer_def)
  obtain st1 st2 where m: "on_ws_message ?lib demo_env (rq_fd ?req) (rq_payload ?req) (st1, r0) = (st2, r)"
    using delivered [OF reachable_inv [OF demo_lib_ok o(1)] del h] by metis
  have "g_storage r = g_storage r0"
    using m message_parsed [OF del parse_req [OF parse]] o(5,11)
      dispatch_req_eq [OF core_parts(10) [OF reachable_core(1) [OF demo_lib_ok o(1)]], of ?lib demo_env "rq_fd ?req" "''feed''" "[kind_one]" st1]
      handle_req_empty [of "metered demo_env 54 RATE_TYPE_REQ r0" ?lib demo_env 54 "''feed''" "[kind_one]" st1]
    by (simp add: router_dispatch_def demo_text)
  then show "g_storage r = g_storage (snd demo_one)" unfolding one by simp
qed

text \<open>A second connection publishes note 7.\<close>

lemma demo_publication:
  obtains st0 r st e st' r' where "demo_fed = (st0, r)" and "on_open 0 None 55 st0 = (ESP_OK, st)"
    and "ws_handler (on_ws_message (demo_lib demo_notes) demo_env) (text_request 55 (event_text 7)) (st, r) = (e, (st', r'))"
    and "reachable (demo_lib demo_notes) demo_env (st, r)" and "open_fds (ws st) = {54, 55}"
    and "permits demo_env 55 RATE_TYPE_EVENT r" and "delivers (text_request 55 (event_text 7)) st"
    and "next_file_index (eng (g_storage r)) \<noteq> -1"
    and "lib_client_msg_parse (demo_lib demo_notes) (rq_payload (text_request 55 (event_text 7))) = Inr (Client_Event (demo_note 7))"
    and "\<forall>ks. distinct ks \<longrightarrow> set ks = subscribers (demo_lib demo_notes) r (demo_note 7) \<longrightarrow> ks = [(54, ''feed'')]"
    and "save_result (demo_lib demo_notes) (re_store demo_env (store_tick r)) (demo_note 7) (g_storage r) = STORAGE_OK"
    and "stored (demo_lib demo_notes) (g_storage r) = []"
proof -
  let ?lib = "demo_lib demo_notes" and ?req = "text_request 55 (event_text 7)"
  obtain st0 r where fed: "demo_fed = (st0, r)" by force
  note s = demo_fed_parts [OF fed]
  obtain c st where op: "on_open 0 None 55 st0 = (c, st)" by force
  note t = demo_second [OF s(1,2) op]
  have ok: "c = ESP_OK"
    using on_open_step [OF reachable_core(2) [OF demo_lib_ok s(1)] _ op] s(2) reachable_core(3) [OF demo_lib_ok s(1)]
    by (simp add: WS_MAX_CONNECTIONS_def)
  obtain e st' r' where h: "ws_handler (on_ws_message ?lib demo_env) ?req (st, r) = (e, (st', r'))" by (metis prod.collapse)
  obtain st1 r1 where one: "demo_one = (st1, r1)" by force
  note o = demo_one_parts [OF one]
  have g: "g_storage r = g_storage r1" using s(4) unfolding one by simp
  note sv = demo_saves [OF o(4,5,7,8), folded g]
  have del: "delivers ?req st" by (rule demo_delivers [OF t(5)]) (simp_all add: demo_event_ok(5), simp add: event_text_def)
  have parse: "lib_client_msg_parse ?lib (rq_payload ?req) = Inr (Client_Event (demo_note 7))"
    using demo_parse_event by (simp add: demo_text)
  have "subscribers ?lib r (demo_note 7) = {(54, ''feed'')}"
    by (auto simp: subscribers_def s(3) demo_lib_def demo_match_def kind_one_def zero_filter_def demo_note_def split: if_splits)
  then have ks: "ks = [(54, ''feed'')]" if "distinct ks" "set ks = subscribers ?lib r (demo_note 7)" for ks
    using that by (cases ks; cases "tl ks") auto
  then have ks: "\<forall>ks. distinct ks \<longrightarrow> set ks = subscribers ?lib r (demo_note 7) \<longrightarrow> ks = [(54, ''feed'')]" by blast
  show ?thesis
    by (rule that [OF fed op [unfolded ok] h t(1,2,3) del _ parse ks]) (use o(4,6) g sv(1) in \<open>simp_all add: demo_env_def\<close>)
qed


text \<open>Why an event is refused, if it is: the text its author gets.\<close>

definition refusal :: "nostr_lib \<Rightarrow> relay_env \<Rightarrow> int \<Rightarrow> nostr_event \<Rightarrow> relay_core \<Rightarrow> string option" where
  "refusal lib env fd ev r =
     (let v = validator_check_event lib (re_now_lib env (msg_tick r + 1)) (re_now env (msg_tick r + 1)) ev event_config True in
      if \<not> permits env fd RATE_TYPE_EVENT r then Some ''rate-limited:''
      else if v \<noteq> VALIDATION_OK then Some (get_event_rejection_message lib (validator_result_to_relay_error v))
      else if \<not> lib_kind_is_ephemeral lib (ev_kind ev) \<and>
        save_result lib (re_store env (store_tick r)) ev (g_storage r) \<notin> {STORAGE_OK, STORAGE_ERR_DUPLICATE}
      then Some (lib_PREFIX_ERROR lib @ ''could not save event'')
      else None)"

lemma refusal_dispatch:
  assumes lib: "lib_ok lib" and c: "core_inv lib fds r" and nowrap: "next_file_index (eng (g_storage r)) \<noteq> -1"
    and kind: "ev_kind ev \<noteq> NOSTR_KIND_DELETION" and ref: "refusal lib env fd ev r = Some reason"
    and d: "dispatch_event lib env fd ev (st, r\<lparr>msg_tick := msg_tick r + 1\<rparr>) = (st', r')"
  shows "st' = snd (router_send_ok lib env fd (lib_event_get_id_hex lib ev) False reason st) \<and>
    stored lib (g_storage r') = stored lib (g_storage r) \<and> g_sub_manager r' = g_sub_manager r"
proof -
  let ?m = "metered env fd RATE_TYPE_EVENT r"
  note p = core_parts [OF c]
  let ?v = "validator_check_event lib (re_now_lib env (msg_tick r + 1)) (re_now env (msg_tick r + 1)) ev event_config True"
  have v: "?v = VALIDATION_OK \<longleftrightarrow> accepts lib env (msg_tick ?m) ev" by (simp add: check_ok_iff accepts_def)
  note d = d [unfolded dispatch_event_eq [OF p(10)]]
  show ?thesis
  proof (cases "permits env fd RATE_TYPE_EVENT r")
    case False
    then have "reason = ''rate-limited:''" using ref by (simp add: refusal_def Let_def)
    with False d have "st' = snd (router_send_ok lib env fd (lib_event_get_id_hex lib ev) False reason st)" "r' = ?m"
      by simp_all
    then show ?thesis by simp
  next
    case permitted: True
    note d = d [unfolded if_not_P [OF not_not [THEN iffD2, OF permitted]]]
    show ?thesis
    proof (cases "?v = VALIDATION_OK")
      case False
      then have reason: "reason = get_event_rejection_message lib (validator_result_to_relay_error ?v)"
        using ref permitted by (simp add: refusal_def Let_def)
      have "handle_event lib env fd ev (st, ?m) = (validator_result_to_relay_error ?v, (st, ?m))"
        using False p(7,9) by (simp add: handle_event_def Let_def event_config_def relay_defaults_def)
      with d False relay_error_ok reason
      have "st' = snd (router_send_ok lib env fd (lib_event_get_id_hex lib ev) False reason st)" "r' = ?m" by simp_all
      then show ?thesis by simp
    next
      case True
      let ?res = "save_result lib (re_store env (store_tick r)) ev (g_storage r)"
      have bad: "\<not> lib_kind_is_ephemeral lib (ev_kind ev)" "?res \<notin> {STORAGE_OK, STORAGE_ERR_DUPLICATE}"
          and reason: "reason = lib_PREFIX_ERROR lib @ ''could not save event''"
        using ref permitted True by (auto simp: refusal_def Let_def split: if_splits)
      obtain e2 r2 where s: "relay_save lib env ev ?m = (e2, r2)" by force
      have acc: "accepts lib env (msg_tick r + 1) ev" using v True by simp
      note sm = save_of_metered [OF c lib acc nowrap s]
      have "handle_event lib env fd ev (st, ?m) = (NOSTR_RELAY_ERR_STORAGE, (st, r2))"
        using handle_event_accepts [of ?m lib env ev fd st] acc kind p(7-9) s sm(1) bad by auto
      with d reason have "st' = snd (router_send_ok lib env fd (lib_event_get_id_hex lib ev) False reason st)" "r' = r2"
        by simp_all
      with sm bad show ?thesis by simp
    qed
  qed
qed


text \<open>A clock 58 days after the note was written.\<close>

definition late_env :: relay_env where
  "late_env = demo_env\<lparr>re_now := (\<lambda>_. 5000000)\<rparr>"


section \<open>CLOSE and refused REQ\<close>

text \<open>
  Property C20. CLOSE ends exactly the named subscription of its own connection, is never limited
  in rate, changes nothing else, and is answered with CLOSED, with a reason when there was no such
  subscription.
\<close>

theorem close_ends_subscription:
  assumes "lib_ok lib" and "reachable lib env (st, r)" and "delivers req st"
    and "lib_client_msg_parse lib (rq_payload req) = Inr (Client_Close sid)" and "length sid \<le> 64" and "sends env"
    and "wire lib ROUTER_SEND_BUF_SIZE (Relay_Closed sid
      (if sm_view (g_sub_manager r) (rq_fd req, sid) = None then ''no such subscription'' else '''')) answ"
    and "ws_handler (on_ws_message lib env) req (st, r) = (e, (st', r'))"
  shows "outbox st' = outbox st @ [answer (rq_fd req) (rq_fd req) answ] \<and>
    sm_view (g_sub_manager r') = (sm_view (g_sub_manager r))((rq_fd req, sid) := None) \<and>
    g_storage r' = g_storage r \<and> g_rate_limiter r' = g_rate_limiter r"
proof -
  let ?fd = "rq_fd req" and ?r = "r\<lparr>msg_tick := msg_tick r + 1\<rparr>"
  note inv = reachable_inv [OF assms(1,2)]
  have c: "core_inv lib (open_fds (ws st)) r" using inv by (simp add: relay_inv_def)
  note p = core_parts [OF c]
  obtain st1 st2 where h: "outbox st1 = outbox st" "ws_httpd (ws st1)" "g_current_req st1 = Some ?fd"
      "on_ws_message lib env ?fd (rq_payload req) (st1, r) = (st2, r')" "outbox st' = outbox st2"
    using delivered [OF inv assms(3,8)] .
  obtain res mgr where rem: "sub_manager_remove lib (g_sub_manager r) ?fd sid = (res, mgr)" by force
  note rs = remove_step [OF p(1) rem]
  have parse: "router_parse lib (rq_payload req) = (NOSTR_RELAY_OK, ROUTER_MSG_CLOSE sid)"
    using assms(4,5) by (simp add: router_parse_def ROUTER_MAX_SUB_ID_def)
  have "handle_close lib ?fd sid ?r = (res, ?r\<lparr>g_sub_manager := mgr\<rparr>)"
    using p(8) rem by (simp add: handle_close_def)
  then have d: "r' = ?r\<lparr>g_sub_manager := mgr\<rparr>"
      "st2 = snd (router_send_closed lib env ?fd sid (if res = NOSTR_RELAY_OK then '''' else ''no such subscription'') st1)"
    using h(4) [unfolded message_parsed [OF assms(3) parse]] by (simp_all add: router_dispatch_def dispatch_close_def split: if_splits)
  have "(if res = NOSTR_RELAY_OK then '''' else ''no such subscription'') =
      (if sm_view (g_sub_manager r) (?fd, sid) = None then ''no such subscription'' else '''')"
    using rs by simp
  then have "outbox st2 = outbox st1 @ [answer ?fd ?fd answ]"
    using reply_good [OF assms(6) h(2) assms(7)] answer_frame [OF h(3)] by (simp add: d(2) router_send_closed_def)
  with h(1,5) rs show ?thesis by (simp add: d(1))
qed

theorem close_ends_subscription_witness:
  "\<exists>e st' r'. ws_handler (on_ws_message (demo_lib demo_notes) demo_env) (text_request 54 ''Cfeed'') demo_fed = (e, (st', r')) \<and>
     outbox st' = outbox (fst demo_fed) @ [Out_Frame 54 WS_TEXT ''CLOSED feed''] \<and> sm_view (g_sub_manager r') = Map.empty"
proof -
  let ?lib = "demo_lib demo_notes" and ?req = "text_request 54 ''Cfeed''"
  obtain st r where fed: "demo_fed = (st, r)" by force
  note s = demo_fed_parts [OF fed]
  obtain e st' r' where h: "ws_handler (on_ws_message ?lib demo_env) ?req (st, r) = (e, (st', r'))" by (metis prod.collapse)
  have del: "delivers ?req st" by (rule demo_delivers [OF reachable_core(5) [OF demo_lib_ok s(1)]]) simp_all
  have parse: "lib_client_msg_parse ?lib (rq_payload ?req) = Inr (Client_Close ''feed'')"
    by (simp add: demo_text demo_lib_def)
  have "outbox st' = outbox st @ [answer 54 54 (''CLOSED '' @ ''feed'')] \<and> sm_view (g_sub_manager r') = Map.empty"
    using close_ends_subscription [OF demo_lib_ok s(1) del parse _ demo_event_ok(4) demo_wires(4) h] s(3)
    by (simp add: demo_text fun_eq_iff)
  with h show ?thesis unfolding fed by (simp add: answer_def)
qed

text \<open>Why a REQ is refused, if it is, allocations aside.\<close>

definition req_refusal :: "relay_env \<Rightarrow> int \<Rightarrow> string \<Rightarrow> nostr_filter list \<Rightarrow> relay_core \<Rightarrow> string option" where
  "req_refusal env fd sid fs r =
     (if \<not> permits env fd RATE_TYPE_REQ r then Some ''rate-limited:''
      else if sid = [] then Some ''error: invalid subscription id''
      else if 4 < length fs then Some ''error: too many filters''
      else if sm_view (g_sub_manager r) (fd, sid) = None \<and> 8 \<le> unat (sub_manager_count (g_sub_manager r) fd)
      then Some ''error: too many subscriptions'' else None)"



end
