(* ===== verification/Erasure.thy ===== *)
theory Erasure
  imports Message_Props
begin

text \<open>A deletion request on its way through the whole relay.\<close>

lemma handle_event_deletes:
  assumes "ctx_config r = relay_defaults" and "ctx_storage r" and "accepts lib env (msg_tick r) ev"
    and "ev_kind ev = NOSTR_KIND_DELETION" and "\<not> lib_kind_is_ephemeral lib (ev_kind ev)"
  shows "handle_event lib env fd ev (st, r) =
    (case relay_save lib env ev (relay_deletion lib env ev r) of
       (e, r') \<Rightarrow> if e = STORAGE_OK \<or> e = STORAGE_ERR_DUPLICATE
         then (NOSTR_RELAY_OK, broadcaster_fanout lib env ev (st, r'))
         else (NOSTR_RELAY_ERR_STORAGE, (st, r')))"
proof -
  have "validator_check_event lib (re_now_lib env (msg_tick r)) (re_now env (msg_tick r)) ev event_config (ctx_storage r) = VALIDATION_OK"
    using assms(3) by (simp add: check_ok_iff accepts_def)
  moreover have "ctx_storage (relay_deletion lib env ev r)" using assms(2) by (simp add: relay_deletion_def split: prod.split)
  ultimately show ?thesis using assms
    by (auto simp: handle_event_def Let_def event_config_def relay_defaults_def split: prod.split)
qed

lemma deletion_keeps_rest:
  assumes "relay_save lib env ev (relay_deletion lib env ev r) = (e, r')"
  shows "g_sub_manager r' = g_sub_manager r" and "ctx_sub_manager r' = ctx_sub_manager r"
  using assms by (auto simp: relay_save_def relay_deletion_def split: prod.splits)

lemma deletion_effect:
  assumes lib: "lib_ok lib" and inv: "store_inv lib (g_storage r)" and nowrap: "next_file_index (eng (g_storage r)) \<noteq> -1"
    and acc: "accepts lib env n ev" and kind: "ev_kind ev = NOSTR_KIND_DELETION"
    and req: "lib_deletion_parse lib ev = Some request"
    and save: "relay_save lib env ev (relay_deletion lib env ev r) = (e, r')"
  shows "\<exists>K new. stored lib (g_storage r') = filter K (stored lib (g_storage r)) @ new \<and>
    (new = [] \<and> e \<noteq> STORAGE_OK \<or> (\<exists>x. new = [(x, Some ev)] \<and> describes x ev) \<and> e = STORAGE_OK) \<and>
    (\<forall>x \<in> set (stored lib (g_storage r)). \<not> K x \<longrightarrow> x \<in> authored (ev_pubkey ev) \<or> (\<exists>i. expired (now_of (re_store env i)) (fst x))) \<and>
    ((\<forall>i p. env_read (re_store env i) p) \<longrightarrow>
      (\<forall>s \<in> set (dr_event_ids request). \<forall>x t. (x, Some t) \<in> set (stored lib (g_storage r)) \<longrightarrow>
        lib_hex_to_bytes lib s 64 32 = Some (ie_event_id x) \<longrightarrow> ev_pubkey t = ev_pubkey ev \<longrightarrow> \<not> K (x, Some t)))"
proof -
  let ?c = "\<lparr>sc_store = g_storage r, sc_tick = store_tick r, sc_heap = alloc r\<rparr>" and ?r = "relay_deletion lib env ev r"
  obtain k c where d: "deletion_process lib (re_store env) ev ?c = (k, c)" by force
  have contract: "deletion_contract lib" using lib by (simp add: lib_ok_def)
  have s: "shrinks lib (re_store env) (authored (ev_pubkey ev)) ?c c"
    using deletion_step [OF contract _ d] inv by simp
  have st: "g_storage ?r = sc_store c" using d by (simp add: relay_deletion_def)
  have inv1: "store_inv lib (g_storage ?r)" using shrinks_inv [OF s] st by simp
  have next1: "next_file_index (eng (g_storage ?r)) \<noteq> -1"
    using calls_next_file [OF deletion_calls [of lib "re_store env" ?c ev]] d nowrap st by simp
  obtain s' where sv: "storage_save_event lib (re_store env (store_tick ?r)) ev (g_storage ?r) = (e, s')"
    and r': "r' = ?r\<lparr>g_storage := s', store_tick := store_tick ?r + 1\<rparr>"
    using save by (auto simp: relay_save_def split: prod.splits)
  have ev: "length (ev_id ev) = 32" "codec_ok lib ev" using lib acc by (auto simp: lib_ok_def accepts_def acceptable_def)
  define new where "new = (if e = STORAGE_OK then [(entry_for lib (re_store env (store_tick ?r)) (eng (g_storage ?r)) ev
      (idx (eng (g_storage ?r)) ! unat (index_count (eng (g_storage ?r)))), Some ev)] else [])"
  have log: "stored lib (g_storage r') = stored lib (sc_store c) @ new"
    using save_step [OF _ _ _ ev(2,1) next1 sv] inv1 by (simp add: r' new_def st store_inv_def)
  obtain K where K: "stored lib (sc_store c) = filter K (stored lib (g_storage r))"
    "\<forall>x \<in> set (stored lib (g_storage r)). \<not> K x \<longrightarrow> x \<in> authored (ev_pubkey ev) \<or> (\<exists>i. expired (now_of (re_store env i)) (fst x))"
    using s unfolding shrinks_def reduces_def clocks_def by auto
  have "\<not> K (x, Some t)"
    if "\<forall>i p. env_read (re_store env i) p" "h \<in> set (dr_event_ids request)" "(x, Some t) \<in> set (stored lib (g_storage r))"
      "lib_hex_to_bytes lib h 64 32 = Some (ie_event_id x)" "ev_pubkey t = ev_pubkey ev" for h x t
  proof -
    have "ie_event_id x \<notin> log_id ` set (stored lib (sc_store c))"
      using deletion_removes_named [OF contract _ that(1) kind req that(2,4) _ refl that(5) d] inv that(3) by simp
    then show ?thesis using that(3) K(1) by (force simp: image_iff)
  qed
  moreover have "describes (fst (hd new)) ev" if "e = STORAGE_OK" using that by (simp add: new_def describes_def entry_for_def)
  moreover have "new = [] \<and> e \<noteq> STORAGE_OK \<or> (\<exists>x. new = [(x, Some ev)] \<and> describes x ev) \<and> e = STORAGE_OK"
    by (simp add: new_def describes_def entry_for_def)
  ultimately show ?thesis using log K by (intro exI [of _ K] exI [of _ new]) auto
qed


text \<open>The author of note 7 erases it over a second connection.\<close>

definition erase_text :: string where
  "erase_text = CHR ''E'' # demo_hex (ev_id demo_erase)"

lemma demo_erase_ok:
  "lib_client_msg_parse (demo_lib demo_notes) erase_text = Inr (Client_Event demo_erase)"
  "accepts (demo_lib demo_notes) demo_env n demo_erase" "ev_kind demo_erase = NOSTR_KIND_DELETION"
  "\<not> lib_kind_is_ephemeral (demo_lib demo_notes) (ev_kind demo_erase)" "length erase_text = 65"
  "lib_deletion_parse (demo_lib demo_notes) demo_erase =
     Some \<lparr>dr_pubkey = demo_hex (replicate 32 1), dr_event_ids = [demo_hex (replicate 32 7)], dr_addresses = []\<rparr>"
proof -
  have "replicate 32 (99 :: u8) \<noteq> replicate 32 7" "replicate 32 (99 :: u8) \<noteq> replicate 32 9" by simp_all
  then show "lib_client_msg_parse (demo_lib demo_notes) erase_text = Inr (Client_Event demo_erase)"
    by (simp add: demo_lib_def erase_text_def demo_notes_def demo_erase_def demo_note_def demo_hex_eq)
  show "accepts (demo_lib demo_notes) demo_env n demo_erase" "ev_kind demo_erase = NOSTR_KIND_DELETION"
    "\<not> lib_kind_is_ephemeral (demo_lib demo_notes) (ev_kind demo_erase)" "length erase_text = 65"
    by (simp_all add: accepts_def acceptable_def event_config_def demo_env_def demo_lib_def demo_notes_def demo_erase_def
        demo_note_def NOSTR_KIND_DELETION_def erase_text_def length_demo_hex word_le_nat_alt)
  show "lib_deletion_parse (demo_lib demo_notes) demo_erase =
     Some \<lparr>dr_pubkey = demo_hex (replicate 32 1), dr_event_ids = [demo_hex (replicate 32 7)], dr_addresses = []\<rparr>"
    by (simp add: demo_lib_def demo_erase_def demo_note_def demo_tag_values_def)
qed


end
