(* ===== verification/Frame_Queue.thy ===== *)
theory Frame_Queue
  imports Message_Props
begin

text \<open>
  The work queue between \<open>ws_server_send\<close> and \<open>ws_async_send\<close> (\<open>main/ws_server.c\<close>) in the running
  relay: frames for other connections wait there until the HTTP server runs the work items.
\<close>

section \<open>Order\<close>

text \<open>
  \<open>flows st st'\<close>: of the frames waiting in \<open>st\<close> and those queued since, some first ones have been
  sent, in their order, and the rest is waiting in \<open>st'\<close>.
\<close>

definition flows :: "ws_state \<Rightarrow> ws_state \<Rightarrow> bool" where
  "flows st st' \<longleftrightarrow>
     (\<exists>out. outbox st' = outbox st @ out \<and> ws_queue st @ queued_frames out = async_frames out @ ws_queue st')"

lemma flows_same: "outbox st' = outbox st \<Longrightarrow> ws_queue st' = ws_queue st \<Longrightarrow> flows st st'"
  by (simp add: flows_def)

lemma flows_trans:
  assumes "flows st st'" and "flows st' st''"
  shows "flows st st''"
proof -
  obtain a where a: "outbox st' = outbox st @ a" "ws_queue st @ queued_frames a = async_frames a @ ws_queue st'"
    using assms(1) by (auto simp: flows_def)
  obtain b where b: "outbox st'' = outbox st' @ b" "ws_queue st' @ queued_frames b = async_frames b @ ws_queue st''"
    using assms(2) by (auto simp: flows_def)
  have "ws_queue st @ queued_frames (a @ b) = async_frames (a @ b) @ ws_queue st''"
    using a(2) b(2) by simp (metis append.assoc)
  with a(1) b(1) show ?thesis unfolding flows_def by (metis append.assoc)
qed

lemma flows_talks: "talks fds st st' \<Longrightarrow> flows st st'"
  unfolding talks_def flows_def by fastforce

lemma flows_work: "flows st (ws_async_send st)"
  by (cases "ws_queue st") (auto simp: flows_def ws_async_send_def emit_def)

lemma flows_emit: "queued_frames [x] = [] \<Longrightarrow> async_frames [x] = [] \<Longrightarrow> flows st (emit x st)"
  by (simp add: flows_def emit_def)

lemma flows_open: "on_open us peer fd st = (e, st') \<Longrightarrow> flows st st'"
  by (rule flows_same) (auto simp: on_open_def Let_def set_connection_def split: if_splits option.splits)

lemma flows_close: "on_close dis fd (st, r) = (st', r') \<Longrightarrow> flows st st'"
  by (rule flows_same) (auto simp: on_close_def Let_def set_connection_def split: if_splits option.splits)

lemma flows_quiet:
  assumes "\<not> delivers req st" and "g_message_callback st"
  shows "flows st (fst (snd (ws_handler on_message req (st, r))))"
proof -
  let ?st1 = "(if g_server st then st\<lparr>ws := update_connection_activity (rq_time req) (rq_fd req) (ws st)\<rparr> else st)"
  have a: "flows st ?st1" by (rule flows_same) simp_all
  have "flows st (emit x st1)" if "flows st st1" "queued_frames [x] = []" "async_frames [x] = []" for x st1
    using flows_trans [OF that(1) flows_emit [OF that(2,3)]] .
  then show ?thesis
    using handler_quiet_states [OF assms, of on_message r] a flows_same [of st st]
    unfolding Let_def nip11_handler_def by auto
qed

lemma flows_request:
  assumes lib: "lib_ok lib" and inv: "relay_inv lib (st, r)" and fd: "rq_fd req \<in> open_fds (ws st)"
    and nowrap: "next_file_index (eng (g_storage r)) \<noteq> -1"
    and h: "ws_handler (on_ws_message lib env) req (st, r) = (e, (st', r'))"
  shows "flows st st'"
proof (cases "delivers req st")
  case False
  from flows_quiet [OF this, of "on_ws_message lib env" r] inv h show ?thesis by (simp add: relay_inv_def)
next
  case True
  let ?st1 = "(if g_server st then st\<lparr>ws := update_connection_activity (rq_time req) (rq_fd req) (ws st)\<rparr> else st)
      \<lparr>g_current_req := Some (rq_fd req)\<rparr>"
  obtain st2 where m: "on_ws_message lib env (rq_fd req) (rq_payload req) (?st1, r) = (st2, r')"
    and st': "st' = st2\<lparr>g_current_req := None\<rparr>"
    using h handler_delivers [OF True, of "on_ws_message lib env" r] by (auto simp: Let_def split: prod.splits)
  have core: "core_inv lib (open_fds (ws st)) r" using inv by (simp add: relay_inv_def)
  have "flows st ?st1" by (rule flows_same) simp_all
  moreover have "flows ?st1 st2" using message_step [OF lib core fd nowrap m] flows_talks by blast
  moreover have "flows st2 st'" unfolding st' by (rule flows_same) simp_all
  ultimately show ?thesis using flows_trans by blast
qed

lemma flows_step:
  assumes "lib_ok lib" and "relay_step lib env (st, r) (st', r')" and "relay_inv lib (st, r)"
  shows "flows st st'"
  using assms(2)
proof (cases rule: relay_step.cases)
  case (step_request req e)
  then show ?thesis using flows_request [OF assms(1,3)] by blast
qed (use flows_open flows_close flows_work flows_same [of st st] in auto)

lemma flows_run:
  assumes lib: "lib_ok lib" and "(relay_step lib env)\<^sup>*\<^sup>* (st, r) (st', r')" and "reachable lib env (st, r)"
  shows "flows st st'"
proof -
  have "reachable lib env rel \<and> flows st (fst rel)" if "(relay_step lib env)\<^sup>*\<^sup>* (st, r) rel" for rel
    using that
  proof (induction rule: rtranclp_induct)
    case base then show ?case using assms(3) flows_same [of st st] by simp
  next
    case (step y z)
    have "flows (fst y) (fst z)" using flows_step [OF lib, of env "fst y" "snd y" "fst z" "snd z"]
        step reachable_inv [OF lib, of env y] by simp
    then show ?case using step reach_step flows_trans by blast
  qed
  from this [OF assms(2)] show ?thesis by simp
qed

lemma flows_queue:
  "flows st st' \<Longrightarrow> outbox st' = outbox st @ out \<Longrightarrow> ws_queue st @ queued_frames out = async_frames out @ ws_queue st'"
  by (auto simp: flows_def)

section \<open>The queue drains\<close>

lemma work_drains:
  "ws_queue ((ws_async_send ^^ length (ws_queue st)) st) = [] \<and>
   outbox ((ws_async_send ^^ length (ws_queue st)) st) = outbox st @ map (\<lambda>(fd, s). Out_Async fd s) (ws_queue st)"
proof (induction "ws_queue st" arbitrary: st)
  case Nil then show ?case by (metis append_Nil2 funpow_0 list.map(1) list.size(3))
next
  case (Cons x q)
  obtain fd s where x: "x = (fd, s)" by force
  have "ws_queue (ws_async_send st) = q" "outbox (ws_async_send st) = outbox st @ [Out_Async fd s]"
    using Cons.hyps(2) [symmetric] by (simp_all add: x ws_async_send_def emit_def)
  with Cons.hyps(1) [of "ws_async_send st"] show ?case
    by (simp add: funpow_Suc_right x flip: Cons.hyps(2) del: funpow.simps)
qed

lemma work_runs: "(relay_step lib env)\<^sup>*\<^sup>* (st, r) ((ws_async_send ^^ n) st, r)"
proof (induction n)
  case (Suc n)
  then show ?case by (auto intro: rtranclp.rtrancl_into_rtrancl step_work)
qed simp

section \<open>Properties\<close>

text \<open>
  Property C21. Queued frames are sent in the order they were queued, each exactly once: over any
  run, what the work items have sent since is the beginning of what was waiting followed by what
  was queued since, and the rest is still waiting; and running the work items empties the queue.
  (A frame for the connection whose request is being handled does not pass through the queue and
  may overtake one that waits.)
\<close>

theorem frames_in_order:
  assumes "lib_ok lib" and "reachable lib env (st, r)" and "(relay_step lib env)\<^sup>*\<^sup>* (st, r) (st', r')"
  shows "\<exists>out. outbox st' = outbox st @ out \<and> ws_queue st @ queued_frames out = async_frames out @ ws_queue st' \<and>
    (let st2 = (ws_async_send ^^ length (ws_queue st')) st' in
      (relay_step lib env)\<^sup>*\<^sup>* (st', r') (st2, r') \<and> ws_queue st2 = [] \<and>
      outbox st2 = outbox st' @ map (\<lambda>(fd, s). Out_Async fd s) (ws_queue st'))"
  using flows_run [OF assms(1,3,2)] work_drains [of st'] work_runs [of lib env st' r' "length (ws_queue st')"]
  by (auto simp: flows_def Let_def)


section \<open>A stale frame in the demonstration relay\<close>

lemma demo_queue: "ws_queue (fst demo_one) = []" "ws_queue (fst demo_fed) = []"
proof -
  obtain st r where up: "demo_up = (st, r)" by force
  have "ws_queue st = []"
    using up by (auto simp: demo_up_def start_relay_server_def Let_def ws_server_init_def off_ws_def demo_boot_def
        ws_server_is_running_def ws_server_set_disconnect_cb_def split: if_splits prod.splits)
  moreover obtain e st1 where o: "on_open 0 None 54 st = (e, st1)" by force
  have "ws_queue st1 = ws_queue st"
    using o by (auto simp: on_open_def Let_def set_connection_def split: if_splits option.splits)
  ultimately show q: "ws_queue (fst demo_one) = []" by (simp add: demo_one_def up o)
  obtain st0 r0 where one: "demo_one = (st0, r0)" by force
  obtain st2 r2 where fed: "demo_fed = (st2, r2)" by force
  note p = demo_one_parts [OF one] and f = demo_fed_parts [OF fed]
  obtain e2 where h: "ws_handler (on_ws_message (demo_lib demo_notes) demo_env) (text_request 54 ''Rfeed'') (st0, r0) = (e2, (st2, r2))"
    using fed one by (metis demo_fed_def handled_def prod.collapse)
  have "flows st0 st2"
    by (rule flows_request [OF demo_lib_ok reachable_inv [OF demo_lib_ok p(1)] _ _ h]) (use p(2,6) in \<open>simp_all add: demo_text\<close>)
  from flows_queue [OF this, of "[Out_Frame 54 WS_TEXT ''EOSE feed'']"] f(5) q show "ws_queue (fst demo_fed) = []"
    by (simp add: one fed)
qed

text \<open>
  The note published by the second connection waits for the first one, which closes and is
  replaced.
\<close>

lemma demo_waiting:
  obtains st r where "reachable (demo_lib demo_notes) demo_env (st, r)" and "54 \<in> open_fds (ws st)"
    and "ws_queue st = [(54, ''EVENT feed'')]"
proof -
  let ?lib = "demo_lib demo_notes"
  obtain st0 r st e st' r' where d: "demo_fed = (st0, r)" "on_open 0 None 55 st0 = (ESP_OK, st)"
    "ws_handler (on_ws_message ?lib demo_env) (text_request 55 (event_text 7)) (st, r) = (e, (st', r'))"
    "reachable ?lib demo_env (st, r)" "open_fds (ws st) = {54, 55}" "permits demo_env 55 RATE_TYPE_EVENT r"
    "delivers (text_request 55 (event_text 7)) st" "next_file_index (eng (g_storage r)) \<noteq> -1"
    "lib_client_msg_parse ?lib (rq_payload (text_request 55 (event_text 7))) = Inr (Client_Event (demo_note 7))"
    "\<forall>ks. distinct ks \<longrightarrow> set ks = subscribers ?lib r (demo_note 7) \<longrightarrow> ks = [(54, ''feed'')]"
    "save_result ?lib (re_store demo_env (store_tick r)) (demo_note 7) (g_storage r) = STORAGE_OK" "stored ?lib (g_storage r) = []"
    by (rule demo_publication)
  have fd: "rq_fd (text_request 55 (event_text 7)) \<in> open_fds (ws st)" using d(5) by (simp add: demo_text)
  note pub = event_effect [OF demo_lib_ok d(4) fd d(7,8,9) _ demo_event_ok(1,2) _ demo_event_ok(4) demo_wires(1,3) d(3)]
  obtain ks where "outbox st' = outbox st @ map (\<lambda>(fd, sid). answer 55 fd (''EVENT '' @ sid)) ks
        @ [answer 55 55 (''OK '' @ lib_event_get_id_hex ?lib (demo_note 7))]"
      "distinct ks" "set ks = subscribers ?lib r (demo_note 7)"
    using pub d(6,11) by (auto simp: demo_text)
  with d(10) [rule_format, OF this(2,3)] have out: "outbox st' = outbox st @ [Out_Queued 54 ''EVENT feed'',
      Out_Frame 55 WS_TEXT (''OK '' @ lib_event_get_id_hex ?lib (demo_note 7))]" by (simp add: answer_def)
  have "flows st st'" by (rule flows_request [OF demo_lib_ok reachable_inv [OF demo_lib_ok d(4)] fd d(8,3)])
  moreover have "ws_queue st = []"
    using demo_queue(2) [unfolded d(1) fst_conv] d(2) by (auto simp: on_open_def Let_def set_connection_def split: if_splits option.splits)
  ultimately have "ws_queue st' = [(54, ''EVENT feed'')]" using flows_queue [OF _ out] by simp
  moreover have "reachable ?lib demo_env (st', r')" by (rule reach_step [OF d(4) step_request [OF fd d(8,3)]])
  moreover have "open_fds (ws st') = {54, 55}"
    using request_step [OF demo_lib_ok reachable_inv [OF demo_lib_ok d(4)] fd d(8,3)] d(5) by simp
  ultimately show thesis using that by simp
qed

theorem frames_in_order_witness:
  "\<exists>st r. reachable (demo_lib demo_notes) demo_env (st, r) \<and> ws_queue st = [(54, ''EVENT feed'')] \<and>
     outbox (ws_async_send st) = outbox st @ [Out_Async 54 ''EVENT feed'']"
proof -
  obtain st r where w: "reachable (demo_lib demo_notes) demo_env (st, r)" "54 \<in> open_fds (ws st)" "ws_queue st = [(54, ''EVENT feed'')]"
    by (rule demo_waiting)
  from frames_in_order [OF demo_lib_ok w(1), of st r] w show ?thesis by (auto simp: Let_def)
qed


end
