(* ===== verification/Device_Support.thy ===== *)
theory Device_Support
  imports Nostr_Interface Complex_Main
begin

text \<open>
  Two helpers beside the relay: the usage of the flash file system (\<open>main/flash_monitor.c\<close>), which
  computes in single-precision floating point, and the random source of the signature library
  (\<open>components/secp256k1-frost/esp_random_adapter.c\<close>).
\<close>

section \<open>Single precision\<close>

text \<open>
  A finite \<open>float\<close> is the rational number it denotes; conversion, division and multiplication round
  the exact result to the nearest of 24 significant bits, ties to even.  The exponent is the
  largest of -126 to 127 whose power of two does not exceed the number, or -126 for a subnormal
  one; numbers from \<open>2 ^ 128\<close>, which would be infinite, do not occur here.
\<close>

definition round_half_even :: "rat \<Rightarrow> int" where
  "round_half_even x =
     (let n = \<lfloor>x\<rfloor>; d = x - of_int n in if d < 1 / 2 \<or> (d = 1 / 2 \<and> even n) then n else n + 1)"

definition float_exp :: "rat \<Rightarrow> int" where
  "float_exp x = (case find (\<lambda>e. 2 powi e \<le> x) (rev [-126 .. 127]) of Some e \<Rightarrow> e | None \<Rightarrow> -126)"

definition to_float :: "rat \<Rightarrow> rat" where
  "to_float x = (let e = float_exp x in of_int (round_half_even (x * 2 powi (23 - e))) * 2 powi (e - 23))"

section \<open>The flash monitor\<close>

text \<open>\<open>size_t\<close> has 32 bits on the ESP32.\<close>

record flash_health =
  fh_total_bytes :: u32
  fh_used_bytes :: u32
  fh_free_bytes :: u32
  fh_usage_percent :: rat

text \<open>What \<open>esp_littlefs_info\<close> returns, and what it writes through its two pointers if it does.\<close>

record lfs_info =
  li_ret :: esp_err
  li_total :: "u32 option"
  li_used :: "u32 option"

definition flash_get_health :: "lfs_info \<Rightarrow> flash_health" where
  "flash_get_health info =
     (let h = \<lparr>fh_total_bytes = 0, fh_used_bytes = 0, fh_free_bytes = 0, fh_usage_percent = 0\<rparr>;
          h = (case li_total info of None \<Rightarrow> h | Some n \<Rightarrow> h\<lparr>fh_total_bytes := n\<rparr>);
          h = (case li_used info of None \<Rightarrow> h | Some n \<Rightarrow> h\<lparr>fh_used_bytes := n\<rparr>)
      in if li_ret info \<noteq> ESP_OK then h
         else if fh_total_bytes h = 0 then h\<lparr>fh_free_bytes := 0, fh_usage_percent := 0\<rparr>
         else
           let h = h\<lparr>fh_free_bytes := fh_total_bytes h - fh_used_bytes h\<rparr>;
               used = to_float (of_nat (unat (fh_used_bytes h)));
               total = to_float (of_nat (unat (fh_total_bytes h)))
           in h\<lparr>fh_usage_percent := to_float (to_float (used / total) * 100)\<rparr>)"

section \<open>The random source\<close>

text \<open>
  \<open>rnd n\<close> are the \<open>n\<close> bytes \<open>esp_fill_random\<close> writes; the buffer is the memory behind the pointer,
  none for a null pointer.
\<close>

definition fill_random :: "(nat \<Rightarrow> u8 list) \<Rightarrow> u8 list option \<Rightarrow> nat \<Rightarrow> int \<times> u8 list option" where
  "fill_random rnd buf len =
     (if buf = None \<or> len = 0 then (0, buf)
      else (1, map_option (\<lambda>bs. rnd len @ drop len bs) buf))"

section \<open>Rounding\<close>

lemma round_half_even_near: "\<bar>of_int (round_half_even x) - x\<bar> \<le> 1 / 2"
proof -
  have "of_int \<lfloor>x\<rfloor> \<le> x" "x < of_int \<lfloor>x\<rfloor> + 1" by linarith+
  then show ?thesis by (auto simp: round_half_even_def Let_def abs_le_iff)
qed

lemma round_half_even_int [simp]: "round_half_even (of_int n) = n"
  by (simp add: round_half_even_def)

lemma round_half_even_mono:
  assumes "x \<le> y"
  shows "round_half_even x \<le> round_half_even y"
proof (cases "\<lfloor>x\<rfloor> = \<lfloor>y\<rfloor>")
  case True
  then show ?thesis using assms by (auto simp: round_half_even_def Let_def)
next
  case False
  then have "\<lfloor>x\<rfloor> + 1 \<le> \<lfloor>y\<rfloor>" using floor_mono [OF assms] by linarith
  moreover have "round_half_even x \<le> \<lfloor>x\<rfloor> + 1" "\<lfloor>y\<rfloor> \<le> round_half_even y" by (simp_all add: round_half_even_def Let_def)
  ultimately show ?thesis by linarith
qed

lemma powi_mono: "i \<le> j \<Longrightarrow> (2 :: rat) powi i \<le> 2 powi j"
  by (rule power_int_increasing) simp_all

lemma powi_less_iff: "(2 :: rat) powi i < 2 powi j \<longleftrightarrow> i < j"
  using powi_mono [of j i] power_int_strict_increasing [of i j "2 :: rat"] by (cases "i < j") auto

text \<open>The exponent of a number in range.\<close>

lemma find_rev_upto:
  assumes "lo \<le> e" "e \<le> hi" "P e" "\<And>j. e < j \<Longrightarrow> j \<le> hi \<Longrightarrow> \<not> P j"
  shows "find P (rev [lo .. hi]) = Some e"
  using assms
proof (induction "nat (hi - e)" arbitrary: hi)
  case 0
  then have "hi = e" by simp
  with 0 show ?case by (simp add: upto_rec2)
next
  case (Suc n)
  then have "e < hi" "find P (rev [lo .. hi - 1]) = Some e" by (simp_all add: Suc.hyps(1))
  moreover have "\<not> P hi" using Suc.prems(4) [of hi] \<open>e < hi\<close> by simp
  ultimately show ?case using Suc.prems(1) by (simp add: upto_rec2)
qed

lemma float_exp_eq:
  assumes "-126 \<le> e" "e \<le> 127" "2 powi e \<le> x" "x < 2 powi (e + 1)"
  shows "float_exp x = e"
proof -
  have "\<not> 2 powi j \<le> x" if "e < j" for j
    using assms(4) powi_mono [of "e + 1" j] that by (meson leD le_less_trans less_le_trans not_le zless_imp_add1_zle)
  then have "find (\<lambda>e. 2 powi e \<le> x) (rev [-126 .. 127]) = Some e" by (intro find_rev_upto assms(1-3)) simp
  then show ?thesis by (simp add: float_exp_def)
qed

definition normal :: "rat \<Rightarrow> bool" where
  "normal x \<longleftrightarrow> 2 powi (-126) \<le> x \<and> x < 2 powi 128"

lemma normal_float:
  assumes "normal x"
  obtains e where "-126 \<le> e" "e \<le> 127" "2 powi e \<le> x" "x < 2 powi (e + 1)"
    "to_float x = of_int (round_half_even (x * 2 powi (23 - e))) * 2 powi (e - 23)"
proof -
  let ?E = "{e \<in> {-126 .. 127 :: int}. 2 powi e \<le> x}"
  have fin: "finite ?E" by (rule finite_subset [of _ "{-126 .. 127}"]) auto
  have "-126 \<in> ?E" using assms by (simp add: normal_def)
  then have m: "Max ?E \<in> ?E" using Max_in [OF fin] by blast
  have "x < 2 powi (Max ?E + 1)"
  proof (cases "Max ?E = 127")
    case False
    then have "Max ?E + 1 \<notin> ?E" "Max ?E + 1 \<in> {-126 .. 127}" using Max_ge [OF fin, of "Max ?E + 1"] m by auto
    then show ?thesis by auto
  qed (use assms in \<open>simp add: normal_def\<close>)
  moreover from this have "float_exp x = Max ?E" using m by (intro float_exp_eq) simp_all
  ultimately show ?thesis using m by (intro that [of "Max ?E"]) (simp_all add: to_float_def Let_def)
qed

lemma scaled_back: "(2 :: rat) powi (23 - e) * 2 powi (e - 23) = 1"
  by (simp flip: power_int_add)

lemma to_float_near:
  assumes "normal x"
  shows "\<bar>to_float x - x\<bar> \<le> x / 2 ^ 24"
proof -
  from assms obtain e where e: "2 powi e \<le> x"
    "to_float x = of_int (round_half_even (x * 2 powi (23 - e))) * 2 powi (e - 23)" by (rule normal_float)
  let ?y = "x * 2 powi (23 - e)"
  have "to_float x - x = (of_int (round_half_even ?y) - ?y) * 2 powi (e - 23)"
    using scaled_back [of e] by (simp add: e(2) left_diff_distrib mult.assoc)
  then have "\<bar>to_float x - x\<bar> = \<bar>of_int (round_half_even ?y) - ?y\<bar> * 2 powi (e - 23)"
    by (simp add: abs_mult)
  also have "\<dots> \<le> 1 / 2 * 2 powi (e - 23)" by (rule mult_right_mono [OF round_half_even_near]) simp
  also have "\<dots> = 2 powi e / 2 ^ 24" by (simp add: power_int_diff)
  also have "\<dots> \<le> x / 2 ^ 24" using e(1) by (simp add: divide_right_mono)
  finally show ?thesis .
qed

lemma to_float_bracket:
  assumes "2 powi e \<le> x" "x < 2 powi (e + 1)"
  shows "(2 :: rat) powi e \<le> of_int (round_half_even (x * 2 powi (23 - e))) * 2 powi (e - 23)"
    and "of_int (round_half_even (x * 2 powi (23 - e))) * 2 powi (e - 23) \<le> (2 :: rat) powi (e + 1)"
proof -
  have p: "(2 :: rat) powi (e + k) * 2 powi (23 - e) = 2 powi (23 + k)" for k by (simp add: add.commute flip: power_int_add)
  have "2 powi e * 2 powi (23 - e) \<le> x * 2 powi (23 - e)" by (rule mult_right_mono [OF assms(1)]) simp
  then have "of_int (2 ^ 23) \<le> x * 2 powi (23 - e)" unfolding p [of 0, simplified] by simp
  from round_half_even_mono [OF this] have l: "2 ^ 23 \<le> round_half_even (x * 2 powi (23 - e))"
    unfolding round_half_even_int .
  have "x * 2 powi (23 - e) \<le> 2 powi (e + 1) * 2 powi (23 - e)" by (rule mult_right_mono [OF less_imp_le [OF assms(2)]]) simp
  then have "x * 2 powi (23 - e) \<le> of_int (2 ^ 24)" unfolding p [of 1] by simp
  from round_half_even_mono [OF this] have u: "round_half_even (x * 2 powi (23 - e)) \<le> 2 ^ 24"
    unfolding round_half_even_int .
  let ?n = "round_half_even (x * 2 powi (23 - e))"
  have q: "(2 :: rat) powi (23 + k) * 2 powi (e - 23) = 2 powi (e + k)" for k by (simp add: add.commute flip: power_int_add)
  have "of_int (2 ^ 23) \<le> (of_int ?n :: rat)" using l by (simp only: of_int_le_iff)
  then have "2 powi 23 * 2 powi (e - 23) \<le> (of_int ?n :: rat) * 2 powi (e - 23)" by (intro mult_right_mono) simp_all
  then show "(2 :: rat) powi e \<le> of_int ?n * 2 powi (e - 23)" using q [of 0] by (simp only: add_0_right)
  have "(of_int ?n :: rat) \<le> of_int (2 ^ 24)" using u by (simp only: of_int_le_iff)
  then have "(of_int ?n :: rat) * 2 powi (e - 23) \<le> 2 powi (23 + 1) * 2 powi (e - 23)" by (intro mult_right_mono) simp_all
  then show "of_int ?n * 2 powi (e - 23) \<le> (2 :: rat) powi (e + 1)" unfolding q .
qed

lemma to_float_mono:
  assumes "normal x" "normal y" "x \<le> y"
  shows "to_float x \<le> to_float y"
proof -
  from assms(1) obtain e where e: "2 powi e \<le> x" "x < 2 powi (e + 1)"
    "to_float x = of_int (round_half_even (x * 2 powi (23 - e))) * 2 powi (e - 23)" by (rule normal_float)
  from assms(2) obtain f where f: "2 powi f \<le> y" "y < 2 powi (f + 1)"
    "to_float y = of_int (round_half_even (y * 2 powi (23 - f))) * 2 powi (f - 23)" by (rule normal_float)
  have "(2 :: rat) powi e < 2 powi (f + 1)" using e(1) assms(3) f(2) by linarith
  then have "e \<le> f" by (simp add: powi_less_iff)
  show ?thesis
  proof (cases "e = f")
    case True
    have "round_half_even (x * 2 powi (23 - f)) \<le> round_half_even (y * 2 powi (23 - f))"
      by (rule round_half_even_mono) (simp add: assms(3))
    then show ?thesis using e(3) f(3) True by simp
  next
    case False
    then have "(2 :: rat) powi (e + 1) \<le> 2 powi f" using \<open>e \<le> f\<close> by (intro powi_mono) simp
    then show ?thesis using to_float_bracket(2) [OF e(1,2)] to_float_bracket(1) [OF f(1,2)] e(3) f(3) by linarith
  qed
qed

lemma to_float_one: "to_float 1 = 1" "to_float 100 = 100" "to_float 0 = 0"
proof -
  have "float_exp 1 = 0" "float_exp 100 = 6" by (rule float_exp_eq; simp)+
  moreover have "round_half_even (8388608 :: rat) = 8388608" "round_half_even (13107200 :: rat) = 13107200"
    "round_half_even 0 = 0"
    using round_half_even_int [of 8388608] round_half_even_int [of 13107200] round_half_even_int [of 0] by simp_all
  ultimately show "to_float 1 = 1" "to_float 100 = 100" "to_float 0 = 0"
    by (simp_all add: to_float_def Let_def power_int_minus)
qed

text \<open>A size is in range, and rounding has a relative error of at most \<open>2 ^ -24\<close>.\<close>

lemma size_range:
  assumes "0 < n" and "n < 2 ^ 32"
  shows "1 \<le> (of_nat n :: rat)" and "(of_nat n :: rat) < 2 ^ 32" and "normal (of_nat n)"
proof -
  have "(of_nat 1 :: rat) \<le> of_nat n" using assms(1) by (simp only: of_nat_le_iff)
  then show l: "1 \<le> (of_nat n :: rat)" by simp
  have "(of_nat n :: rat) < of_nat (2 ^ 32)" using assms(2) by (simp only: of_nat_less_iff)
  then show u: "(of_nat n :: rat) < 2 ^ 32" by simp
  have "(2 :: rat) powi -126 \<le> 1" by (simp add: power_int_minus)
  moreover have "(2 :: rat) ^ 32 \<le> 2 powi 128" by simp
  ultimately show "normal (of_nat n)" using l u unfolding normal_def by linarith
qed

lemma quotient_near:
  fixes U T a b :: rat
  assumes "1 \<le> U" "1 \<le> T" "\<bar>a - U\<bar> \<le> U / 2 ^ 24" "\<bar>b - T\<bar> \<le> T / 2 ^ 24"
  shows "0 < a" "0 < b" "a / b \<le> (U / T) * (1 + 3 / 2 ^ 24)" "(U / T) * (1 - 3 / 2 ^ 24) \<le> a / b"
proof -
  have a: "U * (1 - 1 / 2 ^ 24) \<le> a" "a \<le> U * (1 + 1 / 2 ^ 24)" using assms(3) [unfolded abs_le_iff] by (simp_all add: field_simps)
  have b: "T * (1 - 1 / 2 ^ 24) \<le> b" "b \<le> T * (1 + 1 / 2 ^ 24)" using assms(4) [unfolded abs_le_iff] by (simp_all add: field_simps)
  show pa: "0 < a" using a(1) assms(1) by (simp add: field_simps)
  show pb: "0 < b" using b(1) assms(2) by (simp add: field_simps)
  have r: "0 \<le> (U / T) * (1 + 3 / 2 ^ 24)" "0 \<le> (U / T) * (1 - 3 / 2 ^ 24)" using assms(1,2) by simp_all
  have "a \<le> U * (1 + 1 / 2 ^ 24)" by (rule a(2))
  also have "\<dots> \<le> (U / T) * (1 + 3 / 2 ^ 24) * (T * (1 - 1 / 2 ^ 24))" using assms(1,2) by (simp add: field_simps)
  also have "\<dots> \<le> (U / T) * (1 + 3 / 2 ^ 24) * b" by (rule mult_left_mono [OF b(1) r(1)])
  finally show "a / b \<le> (U / T) * (1 + 3 / 2 ^ 24)" using pb by (simp add: pos_divide_le_eq)
  have "(U / T) * (1 - 3 / 2 ^ 24) * b \<le> (U / T) * (1 - 3 / 2 ^ 24) * (T * (1 + 1 / 2 ^ 24))"
    by (rule mult_left_mono [OF b(2) r(2)])
  also have "\<dots> \<le> U * (1 - 1 / 2 ^ 24)" using assms(1,2) by (simp add: field_simps)
  also have "\<dots> \<le> a" by (rule a(1))
  finally show "(U / T) * (1 - 3 / 2 ^ 24) \<le> a / b" using pb by (simp add: pos_le_divide_eq)
qed

lemma usage_near:
  assumes "0 < u" and "u \<le> t" and "t < 2 ^ 32"
  defines "p \<equiv> to_float (to_float (to_float (of_nat u) / to_float (of_nat t)) * 100)"
  shows "0 \<le> p" and "p \<le> 100" and "\<bar>p - 100 * (of_nat u / of_nat t)\<bar> \<le> 1 / 10000" and "u = t \<Longrightarrow> p = 100"
proof -
  define U T :: rat where "U = of_nat u" and "T = of_nat t"
  note ur = size_range [of u, folded U_def] and tr = size_range [of t, folded T_def]
  have UT: "1 \<le> U" "1 \<le> T" "T < 2 ^ 32" "U \<le> T" "normal U" "normal T" using ur tr assms(1-3) by (simp_all add: U_def T_def)
  define a b where "a = to_float U" and "b = to_float T"
  have near: "\<bar>a - U\<bar> \<le> U / 2 ^ 24" "\<bar>b - T\<bar> \<le> T / 2 ^ 24" and ab: "a \<le> b"
    using to_float_near to_float_mono UT(4-6) by (simp_all add: a_def b_def)
  note ab_near = quotient_near [OF UT(1,2) near]
  define x where "x = U / T"
  have x: "1 / 2 ^ 32 \<le> x" "x \<le> 1" using UT by (simp_all add: x_def field_simps)
  define y where "y = a / b"
  have y: "y \<le> 1" "y \<le> x * (1 + 3 / 2 ^ 24)" "x * (1 - 3 / 2 ^ 24) \<le> y"
    using ab ab_near by (simp_all add: x_def y_def)
  have tiny: "(2 :: rat) powi -126 \<le> 1 / 2 ^ 40" by (simp add: power_int_minus)
  have huge: "(128 :: rat) < 2 powi 128" by simp
  have "1 / 2 ^ 40 \<le> y" using y(3) x(1) by simp
  then have ny: "normal y" using tiny huge y(1) unfolding normal_def by linarith
  have one: "normal 1" "normal 100" using tiny huge unfolding normal_def by (simp_all add: power_int_minus)
  define q where "q = to_float y"
  have q: "q \<le> 1" "\<bar>q - y\<bar> \<le> y / 2 ^ 24"
    using to_float_near [OF ny] to_float_mono [OF ny one(1) y(1)] by (simp_all add: q_def to_float_one)
  have q0: "1 / 2 ^ 41 \<le> q" using q(2) [unfolded abs_le_iff] \<open>1 / 2 ^ 40 \<le> y\<close> by simp
  have q100: "q * 100 \<le> 100" using q(1) by simp
  have nq: "normal (q * 100)" using tiny huge q0 q(1) unfolding normal_def by simp
  have p_def: "p = to_float (q * 100)" by (simp add: p_def q_def y_def a_def b_def U_def T_def)
  have p: "p \<le> 100" "\<bar>p - q * 100\<bar> \<le> q * 100 / 2 ^ 24"
    using to_float_near [OF nq] to_float_mono [OF nq one(2) q100] by (simp_all add: p_def to_float_one)
  show "p \<le> 100" by (rule p(1))
  show "0 \<le> p" using p(2) [unfolded abs_le_iff] q0 by simp
  have e1: "\<bar>p - q * 100\<bar> \<le> 100 / 2 ^ 24" using p(2) q(1) by simp
  have e2: "\<bar>q - y\<bar> \<le> 1 / 2 ^ 24" using q(2) y(1) by simp
  have e3: "\<bar>y - x\<bar> \<le> 3 / 2 ^ 24"
  proof -
    have "y - x \<le> x * (3 / 2 ^ 24)" "x - y \<le> x * (3 / 2 ^ 24)" using y(2,3) by (simp_all add: algebra_simps)
    moreover have "x * (3 / 2 ^ 24) \<le> 3 / 2 ^ 24" using x(2) by simp
    ultimately show ?thesis unfolding abs_le_iff by linarith
  qed
  have "\<bar>p - 100 * x\<bar> \<le> 500 / 2 ^ 24" using e1 e2 e3 unfolding abs_le_iff by simp
  then show "\<bar>p - 100 * (of_nat u / of_nat t)\<bar> \<le> 1 / 10000" by (simp add: x_def U_def T_def abs_le_iff)
  show "p = 100" if "u = t"
  proof -
    have "y = 1" using that ab_near(2) by (simp add: y_def a_def b_def U_def T_def)
    then show ?thesis by (simp add: p_def q_def to_float_one)
  qed
qed

section \<open>Properties\<close>

text \<open>
  Property C40. The flash monitor reports what the file system says: when the query fails nothing is
  claimed beyond what the call wrote, an empty partition is 0 percent used, and otherwise, with no
  more used than there is, the free bytes are the difference and the percentage - computed in
  single precision - lies between 0 and 100, is off by at most 1/10000 and is exact when the
  partition is unused or full.
\<close>

theorem flash_health_exact:
  assumes "flash_get_health info = h" and "li_total info = Some t" and "li_used info = Some u" and "u \<le> t"
  shows "fh_total_bytes h = t \<and> fh_used_bytes h = u \<and>
    (if li_ret info \<noteq> ESP_OK then fh_free_bytes h = 0 \<and> fh_usage_percent h = 0
     else unat (fh_free_bytes h) = unat t - unat u \<and> 0 \<le> fh_usage_percent h \<and> fh_usage_percent h \<le> 100 \<and>
       (u = 0 \<longrightarrow> fh_usage_percent h = 0) \<and>
       (t \<noteq> 0 \<longrightarrow> \<bar>fh_usage_percent h - 100 * (of_nat (unat u) / of_nat (unat t))\<bar> \<le> 1 / 10000) \<and>
       (t \<noteq> 0 \<and> u = t \<longrightarrow> fh_usage_percent h = 100))"
proof (cases "li_ret info = ESP_OK \<and> t \<noteq> 0 \<and> u \<noteq> 0")
  case True
  have ut: "0 < unat u" "unat u \<le> unat t" "unat t < 2 ^ 32"
    using True assms(4) unsigned_less [of t, where 'a = nat] by (simp_all add: unat_gt_0 word_le_nat_alt)
  note use = usage_near [OF ut]
  have "fh_usage_percent h = to_float (to_float (to_float (of_nat (unat u)) / to_float (of_nat (unat t))) * 100)"
      "fh_total_bytes h = t" "fh_used_bytes h = u" "fh_free_bytes h = t - u"
    using True assms(1-3) by (auto simp: flash_get_health_def Let_def)
  moreover have "unat (t - u) = unat t - unat u" using assms(4) by (rule unat_sub)
  ultimately show ?thesis using True use by simp
next
  case False
  then show ?thesis using assms to_float_one(3) unat_sub [OF assms(4)]
    by (auto simp: flash_get_health_def Let_def)
qed

theorem flash_health_exact_witness:
  "let h = flash_get_health \<lparr>li_ret = ESP_OK, li_total = Some 393216, li_used = Some 131072\<rparr> in
     fh_free_bytes h = 262144 \<and> \<bar>fh_usage_percent h - 100 / 3\<bar> \<le> 1 / 10000"
proof -
  let ?i = "\<lparr>li_ret = ESP_OK, li_total = Some 393216, li_used = Some (131072 :: u32)\<rparr>"
  have "fh_free_bytes (flash_get_health ?i) = 262144" by (simp add: flash_get_health_def Let_def)
  with flash_health_exact [of ?i "flash_get_health ?i" 393216 131072] show ?thesis by (simp add: Let_def)
qed

lemma fill_random_exact:
  "fill_random rnd buf len = (n, buf') \<Longrightarrow> (\<And>k. length (rnd k) = k) \<Longrightarrow>
   (n = 1 \<longleftrightarrow> buf \<noteq> None \<and> len \<noteq> 0) \<and> (n = 0 \<longrightarrow> buf' = buf) \<and>
   (n = 1 \<longrightarrow> len \<le> length (the buf) \<longrightarrow> length (the buf') = length (the buf) \<and> take len (the buf') = rnd len)"
  by (auto simp: fill_random_def split: if_splits)

end
