(* ===== verification/Sub_Memory.thy ===== *)
theory Sub_Memory
  imports Sub_Manager Dynamic_Memory
begin

text \<open>
  \<open>main/sub_manager.c\<close> at the level of pointers: the copies of the filters in allocated arrays,
  what happens to them when an allocation fails half way, and their release.  The operations
  are those of \<open>Sub_Manager\<close>, one level lower; an operation that uses or frees memory it may
  not has no result.
\<close>

section \<open>Filters in memory\<close>

text \<open>An entry of the array of tag filters (\<open>nostr_generic_tag_filter_t\<close>).\<close>

record tag_p =
  tp_name :: char
  tp_count :: nat
  tp_values :: "addr option"

text \<open>Of an array, its size and the part of it that is written.\<close>

datatype sub_cell =
    Str_Cell string
  | Strs_Cell nat "addr list"
  | Ints_Cell "int list"
  | Tags_Cell nat "tag_p list"

type_synonym sub_mem = "sub_cell mem"

text \<open>\<open>nostr_filter_t\<close> with its pointers.\<close>

record filter_p =
  p_ids :: "addr option"
  n_ids :: nat
  p_authors :: "addr option"
  n_authors :: nat
  p_kinds :: "addr option"
  n_kinds :: nat
  p_e_tags :: "addr option"
  n_e_tags :: nat
  p_p_tags :: "addr option"
  n_p_tags :: nat
  p_generic_tags :: "addr option"
  n_generic_tags :: nat
  p_since :: int
  p_until :: int
  p_limit :: int

definition zero_filter_p :: filter_p where
  "zero_filter_p = \<lparr>p_ids = None, n_ids = 0, p_authors = None, n_authors = 0, p_kinds = None,
     n_kinds = 0, p_e_tags = None, n_e_tags = 0, p_p_tags = None, n_p_tags = 0,
     p_generic_tags = None, n_generic_tags = 0, p_since = 0, p_until = 0, p_limit = 0\<rparr>"

text \<open>Reading the first \<open>n\<close> entries of an array; with none to read the pointer is not used.\<close>

definition read_ptrs :: "addr option \<Rightarrow> nat \<Rightarrow> sub_mem \<Rightarrow> addr list option" where
  "read_ptrs p n m =
     (if n = 0 then Some []
      else case p of
          None \<Rightarrow> None
        | Some a \<Rightarrow>
            (case cells m a of
               Some (Strs_Cell k ps) \<Rightarrow> if n \<le> length ps then Some (take n ps) else None
             | _ \<Rightarrow> None))"

definition read_tags :: "addr option \<Rightarrow> nat \<Rightarrow> sub_mem \<Rightarrow> tag_p list option" where
  "read_tags p n m =
     (if n = 0 then Some []
      else case p of
          None \<Rightarrow> None
        | Some a \<Rightarrow>
            (case cells m a of
               Some (Tags_Cell k ts) \<Rightarrow> if n \<le> length ts then Some (take n ts) else None
             | _ \<Rightarrow> None))"

definition read_ints :: "addr option \<Rightarrow> nat \<Rightarrow> sub_mem \<Rightarrow> int list option" where
  "read_ints p n m =
     (if n = 0 then Some []
      else case p of
          None \<Rightarrow> None
        | Some a \<Rightarrow>
            (case cells m a of
               Some (Ints_Cell xs) \<Rightarrow> if n \<le> length xs then Some (take n xs) else None
             | _ \<Rightarrow> None))"

definition read_str :: "sub_mem \<Rightarrow> addr \<Rightarrow> string option" where
  "read_str m a = (case cells m a of Some (Str_Cell s) \<Rightarrow> Some s | _ \<Rightarrow> None)"

definition read_strs :: "addr option \<Rightarrow> nat \<Rightarrow> sub_mem \<Rightarrow> string list option" where
  "read_strs p n m = do { ps \<leftarrow> read_ptrs p n m; those (map (read_str m) ps) }"

definition read_tag :: "sub_mem \<Rightarrow> tag_p \<Rightarrow> (char \<times> string list) option" where
  "read_tag m t = map_option (Pair (tp_name t)) (read_strs (tp_values t) (tp_count t) m)"

text \<open>What a function of the library that is given a filter reads.\<close>

definition read_filter_p :: "sub_mem \<Rightarrow> filter_p \<Rightarrow> nostr_filter option" where
  "read_filter_p m d = do {
     ids \<leftarrow> read_strs (p_ids d) (n_ids d) m;
     authors \<leftarrow> read_strs (p_authors d) (n_authors d) m;
     kinds \<leftarrow> read_ints (p_kinds d) (n_kinds d) m;
     es \<leftarrow> read_strs (p_e_tags d) (n_e_tags d) m;
     ps \<leftarrow> read_strs (p_p_tags d) (n_p_tags d) m;
     ts \<leftarrow> read_tags (p_generic_tags d) (n_generic_tags d) m;
     tags \<leftarrow> those (map (read_tag m) ts);
     Some \<lparr>f_ids = ids, f_authors = authors, f_kinds = kinds, f_e_tags = es, f_p_tags = ps,
           f_generic_tags = tags, f_since = p_since d, f_until = p_until d, f_limit = p_limit d\<rparr> }"

section \<open>Deep copies\<close>

text \<open>\<open>dst[i] = p\<close> for the next entry: nothing is written beyond the end of the array.\<close>

definition push_ptr :: "addr \<Rightarrow> addr \<Rightarrow> sub_mem \<Rightarrow> sub_mem option" where
  "push_ptr a p m =
     (case cells m a of
        Some (Strs_Cell k ps) \<Rightarrow> if length ps < k then mem_write a (Strs_Cell k (ps @ [p])) m else None
      | _ \<Rightarrow> None)"

definition push_tag :: "addr \<Rightarrow> tag_p \<Rightarrow> sub_mem \<Rightarrow> sub_mem option" where
  "push_tag a t m =
     (case cells m a of
        Some (Tags_Cell k ts) \<Rightarrow> if length ts < k then mem_write a (Tags_Cell k (ts @ [t])) m else None
      | _ \<Rightarrow> None)"

text \<open>The loop of \<open>copy_string_array\<close>; \<open>i\<close> entries of \<open>dst\<close> are written.\<close>

fun strdup_into ::
    "addr \<Rightarrow> nat \<Rightarrow> string list \<Rightarrow> heap \<Rightarrow> sub_mem \<Rightarrow> (addr option \<times> heap \<times> sub_mem) option" where
  "strdup_into dst i [] h m = Some (Some dst, h, m)"
| "strdup_into dst i (s # ss) h m =
     (case mem_alloc (Str_Cell s) h m of
        (None, h, m) \<Rightarrow> do {
          ps \<leftarrow> read_ptrs (Some dst) i m;
          m \<leftarrow> free_each ps m;
          m \<leftarrow> mem_free dst m;
          Some (None, h, m) }
      | (Some p, h, m) \<Rightarrow> do {
          m \<leftarrow> push_ptr dst p m;
          strdup_into dst (Suc i) ss h m })"

definition copy_string_array_p ::
    "string list \<Rightarrow> heap \<Rightarrow> sub_mem \<Rightarrow> (addr option \<times> heap \<times> sub_mem) option" where
  "copy_string_array_p src h m =
     (if src = [] then Some (None, h, m)
      else case mem_alloc (Strs_Cell (length src) []) h m of
          (None, h, m) \<Rightarrow> Some (None, h, m)
        | (Some dst, h, m) \<Rightarrow> strdup_into dst 0 src h m)"

definition copy_int_array_p ::
    "int list \<Rightarrow> heap \<Rightarrow> sub_mem \<Rightarrow> (addr option \<times> heap \<times> sub_mem) option" where
  "copy_int_array_p src h m =
     (if src = [] then Some (None, h, m) else Some (mem_alloc (Ints_Cell src) h m))"

text \<open>The strings of an entry, then their array.\<close>

definition free_values :: "tag_p \<Rightarrow> sub_mem \<Rightarrow> sub_mem option" where
  "free_values t m = do {
     ps \<leftarrow> read_ptrs (tp_values t) (tp_count t) m;
     m \<leftarrow> free_each ps m;
     free_ptr (tp_values t) m }"

fun free_tag_values :: "tag_p list \<Rightarrow> sub_mem \<Rightarrow> sub_mem option" where
  "free_tag_values [] m = Some m"
| "free_tag_values (t # ts) m = do { m \<leftarrow> free_values t m; free_tag_values ts m }"

text \<open>The loop of \<open>copy_generic_tags\<close>; the entry whose values could not be copied is not read.\<close>

fun copy_tags_into ::
    "addr \<Rightarrow> nat \<Rightarrow> (char \<times> string list) list \<Rightarrow> heap \<Rightarrow> sub_mem \<Rightarrow>
     (addr option \<times> heap \<times> sub_mem) option" where
  "copy_tags_into dst i [] h m = Some (Some dst, h, m)"
| "copy_tags_into dst i ((name, vals) # src) h m = do {
     (p, h, m) \<leftarrow> copy_string_array_p vals h m;
     m \<leftarrow> push_tag dst \<lparr>tp_name = name, tp_count = length vals, tp_values = p\<rparr> m;
     if vals \<noteq> [] \<and> p = None then do {
       ts \<leftarrow> read_tags (Some dst) i m;
       m \<leftarrow> free_tag_values ts m;
       m \<leftarrow> mem_free dst m;
       Some (None, h, m) }
     else copy_tags_into dst (Suc i) src h m }"

definition copy_generic_tags_p ::
    "(char \<times> string list) list \<Rightarrow> heap \<Rightarrow> sub_mem \<Rightarrow> (addr option \<times> heap \<times> sub_mem) option" where
  "copy_generic_tags_p src h m =
     (if src = [] then Some (None, h, m)
      else case mem_alloc (Tags_Cell (length src) []) h m of
          (None, h, m) \<Rightarrow> Some (None, h, m)
        | (Some dst, h, m) \<Rightarrow> copy_tags_into dst 0 src h m)"

text \<open>
  \<open>nostr_filter_free\<close> is the library's: the struct it leaves and the memory.  \<open>fail_copy\<close> is the
  end of \<open>filter_copy\<close> at the label \<open>fail\<close>.
\<close>

type_synonym filter_free = "filter_p \<Rightarrow> sub_mem \<Rightarrow> (filter_p \<times> sub_mem) option"

type_synonym copied = "(bool \<times> filter_p \<times> heap \<times> sub_mem) option"

definition fail_copy :: "filter_free \<Rightarrow> filter_p \<Rightarrow> heap \<Rightarrow> sub_mem \<Rightarrow> copied" where
  "fail_copy ff d h m = do { (d, m) \<leftarrow> ff d m; Some (False, d, h, m) }"

definition filter_copy_p :: "filter_free \<Rightarrow> nostr_filter \<Rightarrow> heap \<Rightarrow> sub_mem \<Rightarrow> copied" where
  "filter_copy_p ff src h m = do {
     let d = zero_filter_p\<lparr>n_ids := length (f_ids src)\<rparr>;
     (p, h, m) \<leftarrow> copy_string_array_p (f_ids src) h m;
     let d = d\<lparr>p_ids := p\<rparr>;
     if f_ids src \<noteq> [] \<and> p = None then fail_copy ff d h m else do {
     let d = d\<lparr>n_authors := length (f_authors src)\<rparr>;
     (p, h, m) \<leftarrow> copy_string_array_p (f_authors src) h m;
     let d = d\<lparr>p_authors := p\<rparr>;
     if f_authors src \<noteq> [] \<and> p = None then fail_copy ff d h m else do {
     let d = d\<lparr>n_kinds := length (f_kinds src)\<rparr>;
     (p, h, m) \<leftarrow> copy_int_array_p (f_kinds src) h m;
     let d = d\<lparr>p_kinds := p\<rparr>;
     if f_kinds src \<noteq> [] \<and> p = None then fail_copy ff d h m else do {
     let d = d\<lparr>n_e_tags := length (f_e_tags src)\<rparr>;
     (p, h, m) \<leftarrow> copy_string_array_p (f_e_tags src) h m;
     let d = d\<lparr>p_e_tags := p\<rparr>;
     if f_e_tags src \<noteq> [] \<and> p = None then fail_copy ff d h m else do {
     let d = d\<lparr>n_p_tags := length (f_p_tags src)\<rparr>;
     (p, h, m) \<leftarrow> copy_string_array_p (f_p_tags src) h m;
     let d = d\<lparr>p_p_tags := p\<rparr>;
     if f_p_tags src \<noteq> [] \<and> p = None then fail_copy ff d h m else do {
     let d = d\<lparr>n_generic_tags := length (f_generic_tags src)\<rparr>;
     (p, h, m) \<leftarrow> copy_generic_tags_p (f_generic_tags src) h m;
     let d = d\<lparr>p_generic_tags := p\<rparr>;
     if f_generic_tags src \<noteq> [] \<and> p = None then fail_copy ff d h m
     else Some (True, d\<lparr>p_since := f_since src, p_until := f_until src, p_limit := f_limit src\<rparr>, h, m)
     }}}}}}"

section \<open>Slots\<close>

record sub_p =
  sp_id :: string
  sp_fd :: int
  sp_filters :: "filter_p list"
  sp_count :: u8
  sp_sent :: u16
  sp_active :: bool

record sub_manager_p =
  smp_subs :: "sub_p list"
  smp_lock :: bool
  smp_active :: u16

definition zero_sub_p :: sub_p where
  "zero_sub_p = \<lparr>sp_id = [], sp_fd = 0, sp_filters = replicate SUB_MAX_FILTERS zero_filter_p,
     sp_count = 0, sp_sent = 0, sp_active = False\<rparr>"

text \<open>\<open>nostr_filter_free\<close> on the first \<open>n\<close> filters of a slot.\<close>

fun free_prefix ::
    "filter_free \<Rightarrow> nat \<Rightarrow> filter_p list \<Rightarrow> sub_mem \<Rightarrow> (filter_p list \<times> sub_mem) option" where
  "free_prefix ff 0 ds m = Some (ds, m)"
| "free_prefix ff (Suc n) [] m = None"
| "free_prefix ff (Suc n) (d # ds) m = do {
     (d, m) \<leftarrow> ff d m;
     (ds, m) \<leftarrow> free_prefix ff n ds m;
     Some (d # ds, m) }"

definition free_filters_p :: "filter_free \<Rightarrow> sub_p \<Rightarrow> sub_mem \<Rightarrow> (sub_p \<times> sub_mem) option" where
  "free_filters_p ff s m = do {
     (ds, m) \<leftarrow> free_prefix ff (unat (sp_count s)) (sp_filters s) m;
     Some (s\<lparr>sp_filters := ds, sp_count := 0\<rparr>, m) }"

definition clear_subscription_p :: "filter_free \<Rightarrow> sub_p \<Rightarrow> sub_mem \<Rightarrow> (sub_p \<times> sub_mem) option" where
  "clear_subscription_p ff s m = do { (s, m) \<leftarrow> free_filters_p ff s m; Some (zero_sub_p, m) }"

fun copy_filters_loop_p ::
    "filter_free \<Rightarrow> nat \<Rightarrow> nostr_filter list \<Rightarrow> filter_p list \<Rightarrow> heap \<Rightarrow> sub_mem \<Rightarrow>
     (bool \<times> filter_p list \<times> heap \<times> sub_mem) option" where
  "copy_filters_loop_p ff i [] dst h m = Some (True, dst, h, m)"
| "copy_filters_loop_p ff i (f # fs) dst h m =
     (if length dst \<le> i then None
      else do {
        (ok, d, h, m) \<leftarrow> filter_copy_p ff f h m;
        if ok then copy_filters_loop_p ff (Suc i) fs (dst[i := d]) h m
        else do {
          (dst, m) \<leftarrow> free_prefix ff i (dst[i := d]) m;
          Some (False, dst, h, m) } })"

definition copy_filters_to_slot_p ::
    "filter_free \<Rightarrow> sub_p \<Rightarrow> nostr_filter list \<Rightarrow> heap \<Rightarrow> sub_mem \<Rightarrow>
     (bool \<times> sub_p \<times> heap \<times> sub_mem) option" where
  "copy_filters_to_slot_p ff slot filters h m = do {
     (ok, dst, h, m) \<leftarrow> copy_filters_loop_p ff 0 filters (sp_filters slot) h m;
     Some (ok, if ok then slot\<lparr>sp_filters := dst, sp_count := of_nat (length filters)\<rparr>
               else slot\<lparr>sp_filters := dst\<rparr>, h, m) }"

section \<open>Operations\<close>

definition sub_manager_init_p :: "bool \<Rightarrow> bool \<times> sub_manager_p" where
  "sub_manager_init_p mutex_ok =
     (mutex_ok, \<lparr>smp_subs = replicate SUB_MAX_TOTAL zero_sub_p, smp_lock = mutex_ok, smp_active = 0\<rparr>)"

definition sub_manager_find_p :: "sub_manager_p \<Rightarrow> int \<Rightarrow> string \<Rightarrow> nat option" where
  "sub_manager_find_p mgr fd sid =
     find_slot (\<lambda>s. sp_active s \<and> sp_fd s = fd \<and> sp_id s = sid) (smp_subs mgr)"

definition conn_slots_p :: "sub_manager_p \<Rightarrow> int \<Rightarrow> nat" where
  "conn_slots_p mgr fd = count_slots (\<lambda>s. sp_active s \<and> sp_fd s = fd) (smp_subs mgr)"

definition set_slot_p :: "sub_manager_p \<Rightarrow> nat \<Rightarrow> sub_p \<Rightarrow> sub_manager_p" where
  "set_slot_p mgr i s = mgr\<lparr>smp_subs := (smp_subs mgr)[i := s]\<rparr>"

type_synonym 'a sub_result = "('a \<times> sub_manager_p \<times> heap \<times> sub_mem) option"

definition sub_manager_add_p ::
    "filter_free \<Rightarrow> sub_manager_p \<Rightarrow> int \<Rightarrow> string \<Rightarrow> nostr_filter list \<Rightarrow> heap \<Rightarrow> sub_mem \<Rightarrow>
     nostr_relay_error sub_result" where
  "sub_manager_add_p ff mgr fd sid filters h m =
     (let filters = (if SUB_MAX_FILTERS < length filters then take SUB_MAX_FILTERS filters
                     else filters) in
      case sub_manager_find_p mgr fd sid of
        Some i \<Rightarrow> do {
          (s, m) \<leftarrow> free_filters_p ff (smp_subs mgr ! i) m;
          (ok, s, h, m) \<leftarrow> copy_filters_to_slot_p ff (s\<lparr>sp_sent := 0\<rparr>) filters h m;
          Some (if ok then NOSTR_RELAY_OK else NOSTR_RELAY_ERR_MEMORY, set_slot_p mgr i s, h, m) }
      | None \<Rightarrow>
          if of_nat SUB_MAX_PER_CONN \<le> (of_nat (conn_slots_p mgr fd) :: u8)
          then Some (NOSTR_RELAY_ERR_TOO_MANY_FILTERS, mgr, h, m)
          else case find_slot (\<lambda>s. \<not> sp_active s) (smp_subs mgr) of
              None \<Rightarrow> Some (NOSTR_RELAY_ERR_MEMORY, mgr, h, m)
            | Some i \<Rightarrow> do {
                let s = zero_sub_p\<lparr>sp_id := strncpy_z sid SUB_MAX_ID_LEN, sp_fd := fd\<rparr>;
                (ok, s, h, m) \<leftarrow> copy_filters_to_slot_p ff s filters h m;
                if ok then
                  Some (NOSTR_RELAY_OK,
                    (set_slot_p mgr i (s\<lparr>sp_active := True\<rparr>))\<lparr>smp_active := smp_active mgr + 1\<rparr>, h, m)
                else do {
                  (s, m) \<leftarrow> clear_subscription_p ff s m;
                  Some (NOSTR_RELAY_ERR_MEMORY, set_slot_p mgr i s, h, m) } })"

definition sub_manager_remove_p ::
    "filter_free \<Rightarrow> sub_manager_p \<Rightarrow> int \<Rightarrow> string \<Rightarrow> sub_mem \<Rightarrow>
     (nostr_relay_error \<times> sub_manager_p \<times> sub_mem) option" where
  "sub_manager_remove_p ff mgr fd sid m =
     (case sub_manager_find_p mgr fd sid of
        None \<Rightarrow> Some (NOSTR_RELAY_ERR_INVALID_SUBSCRIPTION_ID, mgr, m)
      | Some i \<Rightarrow> do {
          (s, m) \<leftarrow> clear_subscription_p ff (smp_subs mgr ! i) m;
          Some (NOSTR_RELAY_OK, (set_slot_p mgr i s)\<lparr>smp_active := smp_active mgr - 1\<rparr>, m) })"

fun remove_all_loop_p ::
    "filter_free \<Rightarrow> int \<Rightarrow> sub_p list \<Rightarrow> u16 \<Rightarrow> sub_mem \<Rightarrow> (sub_p list \<times> u16 \<times> sub_mem) option" where
  "remove_all_loop_p ff fd [] n m = Some ([], n, m)"
| "remove_all_loop_p ff fd (s # ss) n m = do {
     (s, n, m) \<leftarrow> (if sp_active s \<and> sp_fd s = fd
       then do { (s, m) \<leftarrow> clear_subscription_p ff s m; Some (s, n - 1, m) }
       else Some (s, n, m));
     (ss, n, m) \<leftarrow> remove_all_loop_p ff fd ss n m;
     Some (s # ss, n, m) }"

definition sub_manager_remove_all_p ::
    "filter_free \<Rightarrow> sub_manager_p \<Rightarrow> int \<Rightarrow> sub_mem \<Rightarrow> (sub_manager_p \<times> sub_mem) option" where
  "sub_manager_remove_all_p ff mgr fd m = do {
     (ss, n, m) \<leftarrow> remove_all_loop_p ff fd (smp_subs mgr) (smp_active mgr) m;
     Some (mgr\<lparr>smp_subs := ss, smp_active := n\<rparr>, m) }"

text \<open>\<open>nostr_filters_match\<close> is given the first \<open>filter_count\<close> filters of a slot.\<close>

fun match_loop_p ::
    "nostr_lib \<Rightarrow> nostr_event \<Rightarrow> sub_p list \<Rightarrow> sub_match_result \<Rightarrow> sub_mem \<Rightarrow> sub_match_result option" where
  "match_loop_p lib ev [] res m = Some res"
| "match_loop_p lib ev (s # ss) res m =
     (if \<not> sp_active s then match_loop_p lib ev ss res m
      else do {
        fs \<leftarrow> those (map (read_filter_p m) (take (unat (sp_count s)) (sp_filters s)));
        match_loop_p lib ev ss
          (if lib_filters_match lib fs ev
           then \<lparr>sm_matches = sm_matches res @ [\<lparr>me_conn_fd = sp_fd s, me_sub_id = sp_id s\<rparr>],
                 match_count = match_count res + 1\<rparr>
           else res) m })"

definition sub_manager_match_p ::
    "nostr_lib \<Rightarrow> sub_manager_p \<Rightarrow> nostr_event \<Rightarrow> sub_mem \<Rightarrow> sub_match_result option" where
  "sub_manager_match_p lib mgr ev m =
     match_loop_p lib ev (smp_subs mgr) \<lparr>sm_matches = [], match_count = 0\<rparr> m"

definition sub_manager_count_p :: "sub_manager_p \<Rightarrow> int \<Rightarrow> u8" where
  "sub_manager_count_p mgr fd = of_nat (conn_slots_p mgr fd)"

fun destroy_loop_p :: "filter_free \<Rightarrow> sub_p list \<Rightarrow> sub_mem \<Rightarrow> (sub_p list \<times> sub_mem) option" where
  "destroy_loop_p ff [] m = Some ([], m)"
| "destroy_loop_p ff (s # ss) m = do {
     (s, m) \<leftarrow> (if sp_active s then clear_subscription_p ff s m else Some (s, m));
     (ss, m) \<leftarrow> destroy_loop_p ff ss m;
     Some (s # ss, m) }"

definition sub_manager_destroy_p ::
    "filter_free \<Rightarrow> sub_manager_p \<Rightarrow> sub_mem \<Rightarrow> (sub_manager_p \<times> sub_mem) option" where
  "sub_manager_destroy_p ff mgr m = do {
     (ss, m) \<leftarrow> destroy_loop_p ff (smp_subs mgr) m;
     Some (mgr\<lparr>smp_subs := ss, smp_lock := False\<rparr>, m) }"

section \<open>Runs\<close>

datatype sub_call =
    Sub_Add int string "nostr_filter list"
  | Sub_Remove int string
  | Sub_Remove_All int
  | Sub_Match nostr_event
  | Sub_Count int

datatype sub_reply =
    Code_Reply nostr_relay_error
  | Match_Reply sub_match_result
  | Count_Reply u8
  | No_Reply

text \<open>A run of calls on values, and on memory.\<close>

fun call_sub :: "nostr_lib \<Rightarrow> sub_call \<Rightarrow> sub_manager \<Rightarrow> heap \<Rightarrow> sub_reply \<times> sub_manager \<times> heap" where
  "call_sub lib (Sub_Add fd sid fs) mgr h =
     (let (e, mgr, h) = sub_manager_add lib mgr fd sid fs h in (Code_Reply e, mgr, h))"
| "call_sub lib (Sub_Remove fd sid) mgr h =
     (let (e, mgr) = sub_manager_remove lib mgr fd sid in (Code_Reply e, mgr, h))"
| "call_sub lib (Sub_Remove_All fd) mgr h = (No_Reply, sub_manager_remove_all lib mgr fd, h)"
| "call_sub lib (Sub_Match ev) mgr h = (Match_Reply (sub_manager_match lib mgr ev), mgr, h)"
| "call_sub lib (Sub_Count fd) mgr h = (Count_Reply (sub_manager_count mgr fd), mgr, h)"

fun call_sub_p ::
    "nostr_lib \<Rightarrow> filter_free \<Rightarrow> sub_call \<Rightarrow> sub_manager_p \<Rightarrow> heap \<Rightarrow> sub_mem \<Rightarrow> sub_reply sub_result" where
  "call_sub_p lib ff (Sub_Add fd sid fs) mgr h m = do {
     (e, mgr, h, m) \<leftarrow> sub_manager_add_p ff mgr fd sid fs h m; Some (Code_Reply e, mgr, h, m) }"
| "call_sub_p lib ff (Sub_Remove fd sid) mgr h m = do {
     (e, mgr, m) \<leftarrow> sub_manager_remove_p ff mgr fd sid m; Some (Code_Reply e, mgr, h, m) }"
| "call_sub_p lib ff (Sub_Remove_All fd) mgr h m = do {
     (mgr, m) \<leftarrow> sub_manager_remove_all_p ff mgr fd m; Some (No_Reply, mgr, h, m) }"
| "call_sub_p lib ff (Sub_Match ev) mgr h m = do {
     res \<leftarrow> sub_manager_match_p lib mgr ev m; Some (Match_Reply res, mgr, h, m) }"
| "call_sub_p lib ff (Sub_Count fd) mgr h m = Some (Count_Reply (sub_manager_count_p mgr fd), mgr, h, m)"

fun sub_calls ::
    "nostr_lib \<Rightarrow> sub_call list \<Rightarrow> sub_manager \<Rightarrow> heap \<Rightarrow> sub_reply list \<times> sub_manager \<times> heap" where
  "sub_calls lib [] mgr h = ([], mgr, h)"
| "sub_calls lib (c # cs) mgr h =
     (let (r, mgr, h) = call_sub lib c mgr h; (rs, mgr, h) = sub_calls lib cs mgr h in (r # rs, mgr, h))"

fun sub_calls_p ::
    "nostr_lib \<Rightarrow> filter_free \<Rightarrow> sub_call list \<Rightarrow> sub_manager_p \<Rightarrow> heap \<Rightarrow> sub_mem \<Rightarrow>
     sub_reply list sub_result" where
  "sub_calls_p lib ff [] mgr h m = Some ([], mgr, h, m)"
| "sub_calls_p lib ff (c # cs) mgr h m = do {
     (r, mgr, h, m) \<leftarrow> call_sub_p lib ff c mgr h m;
     (rs, mgr, h, m) \<leftarrow> sub_calls_p lib ff cs mgr h m;
     Some (r # rs, mgr, h, m) }"

end
