(* ===== verification/Owned_Memory.thy ===== *)
theory Owned_Memory
  imports Dynamic_Memory "HOL-Library.Multiset"
begin

text \<open>
  What it means to own cells of the dynamic memory, and what allocation, release and writing do
  to the cells owned.
\<close>

section \<open>Ownership\<close>

text \<open>
  \<open>owns F M m\<close>: the memory consists of the cells \<open>F\<close> of others and of the cells \<open>M\<close>, each at an
  address of its own.  As \<open>M\<close> is a multiset, parts of it are separated without saying so.
\<close>

definition owns :: "(addr \<rightharpoonup> 'c) \<Rightarrow> (addr \<times> 'c) multiset \<Rightarrow> 'c mem \<Rightarrow> bool" where
  "owns F M m \<longleftrightarrow> mem_ok m \<and>
     (\<exists>L. mset L = M \<and> distinct (map fst L) \<and> dom F \<inter> fst ` set L = {} \<and> cells m = F ++ map_of L)"

lemma owns_none: "owns F {#} m \<longleftrightarrow> mem_ok m \<and> cells m = F"
  by (auto simp: owns_def)

lemma owns_card:
  assumes "owns F M m"
  shows "card (dom (cells m) - dom F) = size M"
proof -
  from assms obtain L where L: "mset L = M" "distinct (map fst L)" "dom F \<inter> fst ` set L = {}" "cells m = F ++ map_of L"
    by (auto simp: owns_def)
  have "dom (cells m) - dom F = set (map fst L)" using L(3,4) by (auto simp: dom_map_of_conv_image_fst)
  then have "card (dom (cells m) - dom F) = length L" using distinct_card [OF L(2)] by simp
  with L(1) show ?thesis by (metis size_mset)
qed

text \<open>Any cell owned can be put first.\<close>

lemma owns_first:
  "owns F (add_mset (p, c) M) m \<longleftrightarrow> mem_ok m \<and>
     (\<exists>L. mset L = M \<and> distinct (p # map fst L) \<and> dom F \<inter> insert p (fst ` set L) = {} \<and>
          cells m = (F ++ map_of L)(p \<mapsto> c))" (is "?l \<longleftrightarrow> mem_ok m \<and> ?r")
proof
  assume l: ?l
  then obtain K where K: "mset K = add_mset (p, c) M" "distinct (map fst K)" "dom F \<inter> fst ` set K = {}"
    "cells m = F ++ map_of K" by (auto simp: owns_def)
  obtain L where L: "mset L = M" using ex_mset by blast
  with K(1) have mK: "mset K = mset ((p, c) # L)" by simp
  have s: "set K = set ((p, c) # L)" using mK by (rule mset_eq_setD)
  have "mset (map fst K) = mset (map fst ((p, c) # L))" using mK by (simp only: mset_map)
  then have d: "distinct (map fst ((p, c) # L))" using K(2) by (metis mset_eq_imp_distinct_iff)
  have "map_of K = map_of ((p, c) # L)" using map_of_inject_set [OF K(2) d] s by simp
  with K s d have "dom F \<inter> insert p (fst ` set L) = {}" "cells m = (F ++ map_of L)(p \<mapsto> c)" by auto
  with L d l show "mem_ok m \<and> ?r" by (auto simp: owns_def)
next
  assume r: "mem_ok m \<and> ?r"
  then obtain L where L: "mset L = M" "distinct (p # map fst L)" "dom F \<inter> insert p (fst ` set L) = {}"
    "cells m = (F ++ map_of L)(p \<mapsto> c)" by blast
  let ?K = "(p, c) # L"
  have "mset ?K = add_mset (p, c) M" "distinct (map fst ?K)" "dom F \<inter> fst ` set ?K = {}" "cells m = F ++ map_of ?K"
    using L by auto
  then show ?l unfolding owns_def using r by blast
qed

lemma owns_read: "owns F (add_mset (p, c) M) m \<Longrightarrow> cells m p = Some c"
  by (auto simp: owns_first)

lemma owns_new:
  assumes "owns F M m" and "mem_new c m = (p, m')"
  shows "owns F (add_mset (p, c) M) m'"
proof -
  from assms(1) obtain L where L: "mset L = M" "distinct (map fst L)" "dom F \<inter> fst ` set L = {}"
    "cells m = F ++ map_of L" and ok: "mem_ok m" by (auto simp: owns_def)
  have p: "p = next_addr m" "m' = \<lparr>cells = (cells m)(p \<mapsto> c), next_addr = next_addr m + 1\<rparr>"
    using assms(2) by (auto simp: mem_new_def)
  have "cells m p = None" using ok p by (force simp: mem_ok_def)
  then have "p \<notin> dom F" "p \<notin> fst ` set L" using L(4)
    by (auto simp: map_add_None dom_def map_of_eq_None_iff)
  then have "distinct (p # map fst L)" "dom F \<inter> insert p (fst ` set L) = {}"
    "cells m' = (F ++ map_of L)(p \<mapsto> c)" using L p(2) by auto
  moreover have "mem_ok m'" using ok p by (force simp: mem_ok_def less_Suc_eq)
  ultimately show ?thesis unfolding owns_first using L(1) by blast
qed

lemma owns_alloc:
  assumes "owns F M m"
  shows "case malloc h of (False, h1) \<Rightarrow> mem_alloc c h m = (None, h1, m)
    | (True, h1) \<Rightarrow> \<exists>p m'. mem_alloc c h m = (Some p, h1, m') \<and> owns F (add_mset (p, c) M) m'"
  using owns_new [OF assms, of c] by (auto simp: mem_alloc_def split: prod.splits bool.splits)

lemma owns_free:
  assumes "owns F (add_mset (p, c) M) m"
  shows "\<exists>m'. mem_free p m = Some m' \<and> owns F M m'"
proof -
  from assms obtain L where L: "mset L = M" "distinct (p # map fst L)" "dom F \<inter> insert p (fst ` set L) = {}"
    "cells m = (F ++ map_of L)(p \<mapsto> c)" and ok: "mem_ok m" by (auto simp: owns_first)
  have "(F ++ map_of L) p = None" using L(2,3) by (auto simp: map_add_None map_of_eq_None_iff dom_def)
  then have "(cells m)(p := None) = F ++ map_of L" by (simp add: L(4) fun_upd_idem)
  moreover have "mem_ok (m\<lparr>cells := (cells m)(p := None)\<rparr>)" using ok by (simp add: mem_ok_def)
  moreover have "distinct (map fst L)" "dom F \<inter> fst ` set L = {}" using L(2,3) by auto
  ultimately have "owns F M (m\<lparr>cells := (cells m)(p := None)\<rparr>)" unfolding owns_def using L(1) by auto
  then show ?thesis using owns_read [OF assms] by (simp add: mem_free_def)
qed

lemma owns_write:
  assumes "owns F (add_mset (p, c) M) m"
  shows "\<exists>m'. mem_write p d m = Some m' \<and> owns F (add_mset (p, d) M) m'"
proof -
  from assms obtain L where L: "mset L = M" "distinct (p # map fst L)" "dom F \<inter> insert p (fst ` set L) = {}"
    "cells m = (F ++ map_of L)(p \<mapsto> c)" and ok: "mem_ok m" by (auto simp: owns_first)
  moreover have "mem_ok (m\<lparr>cells := (cells m)(p \<mapsto> d)\<rparr>)" using ok L(4) by (auto simp: mem_ok_def)
  moreover have "(cells m)(p \<mapsto> d) = (F ++ map_of L)(p \<mapsto> d)" by (simp add: L(4))
  ultimately have "owns F (add_mset (p, d) M) (m\<lparr>cells := (cells m)(p \<mapsto> d)\<rparr>)"
    unfolding owns_first by auto
  then show ?thesis using owns_read [OF assms] by (simp add: mem_write_def)
qed

lemma owns_free_each:
  "owns F (mset (zip ps cs) + M) m \<Longrightarrow> length cs = length ps \<Longrightarrow>
    \<exists>m'. free_each ps m = Some m' \<and> owns F M m'"
proof (induction ps arbitrary: cs m)
  case (Cons p ps)
  then obtain c cs' where cs: "cs = c # cs'" by (cases cs) auto
  then obtain m1 where "mem_free p m = Some m1" "owns F (mset (zip ps cs') + M) m1"
    using owns_free [of F p c "mset (zip ps cs') + M" m] Cons.prems by auto
  with Cons.IH [of cs' m1] Cons.prems(2) cs show ?case by auto
qed simp

end
