(* ===== verification/Sub_Copies.thy ===== *)
theory Sub_Copies
  imports Sub_Memory Owned_Memory
begin

text \<open>
  The memory a filter of the subscription manager takes, and the proof that a copy owns what it
  allocates: it succeeds with the value of its source in new memory, or leaves nothing behind.
\<close>

section \<open>What the memory of a filter is\<close>

text \<open>
  The address of an array with the addresses and values of what it holds; a missing one is the
  null pointer.  From it follow the pointer, the value and the cells.
\<close>

type_synonym strs_at = "(addr \<times> (addr \<times> string) list) option"
type_synonym tags_at = "(addr \<times> (char \<times> strs_at) list) option"

record filter_at =
  at_ids :: strs_at
  at_authors :: strs_at
  at_kinds :: "(addr \<times> int list) option"
  at_e_tags :: strs_at
  at_p_tags :: strs_at
  at_tags :: tags_at
  at_since :: int
  at_until :: int
  at_limit :: int

definition ptr_at :: "(addr \<times> 'a) option \<Rightarrow> addr option" where
  "ptr_at = map_option fst"

definition strs_val :: "strs_at \<Rightarrow> string list" where
  "strs_val g = (case g of None \<Rightarrow> [] | Some (a, qs) \<Rightarrow> map snd qs)"

definition ints_val :: "(addr \<times> int list) option \<Rightarrow> int list" where
  "ints_val g = (case g of None \<Rightarrow> [] | Some (a, xs) \<Rightarrow> xs)"

definition tags_val :: "tags_at \<Rightarrow> (char \<times> string list) list" where
  "tags_val g = (case g of None \<Rightarrow> [] | Some (a, ts) \<Rightarrow> map (\<lambda>(n, v). (n, strs_val v)) ts)"

definition str_cells :: "(addr \<times> string) list \<Rightarrow> (addr \<times> sub_cell) multiset" where
  "str_cells qs = mset (zip (map fst qs) (map (\<lambda>q. Str_Cell (snd q)) qs))"

definition strs_cells :: "strs_at \<Rightarrow> (addr \<times> sub_cell) multiset" where
  "strs_cells g =
     (case g of None \<Rightarrow> {#}
      | Some (a, qs) \<Rightarrow> add_mset (a, Strs_Cell (length qs) (map fst qs)) (str_cells qs))"

definition ints_cells :: "(addr \<times> int list) option \<Rightarrow> (addr \<times> sub_cell) multiset" where
  "ints_cells g = (case g of None \<Rightarrow> {#} | Some (a, xs) \<Rightarrow> {#(a, Ints_Cell xs)#})"

definition tag_at :: "char \<times> strs_at \<Rightarrow> tag_p" where
  "tag_at t = \<lparr>tp_name = fst t, tp_count = length (strs_val (snd t)), tp_values = ptr_at (snd t)\<rparr>"

definition tag_values_cells :: "(char \<times> strs_at) list \<Rightarrow> (addr \<times> sub_cell) multiset" where
  "tag_values_cells ts = sum_list (map (\<lambda>t. strs_cells (snd t)) ts)"

definition tags_cells :: "tags_at \<Rightarrow> (addr \<times> sub_cell) multiset" where
  "tags_cells g =
     (case g of None \<Rightarrow> {#}
      | Some (a, ts) \<Rightarrow> add_mset (a, Tags_Cell (length ts) (map tag_at ts)) (tag_values_cells ts))"

definition filter_cells :: "filter_at \<Rightarrow> (addr \<times> sub_cell) multiset" where
  "filter_cells g = strs_cells (at_ids g) + strs_cells (at_authors g) + ints_cells (at_kinds g) +
     strs_cells (at_e_tags g) + strs_cells (at_p_tags g) + tags_cells (at_tags g)"

definition filter_val :: "filter_at \<Rightarrow> nostr_filter" where
  "filter_val g = \<lparr>f_ids = strs_val (at_ids g), f_authors = strs_val (at_authors g),
     f_kinds = ints_val (at_kinds g), f_e_tags = strs_val (at_e_tags g), f_p_tags = strs_val (at_p_tags g),
     f_generic_tags = tags_val (at_tags g), f_since = at_since g, f_until = at_until g, f_limit = at_limit g\<rparr>"

definition filter_ptr :: "filter_at \<Rightarrow> filter_p" where
  "filter_ptr g = \<lparr>p_ids = ptr_at (at_ids g), n_ids = length (strs_val (at_ids g)),
     p_authors = ptr_at (at_authors g), n_authors = length (strs_val (at_authors g)),
     p_kinds = ptr_at (at_kinds g), n_kinds = length (ints_val (at_kinds g)),
     p_e_tags = ptr_at (at_e_tags g), n_e_tags = length (strs_val (at_e_tags g)),
     p_p_tags = ptr_at (at_p_tags g), n_p_tags = length (strs_val (at_p_tags g)),
     p_generic_tags = ptr_at (at_tags g), n_generic_tags = length (tags_val (at_tags g)),
     p_since = at_since g, p_until = at_until g, p_limit = at_limit g\<rparr>"

text \<open>A struct points to this memory; the count of a null pointer may be any.\<close>

definition counts :: "(addr \<times> 'a) option \<Rightarrow> 'b list \<Rightarrow> nat \<Rightarrow> bool" where
  "counts g xs n \<longleftrightarrow> g = None \<or> n = length xs"

definition points_to :: "filter_p \<Rightarrow> filter_at \<Rightarrow> bool" where
  "points_to d g \<longleftrightarrow>
     p_ids d = ptr_at (at_ids g) \<and> counts (at_ids g) (strs_val (at_ids g)) (n_ids d) \<and>
     p_authors d = ptr_at (at_authors g) \<and> counts (at_authors g) (strs_val (at_authors g)) (n_authors d) \<and>
     p_kinds d = ptr_at (at_kinds g) \<and> counts (at_kinds g) (ints_val (at_kinds g)) (n_kinds d) \<and>
     p_e_tags d = ptr_at (at_e_tags g) \<and> counts (at_e_tags g) (strs_val (at_e_tags g)) (n_e_tags d) \<and>
     p_p_tags d = ptr_at (at_p_tags g) \<and> counts (at_p_tags g) (strs_val (at_p_tags g)) (n_p_tags d) \<and>
     p_generic_tags d = ptr_at (at_tags g) \<and> counts (at_tags g) (tags_val (at_tags g)) (n_generic_tags d)"

text \<open>
  What the library documents of \<open>nostr_filter_free\<close>: it releases the memory of a filter, whose
  arrays may be missing, and nothing else.
\<close>

definition filter_free_ok :: "filter_free \<Rightarrow> bool" where
  "filter_free_ok ff \<longleftrightarrow>
     (\<forall>d g F R m. points_to d g \<longrightarrow> owns F (filter_cells g + R) m \<longrightarrow>
        (\<exists>d' m'. ff d m = Some (d', m') \<and> owns F R m'))"

lemma filter_free_okD:
  assumes "filter_free_ok ff" and "points_to d g" and "owns F (filter_cells g + R) m"
  obtains d' m' where "ff d m = Some (d', m')" and "owns F R m'"
  using assms unfolding filter_free_ok_def by blast

lemma points_to_ptr: "points_to (filter_ptr g) g"
  by (simp add: points_to_def filter_ptr_def counts_def)

lemma at_None [simp]:
  "ptr_at None = None" "strs_val None = []" "ints_val None = []" "tags_val None = []"
  "strs_cells None = {#}" "ints_cells None = {#}" "tags_cells None = {#}"
  by (simp_all add: ptr_at_def strs_val_def ints_val_def tags_val_def strs_cells_def ints_cells_def tags_cells_def)

lemma at_Some [simp]:
  "ptr_at (Some (a, x)) = Some a" "strs_val (Some (a, qs)) = map snd qs" "ints_val (Some (a, xs)) = xs"
  "tags_val (Some (a, ts)) = map (\<lambda>(n, v). (n, strs_val v)) ts"
  "strs_cells (Some (a, qs)) = add_mset (a, Strs_Cell (length qs) (map fst qs)) (str_cells qs)"
  "ints_cells (Some (a, xs)) = {#(a, Ints_Cell xs)#}"
  "tags_cells (Some (a, ts)) = add_mset (a, Tags_Cell (length ts) (map tag_at ts)) (tag_values_cells ts)"
  by (simp_all add: ptr_at_def strs_val_def ints_val_def tags_val_def strs_cells_def ints_cells_def tags_cells_def)

lemma ptr_at_None_iff [simp]: "ptr_at g = None \<longleftrightarrow> g = None" "None = ptr_at g \<longleftrightarrow> g = None"
  by (auto simp: ptr_at_def)

lemma str_cells_Nil [simp]: "str_cells [] = {#}"
  and str_cells_snoc: "str_cells (qs @ [(p, s)]) = add_mset (p, Str_Cell s) (str_cells qs)"
  by (simp_all add: str_cells_def)

lemma tag_values_cells_Nil [simp]: "tag_values_cells [] = {#}"
  and tag_values_cells_Cons [simp]: "tag_values_cells (t # ts) = strs_cells (snd t) + tag_values_cells ts"
  and tag_values_cells_snoc: "tag_values_cells (ts @ [t]) = strs_cells (snd t) + tag_values_cells ts"
  by (simp_all add: tag_values_cells_def)

section \<open>Copies own what they allocate\<close>

lemma owns_read_first: "owns F (add_mset (p, c) M + R) m \<Longrightarrow> cells m p = Some c"
  using owns_read [of F p c "M + R" m] by simp

lemma free_strs:
  assumes "owns F (str_cells qs + R) m"
  shows "\<exists>m'. free_each (map fst qs) m = Some m' \<and> owns F R m'"
  using owns_free_each [OF assms [unfolded str_cells_def]] by simp

text \<open>Writing the next entry.\<close>

lemma owns_push:
  assumes "owns F (add_mset (a, Strs_Cell k ps) M) m" and "length ps < k"
  shows "\<exists>m'. push_ptr a p m = Some m' \<and> owns F (add_mset (a, Strs_Cell k (ps @ [p])) M) m'"
  using owns_write [OF assms(1)] owns_read [OF assms(1)] assms(2) by (simp add: push_ptr_def)

lemma owns_push_tag:
  assumes "owns F (add_mset (a, Tags_Cell k ts) M) m" and "length ts < k"
  shows "\<exists>m'. push_tag a t m = Some m' \<and> owns F (add_mset (a, Tags_Cell k (ts @ [t])) M) m'"
  using owns_write [OF assms(1)] owns_read [OF assms(1)] assms(2) by (simp add: push_tag_def)

lemma strdup_into_owns:
  "owns F (add_mset (a, Strs_Cell k (map fst qs)) (str_cells qs + R)) m \<Longrightarrow> k = length qs + length src \<Longrightarrow>
    strdup_all src h = (v, h') \<Longrightarrow>
    \<exists>g m'. strdup_into a (length qs) src h m = Some (ptr_at g, h', m') \<and> owns F (strs_cells g + R) m' \<and>
      (case v of None \<Rightarrow> g = None | Some xs \<Rightarrow> g \<noteq> None \<and> strs_val g = map snd qs @ xs)"
proof (induction src arbitrary: qs h m v h')
  case Nil
  then show ?case by (intro exI [of _ "Some (a, qs)"] exI [of _ m]) (auto simp: ac_simps)
next
  case (Cons s src)
  obtain b h1 where b: "malloc h = (b, h1)" by force
  show ?case
  proof (cases b)
    case False
    have r: "read_ptrs (Some a) (length qs) m = Some (map fst qs)"
      using owns_read [OF Cons.prems(1)] by (simp add: read_ptrs_def)
    have "owns F (str_cells qs + add_mset (a, Strs_Cell k (map fst qs)) R) m"
      using Cons.prems(1) by (simp add: ac_simps)
    from free_strs [OF this] obtain m1 where m1: "free_each (map fst qs) m = Some m1"
      "owns F (add_mset (a, Strs_Cell k (map fst qs)) R) m1" by blast
    from owns_free [OF m1(2)] obtain m2 where "mem_free a m1 = Some m2" "owns F R m2" by blast
    with False b r m1(1) Cons.prems(3) show ?thesis by (intro exI [of _ None]) (auto simp: mem_alloc_def)
  next
    case True
    with owns_alloc [OF Cons.prems(1), where h = h and c = "Str_Cell s"] b obtain p m1 where
      m1: "mem_alloc (Str_Cell s) h m = (Some p, h1, m1)"
      "owns F (add_mset (p, Str_Cell s) (add_mset (a, Strs_Cell k (map fst qs)) (str_cells qs + R))) m1"
      by (auto simp: mem_alloc_def)
    have "owns F (add_mset (a, Strs_Cell k (map fst qs)) (add_mset (p, Str_Cell s) (str_cells qs + R))) m1"
      using m1(2) by (simp add: add_mset_commute)
    from owns_push [OF this] Cons.prems(2) obtain m2 where m2: "push_ptr a p m1 = Some m2"
      "owns F (add_mset (a, Strs_Cell k (map fst (qs @ [(p, s)]))) (str_cells (qs @ [(p, s)]) + R)) m2"
      by (auto simp: str_cells_snoc)
    obtain v1 where v1: "strdup_all src h1 = (v1, h')" "v = map_option (Cons s) v1"
      using Cons.prems(3) b True by (auto split: prod.splits option.splits)
    from Cons.IH [OF m2(2) _ v1(1)] Cons.prems(2) obtain g m3 where
      "strdup_into a (Suc (length qs)) src h1 m2 = Some (ptr_at g, h', m3)" "owns F (strs_cells g + R) m3"
      "case v1 of None \<Rightarrow> g = None | Some xs \<Rightarrow> g \<noteq> None \<and> strs_val g = map snd (qs @ [(p, s)]) @ xs" by auto
    with m1(1) m2(1) v1(2) show ?thesis by (intro exI [of _ g] exI [of _ m3]) (auto split: option.splits)
  qed
qed

text \<open>
  A copy succeeds with the null pointer or new memory exactly when its value does, with that
  value; one that fails leaves no memory.
\<close>

lemma copy_string_array_owns:
  assumes "owns F R m" and "copy_string_array src h = (v, h')"
  obtains g m' where "copy_string_array_p src h m = Some (ptr_at g, h', m')" and "owns F (strs_cells g + R) m'"
    and "v = (if g = None then None else Some (strs_val g))"
proof -
  obtain b h1 where b: "malloc h = (b, h1)" by force
  consider "src = []" | "src \<noteq> []" "\<not> b" | "src \<noteq> []" "b" by blast
  then show thesis
  proof cases
    case 3
    with owns_alloc [OF assms(1), where h = h and c = "Strs_Cell (length src) []"] b obtain a m1 where
      m1: "mem_alloc (Strs_Cell (length src) []) h m = (Some a, h1, m1)"
      "owns F (add_mset (a, Strs_Cell (length src) []) R) m1"
      by (auto simp: mem_alloc_def)
    have v: "strdup_all src h1 = (v, h')" using assms(2) 3 b by (simp add: copy_string_array_def)
    from strdup_into_owns [of F a "length src" "[]" R m1 src, OF _ _ v] m1(2) obtain g m2 where
      "strdup_into a 0 src h1 m1 = Some (ptr_at g, h', m2)" "owns F (strs_cells g + R) m2"
      "case v of None \<Rightarrow> g = None | Some xs \<Rightarrow> g \<noteq> None \<and> strs_val g = xs" by (fastforce split: option.splits)
    with m1(1) 3 that show thesis by (auto simp: copy_string_array_p_def split: option.splits)
  qed (use assms b that [of None] in \<open>auto simp: copy_string_array_p_def copy_string_array_def mem_alloc_def\<close>)
qed

lemma copy_int_array_owns:
  assumes "owns F R m" and "copy_int_array src h = (v, h')"
  obtains g m' where "copy_int_array_p src h m = Some (ptr_at g, h', m')" and "owns F (ints_cells g + R) m'"
    and "v = (if g = None then None else Some (ints_val g))"
proof -
  obtain b h1 where b: "malloc h = (b, h1)" by force
  consider "src = []" | "src \<noteq> []" "\<not> b" | "src \<noteq> []" "b" by blast
  then show thesis
  proof cases
    case 3
    with owns_alloc [OF assms(1), where h = h and c = "Ints_Cell src"] b obtain a m1 where
      "mem_alloc (Ints_Cell src) h m = (Some a, h1, m1)" "owns F (add_mset (a, Ints_Cell src) R) m1"
      by (auto simp: mem_alloc_def)
    with assms(2) b 3 that [of "Some (a, src)" m1] show thesis
      by (auto simp: copy_int_array_p_def copy_int_array_def)
  qed (use assms b that [of None] in \<open>auto simp: copy_int_array_p_def copy_int_array_def mem_alloc_def\<close>)
qed

text \<open>The values of the entries written so far, then the array.\<close>

lemma free_values_owns:
  assumes "owns F (strs_cells (snd t) + R) m"
  shows "\<exists>m'. free_values (tag_at t) m = Some m' \<and> owns F R m'"
proof (cases "snd t")
  case None
  with assms show ?thesis by (simp add: free_values_def tag_at_def read_ptrs_def free_ptr_def)
next
  case (Some q)
  obtain a qs where q: "q = (a, qs)" by force
  with Some assms have o: "owns F (add_mset (a, Strs_Cell (length qs) (map fst qs)) (str_cells qs + R)) m" by simp
  then have "owns F (str_cells qs + add_mset (a, Strs_Cell (length qs) (map fst qs)) R) m" by (simp add: ac_simps)
  from free_strs [OF this] obtain m1 where m1: "free_each (map fst qs) m = Some m1"
    "owns F (add_mset (a, Strs_Cell (length qs) (map fst qs)) R) m1" by blast
  from owns_free [OF m1(2)] obtain m2 where "mem_free a m1 = Some m2" "owns F R m2" by blast
  moreover have "read_ptrs (Some a) (length qs) m = Some (map fst qs)"
    using owns_read [OF o] by (simp add: read_ptrs_def)
  ultimately show ?thesis using Some q m1 by (simp add: free_values_def tag_at_def free_ptr_def)
qed

lemma free_tag_values_owns:
  "owns F (tag_values_cells ts + R) m \<Longrightarrow> \<exists>m'. free_tag_values (map tag_at ts) m = Some m' \<and> owns F R m'"
proof (induction ts arbitrary: m)
  case (Cons t ts)
  then have "owns F (strs_cells (snd t) + (tag_values_cells ts + R)) m" by (simp add: ac_simps)
  from free_values_owns [OF this] obtain m1 where "free_values (tag_at t) m = Some m1"
    "owns F (tag_values_cells ts + R) m1" by blast
  with Cons.IH show ?case by simp
qed simp

lemma copy_tags_into_owns:
  "owns F (add_mset (a, Tags_Cell k (map tag_at ts)) (tag_values_cells ts + R)) m \<Longrightarrow>
    k = length ts + length src \<Longrightarrow> copy_tag_values src h = (v, h') \<Longrightarrow>
    \<exists>g m'. copy_tags_into a (length ts) src h m = Some (ptr_at g, h', m') \<and> owns F (tags_cells g + R) m' \<and>
      (case v of None \<Rightarrow> g = None
       | Some xs \<Rightarrow> g \<noteq> None \<and> tags_val g = tags_val (Some (a, ts)) @ xs)"
proof (induction src arbitrary: ts h m v h')
  case Nil
  then show ?case by (intro exI [of _ "Some (a, ts)"] exI [of _ m]) (auto simp: ac_simps)
next
  case (Cons e src)
  obtain name vals where e: "e = (name, vals)" by force
  obtain v0 h1 where v0: "copy_string_array vals h = (v0, h1)" by force
  from copy_string_array_owns [OF Cons.prems(1) v0] obtain g0 m1 where
    c: "copy_string_array_p vals h m = Some (ptr_at g0, h1, m1)"
      "owns F (strs_cells g0 + add_mset (a, Tags_Cell k (map tag_at ts)) (tag_values_cells ts + R)) m1"
    and v: "v0 = (if g0 = None then None else Some (strs_val g0))" by blast
  let ?t = "\<lparr>tp_name = name, tp_count = length vals, tp_values = ptr_at g0\<rparr>"
  have "owns F (add_mset (a, Tags_Cell k (map tag_at ts)) (strs_cells g0 + (tag_values_cells ts + R))) m1"
    using c(2) by (simp add: ac_simps)
  from owns_push_tag [OF this] Cons.prems(2) obtain m2 where p: "push_tag a ?t m1 = Some m2"
    "owns F (add_mset (a, Tags_Cell k (map tag_at ts @ [?t])) (strs_cells g0 + (tag_values_cells ts + R))) m2" by auto
  show ?case
  proof (cases "vals \<noteq> [] \<and> g0 = None")
    case True
    have r: "read_tags (Some a) (length ts) m2 = Some (map tag_at ts)"
      using owns_read [OF p(2)] by (simp add: read_tags_def)
    have "owns F (tag_values_cells ts + add_mset (a, Tags_Cell k (map tag_at ts @ [?t])) R) m2"
      using p(2) True by (simp add: ac_simps)
    from free_tag_values_owns [OF this] obtain m3 where m3: "free_tag_values (map tag_at ts) m2 = Some m3"
      "owns F (add_mset (a, Tags_Cell k (map tag_at ts @ [?t])) R) m3" by blast
    from owns_free [OF m3(2)] obtain m4 where "mem_free a m3 = Some m4" "owns F R m4" by blast
    with True c(1) p(1) r m3(1) v v0 e Cons.prems(3) show ?thesis by (intro exI [of _ None]) auto
  next
    case False
    have eq: "strs_val g0 = vals" using copy_string_array_eq [OF v0] v False by (auto split: if_splits)
    then have t: "?t = tag_at (name, g0)" by (simp add: tag_at_def)
    have "owns F (add_mset (a, Tags_Cell k (map tag_at (ts @ [(name, g0)]))) (tag_values_cells (ts @ [(name, g0)]) + R)) m2"
      using p(2) by (simp add: tag_values_cells_snoc t ac_simps)
    moreover obtain v1 where v1: "copy_tag_values src h1 = (v1, h')" "v = map_option (Cons (name, vals)) v1"
      using Cons.prems(3) v0 v False e eq by (auto split: prod.splits option.splits)
    ultimately obtain g m3 where
      "copy_tags_into a (Suc (length ts)) src h1 m2 = Some (ptr_at g, h', m3)" "owns F (tags_cells g + R) m3"
      "case v1 of None \<Rightarrow> g = None
       | Some xs \<Rightarrow> g \<noteq> None \<and> tags_val g = tags_val (Some (a, ts @ [(name, g0)])) @ xs"
      using Cons.IH [of "ts @ [(name, g0)]" m2 h1 v1 h'] Cons.prems(2) by auto
    with c(1) p(1) False v1(2) e eq show ?thesis by (intro exI [of _ g] exI [of _ m3]) (auto split: option.splits)
  qed
qed

lemma copy_generic_tags_owns:
  assumes "owns F R m" and "copy_generic_tags src h = (v, h')"
  obtains g m' where "copy_generic_tags_p src h m = Some (ptr_at g, h', m')" and "owns F (tags_cells g + R) m'"
    and "v = (if g = None then None else Some (tags_val g))"
proof -
  obtain b h1 where b: "malloc h = (b, h1)" by force
  consider "src = []" | "src \<noteq> []" "\<not> b" | "src \<noteq> []" "b" by blast
  then show thesis
  proof cases
    case 3
    with owns_alloc [OF assms(1), where h = h and c = "Tags_Cell (length src) []"] b obtain a m1 where
      m1: "mem_alloc (Tags_Cell (length src) []) h m = (Some a, h1, m1)"
      "owns F (add_mset (a, Tags_Cell (length src) []) R) m1"
      by (auto simp: mem_alloc_def)
    have v: "copy_tag_values src h1 = (v, h')" using assms(2) 3 b by (simp add: copy_generic_tags_def)
    from copy_tags_into_owns [of F a "length src" "[]" R m1 src, OF _ _ v] m1(2) obtain g m2 where
      "copy_tags_into a 0 src h1 m1 = Some (ptr_at g, h', m2)" "owns F (tags_cells g + R) m2"
      "case v of None \<Rightarrow> g = None | Some xs \<Rightarrow> g \<noteq> None \<and> tags_val g = xs" by (fastforce split: option.splits)
    with m1(1) 3 that show thesis by (auto simp: copy_generic_tags_p_def split: option.splits)
  qed (use assms b that [of None] in \<open>auto simp: copy_generic_tags_p_def copy_generic_tags_def mem_alloc_def\<close>)
qed

lemma countsI: "(\<not> b \<Longrightarrow> xs = ys) \<Longrightarrow> (ys \<noteq> [] \<and> g = None) = b \<Longrightarrow> counts g xs (length ys)"
  and counts_None: "counts None xs n"
  by (auto simp: counts_def)

text \<open>The result of a copy on memory is that on values, and a failed copy leaves no memory.\<close>

definition copy_fits ::
    "(addr \<rightharpoonup> sub_cell) \<Rightarrow> (addr \<times> sub_cell) multiset \<Rightarrow> nostr_filter \<Rightarrow> bool \<times> nostr_filter \<times> heap \<Rightarrow> copied \<Rightarrow> bool" where
  "copy_fits F R src r res \<longleftrightarrow>
     (\<exists>d m. res = Some (fst r, d, snd (snd r), m) \<and>
        (if fst r then \<exists>g. d = filter_ptr g \<and> filter_val g = src \<and> owns F (filter_cells g + R) m
         else owns F R m))"

lemma fail_fits:
  assumes "filter_free_ok ff" and "owns F (filter_cells g + R) m" and "points_to d g"
  shows "copy_fits F R src (False, e, h) (fail_copy ff d h m)"
proof -
  from filter_free_okD [OF assms(1,3,2)] obtain d' m' where "ff d m = Some (d', m')" "owns F R m'" .
  then show ?thesis by (simp add: copy_fits_def fail_copy_def)
qed

lemma filter_copy_owns:
  assumes ff: "filter_free_ok ff" and m: "owns F R m"
  shows "copy_fits F R src (filter_copy lib src h) (filter_copy_p ff src h m)"
proof -
  obtain v1 h1 where v1: "copy_string_array (f_ids src) h = (v1, h1)" by force
  obtain g1 m1 where c1: "copy_string_array_p (f_ids src) h m = Some (ptr_at g1, h1, m1)"
    "owns F (strs_cells g1 + R) m1" "v1 = (if g1 = None then None else Some (strs_val g1))"
    using copy_string_array_owns [OF m v1] .
  obtain v2 h2 where v2: "copy_string_array (f_authors src) h1 = (v2, h2)" by force
  obtain g2 m2 where c2: "copy_string_array_p (f_authors src) h1 m1 = Some (ptr_at g2, h2, m2)"
    "owns F (strs_cells g2 + (strs_cells g1 + R)) m2" "v2 = (if g2 = None then None else Some (strs_val g2))"
    using copy_string_array_owns [OF c1(2) v2] .
  obtain v3 h3 where v3: "copy_int_array (f_kinds src) h2 = (v3, h3)" by force
  obtain g3 m3 where c3: "copy_int_array_p (f_kinds src) h2 m2 = Some (ptr_at g3, h3, m3)"
    "owns F (ints_cells g3 + (strs_cells g2 + (strs_cells g1 + R))) m3"
    "v3 = (if g3 = None then None else Some (ints_val g3))"
    using copy_int_array_owns [OF c2(2) v3] .
  obtain v4 h4 where v4: "copy_string_array (f_e_tags src) h3 = (v4, h4)" by force
  obtain g4 m4 where c4: "copy_string_array_p (f_e_tags src) h3 m3 = Some (ptr_at g4, h4, m4)"
    "owns F (strs_cells g4 + (ints_cells g3 + (strs_cells g2 + (strs_cells g1 + R)))) m4"
    "v4 = (if g4 = None then None else Some (strs_val g4))"
    using copy_string_array_owns [OF c3(2) v4] .
  obtain v5 h5 where v5: "copy_string_array (f_p_tags src) h4 = (v5, h5)" by force
  obtain g5 m5 where c5: "copy_string_array_p (f_p_tags src) h4 m4 = Some (ptr_at g5, h5, m5)"
    "owns F (strs_cells g5 + (strs_cells g4 + (ints_cells g3 + (strs_cells g2 + (strs_cells g1 + R))))) m5"
    "v5 = (if g5 = None then None else Some (strs_val g5))"
    using copy_string_array_owns [OF c4(2) v5] .
  obtain v6 h6 where v6: "copy_generic_tags (f_generic_tags src) h5 = (v6, h6)" by force
  obtain g6 m6 where c6: "copy_generic_tags_p (f_generic_tags src) h5 m5 = Some (ptr_at g6, h6, m6)"
    "owns F (tags_cells g6 + (strs_cells g5 + (strs_cells g4 + (ints_cells g3 + (strs_cells g2 + (strs_cells g1 + R)))))) m6"
    "v6 = (if g6 = None then None else Some (tags_val g6))"
    using copy_generic_tags_owns [OF c5(2) v6] .
  define d1 where "d1 = zero_filter_p\<lparr>n_ids := length (f_ids src), p_ids := ptr_at g1\<rparr>"
  define d2 where "d2 = d1\<lparr>n_authors := length (f_authors src), p_authors := ptr_at g2\<rparr>"
  define d3 where "d3 = d2\<lparr>n_kinds := length (f_kinds src), p_kinds := ptr_at g3\<rparr>"
  define d4 where "d4 = d3\<lparr>n_e_tags := length (f_e_tags src), p_e_tags := ptr_at g4\<rparr>"
  define d5 where "d5 = d4\<lparr>n_p_tags := length (f_p_tags src), p_p_tags := ptr_at g5\<rparr>"
  define d6 where "d6 = d5\<lparr>n_generic_tags := length (f_generic_tags src), p_generic_tags := ptr_at g6\<rparr>"
  note ds = d1_def d2_def d3_def d4_def d5_def d6_def zero_filter_p_def
  obtain b1 b2 b3 b4 b5 b6 where
    bv: "(f_ids src \<noteq> [] \<and> v1 = None) = b1" "(f_authors src \<noteq> [] \<and> v2 = None) = b2"
      "(f_kinds src \<noteq> [] \<and> v3 = None) = b3" "(f_e_tags src \<noteq> [] \<and> v4 = None) = b4"
      "(f_p_tags src \<noteq> [] \<and> v5 = None) = b5" "(f_generic_tags src \<noteq> [] \<and> v6 = None) = b6" by blast
  have bg: "(f_ids src \<noteq> [] \<and> g1 = None) = b1" "(f_authors src \<noteq> [] \<and> g2 = None) = b2"
    "(f_kinds src \<noteq> [] \<and> g3 = None) = b3" "(f_e_tags src \<noteq> [] \<and> g4 = None) = b4"
    "(f_p_tags src \<noteq> [] \<and> g5 = None) = b5" "(f_generic_tags src \<noteq> [] \<and> g6 = None) = b6"
    using bv c1(3) c2(3) c3(3) c4(3) c5(3) c6(3) by (auto split: if_splits)
  note V = filter_copy_def Let_def v1 v2 v3 v4 v5 v6 bv
  note P = filter_copy_p_def Let_def c1(1) c2(1) c3(1) c4(1) c5(1) c6(1) bg
  have s: "\<not> b1 \<Longrightarrow> strs_val g1 = f_ids src" "\<not> b2 \<Longrightarrow> strs_val g2 = f_authors src" "\<not> b3 \<Longrightarrow> ints_val g3 = f_kinds src"
    "\<not> b4 \<Longrightarrow> strs_val g4 = f_e_tags src" "\<not> b5 \<Longrightarrow> strs_val g5 = f_p_tags src" "\<not> b6 \<Longrightarrow> tags_val g6 = f_generic_tags src"
    using bv copy_eqs(1) [OF v1] copy_eqs(1) [OF v2] copy_eqs(2) [OF v3] copy_eqs(1) [OF v4] copy_eqs(1) [OF v5]
      copy_eqs(3) [OF v6] c1(3) c2(3) c3(3) c4(3) c5(3) c6(3) by (auto split: if_splits)
  let ?at = "\<lambda>i a k e p t. \<lparr>at_ids = i, at_authors = a, at_kinds = k, at_e_tags = e, at_p_tags = p, at_tags = t,
    at_since = f_since src, at_until = f_until src, at_limit = f_limit src\<rparr>"
  have fail: ?thesis if "\<exists>e. filter_copy lib src h = (False, e, k)" "filter_copy_p ff src h m = fail_copy ff d k n"
      "points_to d g" "owns F (filter_cells g + R) n" for d k n g
    using that fail_fits [OF ff that(4,3)] by auto
  note cnt = countsI [OF s(1) bg(1)] countsI [OF s(2) bg(2)] countsI [OF s(3) bg(3)]
    countsI [OF s(4) bg(4)] countsI [OF s(5) bg(5)] countsI [OF s(6) bg(6)]
  note pt = points_to_def ds cnt counts_None and cs = filter_cells_def ac_simps
  consider (1) b1 | (2) "\<not> b1" b2 | (3) "\<not> b1" "\<not> b2" b3 | (4) "\<not> b1" "\<not> b2" "\<not> b3" b4
    | (5) "\<not> b1" "\<not> b2" "\<not> b3" "\<not> b4" b5 | (6) "\<not> b1" "\<not> b2" "\<not> b3" "\<not> b4" "\<not> b5" b6
    | (7) "\<not> b1" "\<not> b2" "\<not> b3" "\<not> b4" "\<not> b5" "\<not> b6" by blast
  then show ?thesis
  proof cases
    case 1
    show ?thesis by (rule fail [of h1 d1 m1 "?at g1 None None None None None"])
        (use c1(2) in \<open>simp add: V 1, simp add: P ds 1, simp add: pt, simp add: cs\<close>)
  next
    case 2
    show ?thesis by (rule fail [of h2 d2 m2 "?at g1 g2 None None None None"])
        (use c2(2) in \<open>simp add: V 2, simp add: P ds 2, simp add: pt, simp add: cs\<close>)
  next
    case 3
    show ?thesis by (rule fail [of h3 d3 m3 "?at g1 g2 g3 None None None"])
        (use c3(2) in \<open>simp add: V 3, simp add: P ds 3, simp add: pt, simp add: cs\<close>)
  next
    case 4
    show ?thesis by (rule fail [of h4 d4 m4 "?at g1 g2 g3 g4 None None"])
        (use c4(2) in \<open>simp add: V 4, simp add: P ds 4, simp add: pt, simp add: cs\<close>)
  next
    case 5
    show ?thesis by (rule fail [of h5 d5 m5 "?at g1 g2 g3 g4 g5 None"])
        (use c5(2) in \<open>simp add: V 5, simp add: P ds 5, simp add: pt, simp add: cs\<close>)
  next
    case 6
    show ?thesis by (rule fail [of h6 d6 m6 "?at g1 g2 g3 g4 g5 g6"])
        (use c6(2) in \<open>simp add: V 6, simp add: P ds 6, simp add: pt, simp add: cs\<close>)
  next
    case 7
    let ?g = "?at g1 g2 g3 g4 g5 g6"
    have "owns F (filter_cells ?g + R) m6" using c6(2) by (simp add: cs)
    moreover have "filter_val ?g = src" using 7 s by (simp add: filter_val_def)
    moreover have "filter_copy_p ff src h m = Some (True, filter_ptr ?g, h6, m6)"
      using 7 s by (simp add: P ds filter_ptr_def)
    moreover have "\<exists>d. filter_copy lib src h = (True, d, h6)" using 7 by (simp add: V)
    ultimately show ?thesis by (auto simp: copy_fits_def)
  qed
qed

end
