(* ===== verification/Sub_Safety.thy ===== *)
theory Sub_Safety
  imports Sub_Copies
begin

text \<open>
  The subscription manager owns exactly the memory of its subscriptions: every operation on
  pointers gives the result of the operation on values and keeps this, \<open>sub_manager_destroy\<close>
  gives the memory back.
\<close>

section \<open>Slots own the memory of their filters\<close>

definition filters_cells :: "filter_at list \<Rightarrow> (addr \<times> sub_cell) multiset" where
  "filters_cells gs = sum_list (map filter_cells gs)"

lemma filters_cells_simps [simp]:
  "filters_cells [] = {#}" "filters_cells (g # gs) = filter_cells g + filters_cells gs"
  "filters_cells (gs @ hs) = filters_cells gs + filters_cells hs"
  by (simp_all add: filters_cells_def)

lemma free_prefix_owns:
  assumes ff: "filter_free_ok ff"
  shows "owns F (filters_cells gs + R) m \<Longrightarrow> length gs \<le> length ds \<Longrightarrow> take (length gs) ds = map filter_ptr gs \<Longrightarrow>
    \<exists>ds' m'. free_prefix ff (length gs) ds m = Some (ds', m') \<and> length ds' = length ds \<and> owns F R m'"
proof (induction gs arbitrary: ds m)
  case (Cons g gs)
  then obtain ds1 where ds: "ds = filter_ptr g # ds1" by (cases ds) auto
  have "owns F (filter_cells g + (filters_cells gs + R)) m" using Cons.prems(1) by (simp add: ac_simps)
  from filter_free_okD [OF ff points_to_ptr this] obtain d m1 where
    "ff (filter_ptr g) m = Some (d, m1)" "owns F (filters_cells gs + R) m1" .
  moreover from Cons.IH [OF this(2), of ds1] Cons.prems ds obtain ds' m' where
    "free_prefix ff (length gs) ds1 m1 = Some (ds', m')" "length ds' = length ds1" "owns F R m'" by auto
  ultimately show ?case using ds by simp
qed simp

lemma copy_filters_loop_owns:
  assumes ff: "filter_free_ok ff"
  shows "owns F (filters_cells gs + R) m \<Longrightarrow> take (length gs) ds = map filter_ptr gs \<Longrightarrow>
    length gs + length fs \<le> length ds \<Longrightarrow> copy_filters_loop lib (length gs) fs dst h = (b, dst', h') \<Longrightarrow>
    \<exists>ds' m'. copy_filters_loop_p ff (length gs) fs ds h m = Some (b, ds', h', m') \<and> length ds' = length ds \<and>
      (if b then \<exists>gs'. length gs' = length gs + length fs \<and> take (length gs') ds' = map filter_ptr gs' \<and>
           map filter_val gs' = map filter_val gs @ fs \<and> owns F (filters_cells gs' + R) m'
       else owns F R m')"
proof (induction fs arbitrary: gs m ds dst h)
  case Nil
  then show ?case by auto
next
  case (Cons f fs)
  obtain ok d1 h1 where c: "filter_copy lib f h = (ok, d1, h1)" by (rule prod_cases3)
  with filter_copy_owns [OF ff Cons.prems(1), of f lib h] obtain d m1 where
    d: "filter_copy_p ff f h m = Some (ok, d, h1, m1)"
    and m1: "if ok then \<exists>g. d = filter_ptr g \<and> filter_val g = f \<and> owns F (filter_cells g + (filters_cells gs + R)) m1
             else owns F (filters_cells gs + R) m1" by (auto simp: copy_fits_def)
  have i: "length gs < length ds" using Cons.prems(3) by simp
  show ?case
  proof (cases ok)
    case False
    have "take (length gs) (ds[length gs := d]) = map filter_ptr gs" using Cons.prems(2) by simp
    with free_prefix_owns [OF ff, of F gs R m1 "ds[length gs := d]"] m1 False i obtain ds' m' where
      "free_prefix ff (length gs) (ds[length gs := d]) m1 = Some (ds', m')" "length ds' = length ds" "owns F R m'" by auto
    with c d False i Cons.prems(4) show ?thesis by auto
  next
    case True
    with m1 obtain g where g: "d = filter_ptr g" "filter_val g = f" "owns F (filters_cells (gs @ [g]) + R) m1"
      by (auto simp: ac_simps)
    let ?ds = "ds[length gs := d]" and ?n = "length (gs @ [g])"
    have t: "take ?n ?ds = map filter_ptr (gs @ [g])" using Cons.prems(2) g(1) i by (simp add: take_Suc_conv_app_nth)
    have n: "?n + length fs \<le> length ?ds" using Cons.prems(3) by simp
    have l: "copy_filters_loop lib ?n fs (dst[length gs := d1]) h1 = (b, dst', h')" using Cons.prems(4) c True by simp
    from Cons.IH [OF g(3) t n l] obtain ds' m' where
      "copy_filters_loop_p ff ?n fs ?ds h1 m1 = Some (b, ds', h', m')" "length ds' = length ?ds"
      "if b then \<exists>gs'. length gs' = ?n + length fs \<and> take (length gs') ds' = map filter_ptr gs' \<and>
           map filter_val gs' = map filter_val (gs @ [g]) @ fs \<and> owns F (filters_cells gs' + R) m'
       else owns F R m'" by blast
    with d i True g(2) show ?thesis by (cases b) simp_all
  qed
qed

text \<open>A slot in memory, the slot on values and the memory of its filters.\<close>

definition slot_fits :: "sub_p \<Rightarrow> subscription \<Rightarrow> filter_at list \<Rightarrow> bool" where
  "slot_fits s v gs \<longleftrightarrow>
     sp_id s = sub_id v \<and> sp_fd s = conn_fd v \<and> sp_count s = filter_count v \<and> sp_sent s = events_sent v \<and>
     sp_active s = sub_active v \<and> length (sp_filters s) = SUB_MAX_FILTERS \<and>
     length (sub_filters v) = SUB_MAX_FILTERS \<and> length gs = unat (sp_count s) \<and> length gs \<le> SUB_MAX_FILTERS \<and>
     take (length gs) (sp_filters s) = map filter_ptr gs \<and> take (length gs) (sub_filters v) = map filter_val gs"

lemma slot_fits_zero: "slot_fits (zero_sub_p\<lparr>sp_id := i, sp_fd := fd\<rparr>) (zero_subscription\<lparr>sub_id := i, conn_fd := fd\<rparr>) []"
  "slot_fits zero_sub_p zero_subscription []"
  by (simp_all add: slot_fits_def zero_sub_p_def zero_subscription_def)

lemma free_filters_owns:
  assumes "filter_free_ok ff" and "slot_fits s v gs" and "owns F (filters_cells gs + R) m"
  obtains s' m' where "free_filters_p ff s m = Some (s', m')" and "slot_fits s' (free_filters lib v) []" and "owns F R m'"
proof -
  have "length gs \<le> length (sp_filters s)" "take (length gs) (sp_filters s) = map filter_ptr gs"
    "unat (sp_count s) = length gs" using assms(2) by (auto simp: slot_fits_def)
  with free_prefix_owns [OF assms(1,3), of "sp_filters s"] obtain ds m' where
    "free_prefix ff (unat (sp_count s)) (sp_filters s) m = Some (ds, m')" "length ds = length (sp_filters s)" "owns F R m'"
    by auto
  with assms(2) that [of "s\<lparr>sp_filters := ds, sp_count := 0\<rparr>" m'] show thesis
    by (auto simp: free_filters_p_def free_filters_def slot_fits_def Let_def)
qed

lemma clear_subscription_owns:
  assumes "filter_free_ok ff" and "slot_fits s v gs" and "owns F (filters_cells gs + R) m"
  obtains m' where "clear_subscription_p ff s m = Some (zero_sub_p, m')" and "owns F R m'"
  by (rule free_filters_owns [OF assms]) (simp add: clear_subscription_p_def that)

lemma copy_filters_to_slot_owns:
  assumes ff: "filter_free_ok ff" and "slot_fits s v []" and "owns F R m" and "length fs \<le> SUB_MAX_FILTERS"
    and "copy_filters_to_slot lib v fs h = (b, v', h')"
  obtains s' gs m' where "copy_filters_to_slot_p ff s fs h m = Some (b, s', h', m')" and "slot_fits s' v' gs"
    and "owns F (filters_cells gs + R) m'" and "b \<or> gs = []" and "sub_active v' = sub_active v"
proof -
  obtain dst where l: "copy_filters_loop lib 0 fs (sub_filters v) h = (b, dst, h')"
    and v': "v' = (if b then v\<lparr>sub_filters := dst, filter_count := of_nat (length fs)\<rparr> else v\<lparr>sub_filters := dst\<rparr>)"
    using assms(5) by (auto simp: copy_filters_to_slot_def split: prod.splits bool.splits)
  have len: "length (sp_filters s) = SUB_MAX_FILTERS" "length (sub_filters v) = SUB_MAX_FILTERS"
    using assms(2) by (simp_all add: slot_fits_def)
  have dl: "length dst = SUB_MAX_FILTERS" using copy_filters_loop_length [OF l] len by simp
  from copy_filters_loop_owns [OF ff, of F "[]" R m "sp_filters s" fs lib "sub_filters v" h b dst h'] assms(3,4) len l
  obtain ds m' where c: "copy_filters_loop_p ff 0 fs (sp_filters s) h m = Some (b, ds, h', m')"
    "length ds = SUB_MAX_FILTERS"
    and r: "if b then \<exists>gs. length gs = length fs \<and> take (length gs) ds = map filter_ptr gs \<and>
           map filter_val gs = fs \<and> owns F (filters_cells gs + R) m' else owns F R m'" by (cases b) auto
  show thesis
  proof (cases b)
    case False
    with c r v' dl assms(2) that [of "s\<lparr>sp_filters := ds\<rparr>" m' "[]"] show thesis
      by (auto simp: copy_filters_to_slot_p_def slot_fits_def)
  next
    case True
    from r [unfolded if_P [OF True]] obtain gs where gs: "length gs = length fs" "take (length gs) ds = map filter_ptr gs"
      "map filter_val gs = fs" "owns F (filters_cells gs + R) m'" by blast
    have n: "unat (of_nat (length fs) :: u8) = length fs" using assms(4) by (simp add: unat_of_nat sub_consts)
    have "take (length fs) dst = fs"
      using copy_filters_loop_eq [of lib 0 fs "sub_filters v" h dst h'] l True len assms(4) by simp
    let ?s = "s\<lparr>sp_filters := ds, sp_count := of_nat (length fs)\<rparr>"
    have "slot_fits ?s v' gs" using True c(2) gs(1-3) n v' dl assms(2,4) \<open>take (length fs) dst = fs\<close> by (simp add: slot_fits_def)
    moreover have "copy_filters_to_slot_p ff s fs h m = Some (b, ?s, h', m')"
      using c(1) True by (simp add: copy_filters_to_slot_p_def)
    ultimately show thesis using gs(4) True v' by (intro that) auto
  qed
qed

section \<open>The manager owns the memory of its slots\<close>

type_synonym sub_row = "sub_p \<times> subscription \<times> filter_at list"

definition row_fits :: "sub_row \<Rightarrow> bool" where
  "row_fits t \<longleftrightarrow> slot_fits (fst t) (fst (snd t)) (snd (snd t)) \<and> (\<not> sp_active (fst t) \<longrightarrow> snd (snd t) = [])"

definition row_cells :: "sub_row \<Rightarrow> (addr \<times> sub_cell) multiset" where
  "row_cells t = filters_cells (snd (snd t))"

definition rows_cells :: "sub_row list \<Rightarrow> (addr \<times> sub_cell) multiset" where
  "rows_cells T = sum_list (map row_cells T)"

definition table_fits :: "sub_manager_p \<Rightarrow> sub_manager \<Rightarrow> sub_row list \<Rightarrow> bool" where
  "table_fits mp mv T \<longleftrightarrow>
     smp_subs mp = map fst T \<and> subs mv = map (fst \<circ> snd) T \<and> (\<forall>t \<in> set T. row_fits t) \<and>
     smp_lock mp = sm_lock mv \<and> smp_active mp = active_count mv"

text \<open>The manager in memory, the manager on values, and nothing else beside \<open>F\<close>.\<close>

definition mgr_fits :: "(addr \<rightharpoonup> sub_cell) \<Rightarrow> sub_manager_p \<Rightarrow> sub_manager \<Rightarrow> sub_mem \<Rightarrow> bool" where
  "mgr_fits F mp mv m \<longleftrightarrow> (\<exists>T. table_fits mp mv T \<and> owns F (rows_cells T) m)"

lemma rows_cells_simps [simp]: "rows_cells [] = {#}" "rows_cells (t # T) = row_cells t + rows_cells T"
  by (simp_all add: rows_cells_def)

lemma rows_cells_none: "(\<And>t. t \<in> set T \<Longrightarrow> row_cells t = {#}) \<Longrightarrow> rows_cells T = {#}"
  by (induction T) auto

lemma row_fits_slot: "row_fits (s, v, gs) \<Longrightarrow> slot_fits s v gs"
  by (simp add: row_fits_def)

lemma row_fits_eqs:
  assumes "row_fits t"
  shows "sp_active (fst t) = sub_active (fst (snd t))" "sp_fd (fst t) = conn_fd (fst (snd t))"
    "sp_id (fst t) = sub_id (fst (snd t))"
  using assms by (simp_all add: row_fits_def slot_fits_def)

text \<open>Taking one row out of a table, and putting one in.\<close>

lemma rows_cells_at:
  "i < length T \<Longrightarrow> \<exists>R. rows_cells T = row_cells (T ! i) + R \<and> (\<forall>t. rows_cells (T[i := t]) = row_cells t + R)"
proof (induction T arbitrary: i)
  case (Cons u T)
  show ?case
  proof (cases i)
    case (Suc j)
    with Cons.prems Cons.IH [of j] obtain R where
      "rows_cells T = row_cells (T ! j) + R" "\<forall>t. rows_cells (T[j := t]) = row_cells t + R" by auto
    then show ?thesis using Suc by (intro exI [of _ "row_cells u + R"]) (simp add: ac_simps)
  qed (auto intro: exI [of _ "rows_cells T"])
qed simp

lemma table_fits_set:
  assumes "table_fits mp mv T" and "row_fits (s, v, gs)"
  shows "table_fits (set_slot_p mp i s) (set_slot mv i v) (T[i := (s, v, gs)])"
  using assms set_update_subset_insert [of T i "(s, v, gs)"]
  by (auto simp: table_fits_def set_slot_p_def set_slot_def map_update)

lemma find_slot_map2: "(\<And>x. x \<in> set xs \<Longrightarrow> P (f x) = Q (g x)) \<Longrightarrow> find_slot P (map f xs) = find_slot Q (map g xs)"
  by (induction xs) auto

lemma count_slots_map2: "(\<And>x. x \<in> set xs \<Longrightarrow> P (f x) = Q (g x)) \<Longrightarrow> count_slots P (map f xs) = count_slots Q (map g xs)"
  by (induction xs) (auto simp: count_slots_Cons)

lemma table_scans:
  assumes "table_fits mp mv T"
  shows "sub_manager_find_p mp fd sid = sub_manager_find mv fd sid"
    and "find_slot (\<lambda>s. \<not> sp_active s) (smp_subs mp) = find_free_slot mv"
    and "conn_slots_p mp fd = conn_slots mv fd"
proof -
  have eq: "sp_active (fst t) = sub_active (fst (snd t)) \<and> sp_fd (fst t) = conn_fd (fst (snd t)) \<and>
      sp_id (fst t) = sub_id (fst (snd t))" if "t \<in> set T" for t
    using assms that row_fits_eqs by (auto simp: table_fits_def)
  have s: "smp_subs mp = map fst T" "subs mv = map (fst \<circ> snd) T" using assms by (simp_all add: table_fits_def)
  show "sub_manager_find_p mp fd sid = sub_manager_find mv fd sid"
    unfolding sub_manager_find_p_def sub_manager_find_def s by (rule find_slot_map2) (simp add: eq)
  show "find_slot (\<lambda>s. \<not> sp_active s) (smp_subs mp) = find_free_slot mv"
    unfolding find_free_slot_def s by (rule find_slot_map2) (simp add: eq)
  show "conn_slots_p mp fd = conn_slots mv fd"
    unfolding conn_slots_p_def conn_slots_def s by (rule count_slots_map2) (simp add: eq)
qed

lemma table_row:
  assumes "table_fits mp mv T" and "i < length (subs mv)" and "owns F (rows_cells T) m"
  obtains gs R where "row_fits (smp_subs mp ! i, subs mv ! i, gs)" and "owns F (filters_cells gs + R) m"
    and "\<forall>t. rows_cells (T[i := t]) = row_cells t + R"
proof -
  have i: "i < length T" using assms(1,2) by (simp add: table_fits_def)
  then obtain R where "rows_cells T = row_cells (T ! i) + R" "\<forall>t. rows_cells (T[i := t]) = row_cells t + R"
    using rows_cells_at by blast
  moreover have "row_fits (T ! i)" "smp_subs mp ! i = fst (T ! i)" "subs mv ! i = fst (snd (T ! i))"
    using assms(1) i by (auto simp: table_fits_def)
  ultimately show thesis using assms(3) that [of "snd (snd (T ! i))" R] by (simp add: row_cells_def)
qed

text \<open>Replacing the row at an index keeps the correspondence.\<close>

lemma mgr_fits_set:
  assumes "table_fits mp mv T" and "row_fits (s, v, gs)" and "owns F (filters_cells gs + R) m"
    and "\<forall>t. rows_cells (T[i := t]) = row_cells t + R"
  shows "mgr_fits F (set_slot_p mp i s) (set_slot mv i v) m"
  using table_fits_set [OF assms(1,2), of i] assms(3,4) by (auto simp: mgr_fits_def row_cells_def)

lemma mgr_fits_active:
  "mgr_fits F mp mv m \<Longrightarrow> mgr_fits F (mp\<lparr>smp_active := n\<rparr>) (mv\<lparr>active_count := n\<rparr>) m"
  by (auto simp: mgr_fits_def table_fits_def)

lemma table_fits_active: "table_fits mp mv T \<Longrightarrow> smp_active mp = active_count mv"
  by (simp add: table_fits_def)

lemma zero_row: "row_fits (zero_sub_p, zero_subscription, [])"
  by (simp add: row_fits_def slot_fits_zero)

section \<open>Every operation does in memory what it does on values\<close>

lemma add_owns:
  assumes ff: "filter_free_ok ff" and fits: "mgr_fits F mp mv m"
    and add: "sub_manager_add lib mv fd sid fs h = (e, mv', h')"
  shows "\<exists>mp' m'. sub_manager_add_p ff mp fd sid fs h m = Some (e, mp', h', m') \<and> mgr_fits F mp' mv' m'"
proof -
  from fits obtain T where T: "table_fits mp mv T" "owns F (rows_cells T) m" by (auto simp: mgr_fits_def)
  let ?fs = "take SUB_MAX_FILTERS fs"
  have len: "length ?fs \<le> SUB_MAX_FILTERS" by simp
  note unf = sub_manager_add_p_def sub_manager_add_def clamp_filters table_scans [OF T(1)] Let_def
  show ?thesis
  proof (cases "sub_manager_find mv fd sid")
    case (Some i)
    note i = find_view [OF Some]
    obtain gs R where r: "row_fits (smp_subs mp ! i, subs mv ! i, gs)" "owns F (filters_cells gs + R) m"
      "\<forall>t. rows_cells (T[i := t]) = row_cells t + R" by (rule table_row [OF T(1) i(1) T(2)])
    obtain s m1 where s: "free_filters_p ff (smp_subs mp ! i) m = Some (s, m1)"
      "slot_fits s (free_filters lib (subs mv ! i)) []" "owns F R m1"
      using free_filters_owns [OF ff row_fits_slot [OF r(1)] r(2)] .
    let ?v = "(free_filters lib (subs mv ! i))\<lparr>events_sent := 0\<rparr>"
    have s0: "slot_fits (s\<lparr>sp_sent := 0\<rparr>) ?v []" using s(2) by (auto simp: slot_fits_def)
    obtain ok v h1 where c: "copy_filters_to_slot lib ?v ?fs h = (ok, v, h1)" by (rule prod_cases3)
    obtain s' gs' m2 where c': "copy_filters_to_slot_p ff (s\<lparr>sp_sent := 0\<rparr>) ?fs h m1 = Some (ok, s', h1, m2)"
      "slot_fits s' v gs'" "owns F (filters_cells gs' + R) m2" "sub_active v = sub_active ?v"
      using copy_filters_to_slot_owns [OF ff s0 s(3) len c] by metis
    have "row_fits (s', v, gs')" using c'(2,4) i(2) by (auto simp: row_fits_def slot_fits_def free_filters_def Let_def)
    from mgr_fits_set [OF T(1) this c'(3) r(3)] add Some s(1) c c'(1) show ?thesis
      by (auto simp: unf split: bool.splits)
  next
    case None
    show ?thesis
    proof (cases "of_nat SUB_MAX_PER_CONN \<le> (of_nat (conn_slots mv fd) :: u8) \<or> find_free_slot mv = None")
      case True
      with None add fits show ?thesis by (auto simp: unf split: if_splits)
    next
      case False
      then obtain i where f: "find_free_slot mv = Some i" by auto
      then have i: "i < length (subs mv)" "\<not> sub_active (subs mv ! i)"
        using find_slot_SomeD [of "\<lambda>s. \<not> sub_active s" "subs mv" i] by (simp_all add: find_free_slot_def)
      obtain gs R where r: "row_fits (smp_subs mp ! i, subs mv ! i, gs)" "owns F (filters_cells gs + R) m"
        "\<forall>t. rows_cells (T[i := t]) = row_cells t + R" by (rule table_row [OF T(1) i(1) T(2)])
      have "gs = []" using r(1) i(2) by (auto simp: row_fits_def slot_fits_def)
      with r(2) have R: "owns F R m" by simp
      let ?s = "zero_sub_p\<lparr>sp_id := strncpy_z sid SUB_MAX_ID_LEN, sp_fd := fd\<rparr>"
      let ?v = "zero_subscription\<lparr>sub_id := strncpy_z sid SUB_MAX_ID_LEN, conn_fd := fd\<rparr>"
      obtain ok v h1 where c: "copy_filters_to_slot lib ?v ?fs h = (ok, v, h1)" by (rule prod_cases3)
      obtain s' gs' m2 where c': "copy_filters_to_slot_p ff ?s ?fs h m = Some (ok, s', h1, m2)"
        "slot_fits s' v gs'" "owns F (filters_cells gs' + R) m2"
        using copy_filters_to_slot_owns [OF ff slot_fits_zero(1) R len c] by metis
      show ?thesis
      proof (cases ok)
        case True
        have "row_fits (s'\<lparr>sp_active := True\<rparr>, v\<lparr>sub_active := True\<rparr>, gs')" using c'(2) by (auto simp: row_fits_def slot_fits_def)
        from mgr_fits_active [OF mgr_fits_set [OF T(1) this c'(3) r(3)], of "active_count mv + 1"] table_fits_active [OF T(1)]
          add None False f c c'(1) True show ?thesis by (auto simp: unf)
      next
        case ok: False
        obtain m3 where "clear_subscription_p ff s' m2 = Some (zero_sub_p, m3)" "owns F R m3"
          using clear_subscription_owns [OF ff c'(2,3)] .
        with mgr_fits_set [OF T(1) zero_row _ r(3), where F = F and m = m3] add None False f c c'(1) ok
        show ?thesis by (auto simp: unf)
      qed
    qed
  qed
qed

lemma remove_owns:
  assumes ff: "filter_free_ok ff" and fits: "mgr_fits F mp mv m"
    and rem: "sub_manager_remove lib mv fd sid = (e, mv')"
  shows "\<exists>mp' m'. sub_manager_remove_p ff mp fd sid m = Some (e, mp', m') \<and> mgr_fits F mp' mv' m'"
proof -
  from fits obtain T where T: "table_fits mp mv T" "owns F (rows_cells T) m" by (auto simp: mgr_fits_def)
  note unf = sub_manager_remove_p_def sub_manager_remove_def table_scans [OF T(1)]
  show ?thesis
  proof (cases "sub_manager_find mv fd sid")
    case (Some i)
    note i = find_view [OF Some]
    obtain gs R where r: "row_fits (smp_subs mp ! i, subs mv ! i, gs)" "owns F (filters_cells gs + R) m"
      "\<forall>t. rows_cells (T[i := t]) = row_cells t + R" by (rule table_row [OF T(1) i(1) T(2)])
    obtain m1 where c: "clear_subscription_p ff (smp_subs mp ! i) m = Some (zero_sub_p, m1)" "owns F R m1"
      using clear_subscription_owns [OF ff row_fits_slot [OF r(1)] r(2)] .
    have "mgr_fits F (set_slot_p mp i zero_sub_p) (set_slot mv i zero_subscription) m1"
      using mgr_fits_set [OF T(1) zero_row _ r(3), where F = F and m = m1] c(2) by simp
    from mgr_fits_active [OF this, of "active_count mv - 1"] table_fits_active [OF T(1)] Some c(1) rem
    show ?thesis by (auto simp: unf)
  qed (use rem fits in \<open>auto simp: unf\<close>)
qed

lemma remove_all_loop_owns:
  assumes ff: "filter_free_ok ff"
  shows "\<forall>t \<in> set T. row_fits t \<Longrightarrow> owns F (rows_cells T + R) m \<Longrightarrow>
    remove_all_loop lib fd (map (fst \<circ> snd) T) n = (vs, k) \<Longrightarrow>
    \<exists>ss m' T'. remove_all_loop_p ff fd (map fst T) n m = Some (ss, k, m') \<and> ss = map fst T' \<and>
      vs = map (fst \<circ> snd) T' \<and> (\<forall>t \<in> set T'. row_fits t) \<and> owns F (rows_cells T' + R) m'"
proof (induction T arbitrary: n m vs R)
  case Nil
  then show ?case by (intro exI [of _ "[]"]) auto
next
  case (Cons t T)
  let ?b = "sub_active (fst (snd t)) \<and> conn_fd (fst (snd t)) = fd"
  have t: "row_fits t" using Cons.prems(1) by simp
  let ?u = "if ?b then (zero_sub_p, zero_subscription, []) else t" and ?n = "if ?b then n - 1 else n"
  have o: "owns F (filters_cells (snd (snd t)) + (rows_cells T + R)) m" using Cons.prems(2) by (simp add: row_cells_def ac_simps)
  have "\<exists>m1. (if sp_active (fst t) \<and> sp_fd (fst t) = fd
        then do { (s, m) \<leftarrow> clear_subscription_p ff (fst t) m; Some (s, n - 1, m) } else Some (fst t, n, m)) =
      Some (fst ?u, ?n, m1) \<and> owns F (rows_cells T + (row_cells ?u + R)) m1"
  proof (cases ?b)
    case True
    with clear_subscription_owns [OF ff row_fits_slot [of "fst t" "fst (snd t)" "snd (snd t)"] o] t obtain m1 where
      "clear_subscription_p ff (fst t) m = Some (zero_sub_p, m1)" "owns F (rows_cells T + R) m1" by auto
    with True t show ?thesis by (auto simp: row_fits_eqs row_cells_def)
  next
    case False
    with t o show ?thesis by (auto simp: row_fits_eqs row_cells_def ac_simps)
  qed
  then obtain m1 where m1: "(if sp_active (fst t) \<and> sp_fd (fst t) = fd
        then do { (s, m) \<leftarrow> clear_subscription_p ff (fst t) m; Some (s, n - 1, m) } else Some (fst t, n, m)) =
      Some (fst ?u, ?n, m1)" "owns F (rows_cells T + (row_cells ?u + R)) m1" by blast
  obtain vs1 where vs: "remove_all_loop lib fd (map (fst \<circ> snd) T) ?n = (vs1, k)" "vs = fst (snd ?u) # vs1"
    using Cons.prems(3) by (auto simp: comp_def split: if_splits prod.splits)
  from Cons.IH [OF _ m1(2) vs(1)] Cons.prems(1) obtain ss m2 T' where
    "remove_all_loop_p ff fd (map fst T) ?n m1 = Some (ss, k, m2)" "ss = map fst T'" "vs1 = map (fst \<circ> snd) T'"
    "\<forall>t \<in> set T'. row_fits t" "owns F (rows_cells T' + (row_cells ?u + R)) m2" by auto
  moreover have "row_fits ?u" using t zero_row by simp
  ultimately show ?case using m1(1) vs(2)
    by (intro exI [of _ "fst ?u # ss"] exI [of _ m2] exI [of _ "?u # T'"]) (simp add: ac_simps)
qed

lemma remove_all_owns:
  assumes "filter_free_ok ff" and "mgr_fits F mp mv m"
  shows "\<exists>mp' m'. sub_manager_remove_all_p ff mp fd m = Some (mp', m') \<and>
    mgr_fits F mp' (sub_manager_remove_all lib mv fd) m'"
proof -
  from assms(2) obtain T where T: "table_fits mp mv T" "owns F (rows_cells T + {#}) m" by (auto simp: mgr_fits_def)
  obtain vs k where l: "remove_all_loop lib fd (map (fst \<circ> snd) T) (active_count mv) = (vs, k)" by force
  with remove_all_loop_owns [OF assms(1) _ T(2) l] T(1) show ?thesis
    by (fastforce simp: sub_manager_remove_all_p_def sub_manager_remove_all_def table_fits_def mgr_fits_def)
qed

text \<open>A filter that is owned can be read.\<close>

lemma those_map: "(\<And>x. x \<in> set xs \<Longrightarrow> f x = Some (g x)) \<Longrightarrow> those (map f xs) = Some (map g xs)"
  by (induction xs) auto

lemma owns_in: "owns F M m \<Longrightarrow> (p, c) \<in># M \<Longrightarrow> cells m p = Some c"
  using owns_read [of F p c "M - {#(p, c)#}" m] by simp

lemma read_strs_owns:
  assumes "owns F M m" and "strs_cells g \<subseteq># M"
  shows "read_strs (ptr_at g) (length (strs_val g)) m = Some (strs_val g)"
proof (cases g)
  case (Some q)
  obtain a qs where q: "q = (a, qs)" by force
  have c: "(p, c) \<in># strs_cells g \<Longrightarrow> cells m p = Some c" for p c
    using owns_in [OF assms(1)] mset_subset_eqD [OF assms(2)] by blast
  have "cells m p = Some (Str_Cell s)" if "(p, s) \<in> set qs" for p s
    using that by (intro c) (force simp: Some q str_cells_def zip_map_map zip_same_conv_map)
  then have "those (map (read_str m) (map fst qs)) = Some (map snd qs)"
    unfolding map_map by (intro those_map) (auto simp: read_str_def)
  moreover have "cells m a = Some (Strs_Cell (length qs) (map fst qs))" by (rule c) (simp add: Some q)
  ultimately show ?thesis by (auto simp: read_strs_def read_ptrs_def Some q)
qed (simp add: read_strs_def read_ptrs_def)

lemma filter_cells_parts:
  "strs_cells (at_ids g) \<subseteq># filter_cells g" "strs_cells (at_authors g) \<subseteq># filter_cells g"
  "ints_cells (at_kinds g) \<subseteq># filter_cells g" "strs_cells (at_e_tags g) \<subseteq># filter_cells g"
  "strs_cells (at_p_tags g) \<subseteq># filter_cells g" "tags_cells (at_tags g) \<subseteq># filter_cells g"
  by (simp_all add: filter_cells_def subseteq_mset_def)

lemma strs_cells_values: "t \<in> set ts \<Longrightarrow> strs_cells (snd t) \<subseteq># tag_values_cells ts"
  by (induction ts) (auto simp: subseteq_mset_def trans_le_add2)

lemma read_ints_owns:
  assumes "owns F M m" and "ints_cells g \<subseteq># M"
  shows "read_ints (ptr_at g) (length (ints_val g)) m = Some (ints_val g)"
proof (cases g)
  case (Some q)
  obtain a xs where q: "q = (a, xs)" by force
  have "cells m a = Some (Ints_Cell xs)" using owns_in [OF assms(1)] assms(2) by (simp add: Some q)
  then show ?thesis by (auto simp: read_ints_def Some q)
qed (simp add: read_ints_def)

lemma read_tags_owns:
  assumes "owns F M m" and "tags_cells g \<subseteq># M"
  shows "do { ts \<leftarrow> read_tags (ptr_at g) (length (tags_val g)) m; those (map (read_tag m) ts) } = Some (tags_val g)"
proof (cases g)
  case (Some q)
  obtain a ts where q: "q = (a, ts)" by force
  have "(a, Tags_Cell (length ts) (map tag_at ts)) \<in># M" "tag_values_cells ts \<subseteq># M"
    using assms(2) by (auto simp: Some q insert_subset_eq_iff intro: subset_mset.order_trans)
  then have c: "cells m a = Some (Tags_Cell (length ts) (map tag_at ts))" and s: "tag_values_cells ts \<subseteq># M"
    using owns_in [OF assms(1)] by auto
  have "read_strs (ptr_at (snd t)) (length (strs_val (snd t))) m = Some (strs_val (snd t))" if "t \<in> set ts" for t
    using read_strs_owns [OF assms(1)] strs_cells_values [OF that] s by (blast intro: subset_mset.order_trans)
  then have "those (map (read_tag m) (map tag_at ts)) = Some (map (\<lambda>t. (fst t, strs_val (snd t))) ts)"
    unfolding map_map by (intro those_map) (simp add: read_tag_def tag_at_def)
  with c show ?thesis by (auto simp: read_tags_def Some q case_prod_beta)
qed (simp add: read_tags_def)

lemma read_filter_owns:
  assumes "owns F M m" and "filter_cells g \<subseteq># M"
  shows "read_filter_p m (filter_ptr g) = Some (filter_val g)"
proof -
  note le = subset_mset.order_trans [OF _ assms(2)]
  note rs = read_strs_owns [OF assms(1) le [OF filter_cells_parts(1)]] read_strs_owns [OF assms(1) le [OF filter_cells_parts(2)]]
    read_strs_owns [OF assms(1) le [OF filter_cells_parts(4)]] read_strs_owns [OF assms(1) le [OF filter_cells_parts(5)]]
    read_ints_owns [OF assms(1) le [OF filter_cells_parts(3)]]
  from read_tags_owns [OF assms(1) le [OF filter_cells_parts(6)]] obtain ts where
    "read_tags (ptr_at (at_tags g)) (length (tags_val (at_tags g))) m = Some ts"
    "those (map (read_tag m) ts) = Some (tags_val (at_tags g))" by (auto simp: Option.bind_eq_Some_conv)
  with rs show ?thesis by (simp add: read_filter_p_def filter_ptr_def filter_val_def)
qed

lemma filters_cells_parts: "g \<in> set gs \<Longrightarrow> filter_cells g \<subseteq># filters_cells gs"
  by (induction gs) (auto simp: subseteq_mset_def trans_le_add2)

lemma rows_cells_parts: "t \<in> set T \<Longrightarrow> row_cells t \<subseteq># rows_cells T"
  by (induction T) (auto simp: subseteq_mset_def trans_le_add2)

lemma read_row:
  assumes "owns F M m" and "row_cells t \<subseteq># M" and "row_fits t"
  shows "those (map (read_filter_p m) (take (unat (sp_count (fst t))) (sp_filters (fst t)))) =
    Some (take (unat (filter_count (fst (snd t)))) (sub_filters (fst (snd t))))"
proof -
  let ?gs = "snd (snd t)"
  have f: "slot_fits (fst t) (fst (snd t)) ?gs" using assms(3) by (simp add: row_fits_def)
  have "read_filter_p m (filter_ptr g) = Some (filter_val g)" if "g \<in> set ?gs" for g
    using read_filter_owns [OF assms(1)] filters_cells_parts [OF that] assms(2) unfolding row_cells_def
    by (blast intro: subset_mset.order_trans)
  then have "those (map (read_filter_p m) (map filter_ptr ?gs)) = Some (map filter_val ?gs)"
    unfolding map_map by (intro those_map) simp
  with f show ?thesis by (auto simp: slot_fits_def)
qed

lemma match_loop_owns:
  "owns F M m \<Longrightarrow> \<forall>t \<in> set T. row_fits t \<and> row_cells t \<subseteq># M \<Longrightarrow>
    match_loop_p lib ev (map fst T) res m = Some (match_loop lib ev (map (fst \<circ> snd) T) res)"
proof (induction T arbitrary: res)
  case (Cons t T)
  then have t: "row_fits t" "row_cells t \<subseteq># M" by auto
  from Cons.IH Cons.prems show ?case
    by (auto simp: row_fits_eqs [OF t(1)] read_row [OF Cons.prems(1) t(2,1)] comp_def)
qed simp

lemma match_owns:
  assumes "mgr_fits F mp mv m"
  shows "sub_manager_match_p lib mp ev m = Some (sub_manager_match lib mv ev)"
proof -
  from assms obtain T where T: "table_fits mp mv T" "owns F (rows_cells T) m" by (auto simp: mgr_fits_def)
  then have "\<forall>t \<in> set T. row_fits t \<and> row_cells t \<subseteq># rows_cells T" by (auto simp: table_fits_def rows_cells_parts)
  from match_loop_owns [OF T(2) this] T(1) show ?thesis
    by (simp add: sub_manager_match_p_def sub_manager_match_def table_fits_def)
qed

lemma destroy_loop_owns:
  assumes ff: "filter_free_ok ff"
  shows "\<forall>t \<in> set T. row_fits t \<Longrightarrow> owns F (rows_cells T) m \<Longrightarrow>
    \<exists>ss m'. destroy_loop_p ff (map fst T) m = Some (ss, m') \<and> owns F {#} m'"
proof (induction T arbitrary: m)
  case (Cons t T)
  have t: "row_fits t" using Cons.prems(1) by simp
  have o: "owns F (filters_cells (snd (snd t)) + rows_cells T) m" using Cons.prems(2) by (simp add: row_cells_def)
  have "\<exists>s m1. (if sp_active (fst t) then clear_subscription_p ff (fst t) m else Some (fst t, m)) = Some (s, m1) \<and>
      owns F (rows_cells T) m1"
  proof (cases "sp_active (fst t)")
    case True
    have f: "slot_fits (fst t) (fst (snd t)) (snd (snd t))" using t by (simp add: row_fits_def)
    obtain m1 where "clear_subscription_p ff (fst t) m = Some (zero_sub_p, m1)" "owns F (rows_cells T) m1"
      using clear_subscription_owns [OF ff f o] .
    with True show ?thesis by simp
  qed (use t o in \<open>simp add: row_fits_def\<close>)
  then obtain s m1 where "(if sp_active (fst t) then clear_subscription_p ff (fst t) m else Some (fst t, m)) = Some (s, m1)"
    "owns F (rows_cells T) m1" by blast
  with Cons.IH [of m1] Cons.prems(1) show ?case by auto
qed simp

lemma destroy_owns:
  assumes "filter_free_ok ff" and "mgr_fits F mp mv m"
  obtains mp' m' where "sub_manager_destroy_p ff mp m = Some (mp', m')" and "cells m' = F"
proof -
  from assms(2) obtain T where T: "table_fits mp mv T" "owns F (rows_cells T) m" by (auto simp: mgr_fits_def)
  with destroy_loop_owns [OF assms(1) _ T(2)] that show thesis
    by (auto simp: sub_manager_destroy_p_def table_fits_def owns_none)
qed

lemma no_subscription_no_memory:
  assumes "mgr_fits F mp mv m" and "\<forall>v \<in> set (subs mv). \<not> sub_active v"
  shows "cells m = F"
proof -
  from assms(1) obtain T where T: "table_fits mp mv T" "owns F (rows_cells T) m" by (auto simp: mgr_fits_def)
  have "row_cells t = {#}" if "t \<in> set T" for t
    using that T(1) assms(2) by (auto simp: table_fits_def row_fits_def row_cells_def slot_fits_def)
  then have "rows_cells T = {#}" by (rule rows_cells_none)
  with T(2) show ?thesis by (simp add: owns_none)
qed

lemma call_owns:
  assumes "filter_free_ok ff" and "mgr_fits F mp mv m" and "call_sub lib c mv h = (r, mv', h')"
  shows "\<exists>mp' m'. call_sub_p lib ff c mp h m = Some (r, mp', h', m') \<and> mgr_fits F mp' mv' m'"
proof (cases c)
  case (Sub_Add fd sid fs)
  with assms(3) add_owns [OF assms(1,2), of lib fd sid fs h] show ?thesis by (auto split: prod.splits)
next
  case (Sub_Remove fd sid)
  with assms(3) remove_owns [OF assms(1,2), of lib fd sid] show ?thesis by (auto split: prod.splits)
next
  case (Sub_Remove_All fd)
  with assms(3) remove_all_owns [OF assms(1,2), of fd lib] show ?thesis by auto
next
  case (Sub_Match ev)
  with assms(2,3) match_owns [OF assms(2), of lib ev] show ?thesis by auto
next
  case (Sub_Count fd)
  with assms(2,3) show ?thesis
    by (auto simp: mgr_fits_def sub_manager_count_p_def sub_manager_count_def table_scans(3))
qed

lemma calls_own:
  assumes ff: "filter_free_ok ff"
  shows "mgr_fits F mp mv m \<Longrightarrow> sub_calls lib cs mv h = (rs, mv', h') \<Longrightarrow>
    \<exists>mp' m'. sub_calls_p lib ff cs mp h m = Some (rs, mp', h', m') \<and> mgr_fits F mp' mv' m'"
proof (induction cs arbitrary: mp mv m h rs)
  case (Cons c cs)
  obtain r mv1 h1 where c: "call_sub lib c mv h = (r, mv1, h1)" by (rule prod_cases3)
  with Cons.prems(2) obtain rs1 where rs: "sub_calls lib cs mv1 h1 = (rs1, mv', h')" "rs = r # rs1"
    by (auto split: prod.splits)
  from call_owns [OF ff Cons.prems(1) c] obtain mp1 m1 where
    "call_sub_p lib ff c mp h m = Some (r, mp1, h1, m1)" "mgr_fits F mp1 mv1 m1" by blast
  with Cons.IH [OF this(2) rs(1)] rs(2) show ?case by auto
qed simp

lemma init_fits:
  assumes "mem_ok m"
  shows "mgr_fits (cells m) (snd (sub_manager_init_p ok)) (snd (sub_manager_init ok)) m"
proof -
  let ?T = "replicate SUB_MAX_TOTAL (zero_sub_p, zero_subscription, [])"
  have "rows_cells ?T = {#}" by (rule rows_cells_none) (simp add: row_cells_def)
  moreover have "table_fits (snd (sub_manager_init_p ok)) (snd (sub_manager_init ok)) ?T"
    by (simp add: table_fits_def sub_manager_init_p_def sub_manager_init_def zero_row)
  ultimately show ?thesis using assms by (auto simp: mgr_fits_def owns_none intro!: exI [of _ ?T])
qed

section \<open>How much memory the copies take\<close>

text \<open>The blocks a copy of a filter takes at most: an array for each list, and its strings.\<close>

definition filter_blocks :: "nostr_filter \<Rightarrow> nat" where
  "filter_blocks f = 6 + length (f_ids f) + length (f_authors f) + length (f_e_tags f) + length (f_p_tags f) +
     sum_list (map (\<lambda>t. 1 + length (snd t)) (f_generic_tags f))"

definition sub_blocks :: "sub_manager \<Rightarrow> nat" where
  "sub_blocks mgr = sum_list (map (\<lambda>s. sum_list (map filter_blocks (live_filters s))) (subs mgr))"

lemma size_strs_cells: "size (strs_cells g) \<le> 1 + length (strs_val g)"
  by (cases g) (auto simp: str_cells_def)

lemma size_tag_values: "size (tag_values_cells ts) \<le> sum_list (map (\<lambda>t. 1 + length (strs_val (snd t))) ts)"
proof (induction ts)
  case (Cons t ts)
  with size_strs_cells [of "snd t"] show ?case by simp
qed simp

lemma size_tags_cells: "size (tags_cells g) \<le> 1 + sum_list (map (\<lambda>t. 1 + length (snd t)) (tags_val g))"
proof (cases g)
  case (Some q)
  obtain a ts where "q = (a, ts)" by force
  with Some size_tag_values [of ts] show ?thesis by (simp add: comp_def case_prod_beta)
qed simp

lemma size_filter_cells: "size (filter_cells g) \<le> filter_blocks (filter_val g)"
proof -
  have "size (ints_cells (at_kinds g)) \<le> 1" by (cases "at_kinds g") auto
  with size_strs_cells [of "at_ids g"] size_strs_cells [of "at_authors g"] size_strs_cells [of "at_e_tags g"]
    size_strs_cells [of "at_p_tags g"] size_tags_cells [of "at_tags g"]
  show ?thesis by (simp add: filter_cells_def filter_blocks_def filter_val_def)
qed

lemma size_filters_cells: "size (filters_cells gs) \<le> sum_list (map filter_blocks (map filter_val gs))"
  by (induction gs) (simp_all add: add_mono size_filter_cells)

lemma size_rows_cells:
  "\<forall>t \<in> set T. row_fits t \<Longrightarrow>
    size (rows_cells T) \<le> sum_list (map (\<lambda>s. sum_list (map filter_blocks (live_filters s))) (map (fst \<circ> snd) T))"
proof (induction T)
  case (Cons t T)
  have "live_filters (fst (snd t)) = map filter_val (snd (snd t))"
    using Cons.prems by (auto simp: row_fits_def slot_fits_def live_filters_def)
  then have "size (row_cells t) \<le> sum_list (map filter_blocks (live_filters (fst (snd t))))"
    using size_filters_cells [of "snd (snd t)"] by (simp add: row_cells_def)
  with Cons show ?case by (simp add: add_mono)
qed simp

lemma mgr_fits_blocks:
  assumes "mgr_fits F mp mv m"
  shows "card (dom (cells m) - dom F) \<le> sub_blocks mv"
proof -
  from assms obtain T where T: "table_fits mp mv T" "owns F (rows_cells T) m" by (auto simp: mgr_fits_def)
  with size_rows_cells [of T] show ?thesis by (simp add: owns_card [OF T(2)] sub_blocks_def table_fits_def)
qed

section \<open>Properties\<close>


section \<open>A library that releases filters\<close>

definition free_array :: "addr option \<Rightarrow> nat \<Rightarrow> sub_mem \<Rightarrow> sub_mem option" where
  "free_array p n m =
     (if p = None then Some m else free_values \<lparr>tp_name = CHR ''x'', tp_count = n, tp_values = p\<rparr> m)"

definition demo_filter_free :: filter_free where
  "demo_filter_free d m = do {
     m \<leftarrow> free_array (p_ids d) (n_ids d) m;
     m \<leftarrow> free_array (p_authors d) (n_authors d) m;
     m \<leftarrow> free_ptr (p_kinds d) m;
     m \<leftarrow> free_array (p_e_tags d) (n_e_tags d) m;
     m \<leftarrow> free_array (p_p_tags d) (n_p_tags d) m;
     ts \<leftarrow> (if p_generic_tags d = None then Some [] else read_tags (p_generic_tags d) (n_generic_tags d) m);
     m \<leftarrow> free_tag_values ts m;
     m \<leftarrow> free_ptr (p_generic_tags d) m;
     Some (zero_filter_p, m) }"

lemma free_array_owns:
  assumes "counts g (strs_val g) n" and "owns F (strs_cells g + R) m"
  shows "\<exists>m'. free_array (ptr_at g) n m = Some m' \<and> owns F R m'"
  using assms free_values_owns [of F "(CHR ''x'', g)" R m]
  by (cases g) (auto simp: free_array_def counts_def tag_at_def)

lemma free_ints_owns:
  assumes "owns F (ints_cells g + R) m"
  shows "\<exists>m'. free_ptr (ptr_at g) m = Some m' \<and> owns F R m'"
  using assms owns_free [of F _ _ R m] by (cases g) (auto simp: free_ptr_def)

lemma free_tags_owns:
  assumes "counts g (tags_val g) n" and "owns F (tags_cells g + R) m"
  shows "\<exists>m'. do { ts \<leftarrow> (if ptr_at g = None then Some [] else read_tags (ptr_at g) n m); m \<leftarrow> free_tag_values ts m;
      free_ptr (ptr_at g) m } = Some m' \<and> owns F R m'"
proof (cases g)
  case (Some q)
  obtain a ts where q: "q = (a, ts)" by force
  let ?c = "(a, Tags_Cell (length ts) (map tag_at ts))"
  have o: "owns F (tag_values_cells ts + add_mset ?c R) m" using assms(2) by (simp add: Some q ac_simps)
  then have "cells m a = Some (Tags_Cell (length ts) (map tag_at ts))" by (rule owns_in) simp
  then have "read_tags (Some a) n m = Some (map tag_at ts)" using assms(1) by (auto simp: Some q read_tags_def counts_def)
  moreover obtain m1 where "free_tag_values (map tag_at ts) m = Some m1" "owns F (add_mset ?c R) m1"
    using free_tag_values_owns [OF o] by blast
  moreover from owns_free [OF this(2)] obtain m2 where "mem_free a m1 = Some m2" "owns F R m2" by blast
  ultimately show ?thesis by (simp add: Some q free_ptr_def)
qed (use assms in \<open>simp add: free_ptr_def\<close>)

lemma demo_filter_free_ok: "filter_free_ok demo_filter_free"
  unfolding filter_free_ok_def
proof (intro allI impI)
  fix d g F R m assume p: "points_to d g" and "owns F (filter_cells g + R) m"
  then have "owns F (strs_cells (at_ids g) + (strs_cells (at_authors g) + (ints_cells (at_kinds g) +
     (strs_cells (at_e_tags g) + (strs_cells (at_p_tags g) + (tags_cells (at_tags g) + R)))))) m"
    by (simp add: filter_cells_def ac_simps)
  moreover note c = p [unfolded points_to_def]
  ultimately obtain m1 where m1: "free_array (p_ids d) (n_ids d) m = Some m1" "owns F (strs_cells (at_authors g) +
     (ints_cells (at_kinds g) + (strs_cells (at_e_tags g) + (strs_cells (at_p_tags g) + (tags_cells (at_tags g) + R))))) m1"
    using free_array_owns by metis
  obtain m2 where m2: "free_array (p_authors d) (n_authors d) m1 = Some m2" "owns F (ints_cells (at_kinds g) +
     (strs_cells (at_e_tags g) + (strs_cells (at_p_tags g) + (tags_cells (at_tags g) + R)))) m2"
    using free_array_owns [OF _ m1(2)] c by metis
  obtain m3 where m3: "free_ptr (p_kinds d) m2 = Some m3"
    "owns F (strs_cells (at_e_tags g) + (strs_cells (at_p_tags g) + (tags_cells (at_tags g) + R))) m3"
    using free_ints_owns [OF m2(2)] c by metis
  obtain m4 where m4: "free_array (p_e_tags d) (n_e_tags d) m3 = Some m4"
    "owns F (strs_cells (at_p_tags g) + (tags_cells (at_tags g) + R)) m4"
    using free_array_owns [OF _ m3(2)] c by metis
  obtain m5 where m5: "free_array (p_p_tags d) (n_p_tags d) m4 = Some m5" "owns F (tags_cells (at_tags g) + R) m5"
    using free_array_owns [OF _ m4(2)] c by metis
  obtain m6 where "do { ts \<leftarrow> (if p_generic_tags d = None then Some [] else read_tags (p_generic_tags d) (n_generic_tags d) m5);
      m \<leftarrow> free_tag_values ts m5; free_ptr (p_generic_tags d) m } = Some m6" "owns F R m6"
    using free_tags_owns [OF _ m5(2)] c by metis
  with m1(1) m2(1) m3(1) m4(1) m5(1) show "\<exists>d' m'. demo_filter_free d m = Some (d', m') \<and> owns F R m'"
    by (auto simp: demo_filter_free_def Option.bind_eq_Some_conv split: if_splits)
qed

text \<open>
  A run in which the copy of a second filter fails at its second string; the subscription added
  before is then replaced.  A copy takes seven blocks.
\<close>

definition demo_copied :: nostr_filter where
  "demo_copied = zero_filter\<lparr>f_ids := [''ab'', ''cd''], f_kinds := [1], f_generic_tags := [(CHR ''t'', [''x''])]\<rparr>"

definition demo_calls :: "sub_call list" where
  "demo_calls = [Sub_Add 54 ''feed'' [demo_copied], Sub_Add 54 ''more'' [demo_copied, demo_copied],
     Sub_Add 54 ''feed'' [demo_copied], Sub_Count 54]"

definition demo_failing :: heap where "demo_failing = replicate 16 True @ [False]"

definition demo_run :: "sub_reply list \<times> sub_manager \<times> heap" where
  "demo_run = sub_calls (demo_lib []) demo_calls (snd (sub_manager_init True)) demo_failing"

lemma demo_run_facts:
  "fst demo_run = [Code_Reply NOSTR_RELAY_OK, Code_Reply NOSTR_RELAY_ERR_MEMORY, Code_Reply NOSTR_RELAY_OK, Count_Reply 1]"
  "snd (snd demo_run) = []" "sub_blocks (fst (snd demo_run)) = 10"
  by code_simp+


end
