(* ===== verification/Send_Memory.thy ===== *)
theory Send_Memory
  imports Ws_Server Owned_Memory
begin

text \<open>
  The work items of \<open>ws_server_send\<close> (\<open>main/ws_server.c\<close>) at the level of pointers: the argument
  of \<open>ws_async_send\<close> and the copy of the frame it points to.  \<open>ws_server_send\<close> allocates them,
  the HTTP server keeps the pointer in its queue, \<open>ws_async_send\<close> releases them.
\<close>

section \<open>Work items\<close>

text \<open>\<open>async_send_arg_t\<close> (before its fields are set it only has its address) and a buffer.\<close>

datatype work_cell =
    Unset_Cell
  | Arg_Cell int addr
  | Frame_Cell string

type_synonym work_mem = "work_cell mem"

definition read_arg :: "addr \<Rightarrow> work_mem \<Rightarrow> (int \<times> addr) option" where
  "read_arg a m = (case cells m a of Some (Arg_Cell fd d) \<Rightarrow> Some (fd, d) | _ \<Rightarrow> None)"

definition read_frame :: "addr \<Rightarrow> work_mem \<Rightarrow> string option" where
  "read_frame d m = (case cells m d of Some (Frame_Cell s) \<Rightarrow> Some s | _ \<Rightarrow> None)"

text \<open>
  The state is that of \<open>Ws_Server\<close> but for the queue, which holds the pointers given to
  \<open>httpd_queue_work\<close>.
\<close>

definition ws_server_send_p ::
    "send_env \<Rightarrow> int \<Rightarrow> string \<Rightarrow> ws_state \<Rightarrow> addr list \<Rightarrow> work_mem \<Rightarrow>
     (esp_err \<times> ws_state \<times> addr list \<times> work_mem) option" where
  "ws_server_send_p env fd data st q m =
     (if \<not> ws_httpd (ws st) then Some (ESP_ERR_INVALID_STATE, st, q, m)
      else if g_current_req st = Some fd then Some (sd_sync env, emit (Out_Frame fd WS_TEXT data) st, q, m)
      else if \<not> sd_arg env then Some (ESP_ERR_NO_MEM, st, q, m)
      else
        let (arg, m) = mem_new Unset_Cell m in
        if \<not> sd_data env then do { m \<leftarrow> mem_free arg m; Some (ESP_ERR_NO_MEM, st, q, m) }
        else
          let (d, m) = mem_new (Frame_Cell data) m in
          do {
            m \<leftarrow> mem_write arg (Arg_Cell fd d) m;
            if sd_queue env \<noteq> ESP_OK then do {
              (fd, d) \<leftarrow> read_arg arg m;
              m \<leftarrow> mem_free d m;
              m \<leftarrow> mem_free arg m;
              Some (sd_queue env, st, q, m) }
            else Some (ESP_OK, emit (Out_Queued fd data) st, q @ [arg], m) })"

text \<open>The HTTP server calls \<open>ws_async_send\<close> with the first pointer of its queue.\<close>

definition ws_async_send_p ::
    "ws_state \<Rightarrow> addr list \<Rightarrow> work_mem \<Rightarrow> (ws_state \<times> addr list \<times> work_mem) option" where
  "ws_async_send_p st q m =
     (case q of
        [] \<Rightarrow> Some (st, [], m)
      | arg # q \<Rightarrow> do {
          (fd, d) \<leftarrow> read_arg arg m;
          data \<leftarrow> read_frame d m;
          m \<leftarrow> mem_free d m;
          m \<leftarrow> mem_free arg m;
          Some (emit (Out_Async fd data) st, q, m) })"

section \<open>Runs\<close>

text \<open>A request begins or ends (\<open>ws_handler\<close> sets \<open>g_current_req\<close>), a frame is sent, a work item runs.\<close>

datatype send_step =
    Request "int option"
  | Send send_env int string
  | Work

fun send_run :: "send_step list \<Rightarrow> ws_state \<Rightarrow> esp_err list \<times> ws_state" where
  "send_run [] st = ([], st)"
| "send_run (Request r # xs) st = send_run xs (st\<lparr>g_current_req := r\<rparr>)"
| "send_run (Send env fd data # xs) st =
     (let (e, st) = ws_server_send env fd data st; (es, st) = send_run xs st in (e # es, st))"
| "send_run (Work # xs) st = send_run xs (ws_async_send st)"

fun send_run_p ::
    "send_step list \<Rightarrow> ws_state \<Rightarrow> addr list \<Rightarrow> work_mem \<Rightarrow>
     (esp_err list \<times> ws_state \<times> addr list \<times> work_mem) option" where
  "send_run_p [] st q m = Some ([], st, q, m)"
| "send_run_p (Request r # xs) st q m = send_run_p xs (st\<lparr>g_current_req := r\<rparr>) q m"
| "send_run_p (Send env fd data # xs) st q m = do {
     (e, st, q, m) \<leftarrow> ws_server_send_p env fd data st q m;
     (es, st, q, m) \<leftarrow> send_run_p xs st q m;
     Some (e # es, st, q, m) }"
| "send_run_p (Work # xs) st q m = do {
     (st, q, m) \<leftarrow> ws_async_send_p st q m;
     send_run_p xs st q m }"

section \<open>The queue owns two blocks for each work item\<close>

text \<open>A work item: its address, that of its buffer, the socket and the frame.\<close>

type_synonym work_at = "addr \<times> addr \<times> int \<times> string"

fun work_cells :: "work_at list \<Rightarrow> (addr \<times> work_cell) multiset" where
  "work_cells [] = {#}"
| "work_cells ((a, d, fd, s) # W) = add_mset (a, Arg_Cell fd d) (add_mset (d, Frame_Cell s) (work_cells W))"

definition queue_fits :: "(addr \<rightharpoonup> work_cell) \<Rightarrow> ws_state \<Rightarrow> ws_state \<Rightarrow> addr list \<Rightarrow> work_mem \<Rightarrow> bool" where
  "queue_fits F st sp q m \<longleftrightarrow>
     (\<exists>W. q = map fst W \<and> ws_queue st = map (snd \<circ> snd) W \<and> owns F (work_cells W) m) \<and>
     st = sp\<lparr>ws_queue := ws_queue st\<rparr>"

lemma work_cells_append: "work_cells (V @ W) = work_cells V + work_cells W"
  by (induction V rule: work_cells.induct) simp_all

lemma size_work_cells: "size (work_cells W) = 2 * length W"
  by (induction W rule: work_cells.induct) simp_all

lemma emit_queue: "emit out (st\<lparr>ws_queue := q\<rparr>) = (emit out st)\<lparr>ws_queue := q\<rparr>" "ws_queue (emit out st) = ws_queue st"
  by (simp_all add: emit_def)

lemma queue_fitsI:
  assumes "owns F (work_cells W) m" and "st = sp\<lparr>ws_queue := map (snd \<circ> snd) W\<rparr>"
  shows "queue_fits F st sp (map fst W) m"
  using assms by (auto simp: queue_fits_def)

lemma queue_fitsE:
  assumes "queue_fits F st sp q m"
  obtains W where "q = map fst W" and "owns F (work_cells W) m" and "st = sp\<lparr>ws_queue := map (snd \<circ> snd) W\<rparr>"
  using assms unfolding queue_fits_def by metis

lemma send_fits:
  assumes fits: "queue_fits F st sp q m" and send: "ws_server_send env fd data st = (e, st')"
  shows "\<exists>sp' q' m'. ws_server_send_p env fd data sp q m = Some (e, sp', q', m') \<and> queue_fits F st' sp' q' m'"
proof -
  from fits obtain W where W: "q = map fst W" "owns F (work_cells W) m" "st = sp\<lparr>ws_queue := map (snd \<circ> snd) W\<rparr>"
    by (rule queue_fitsE)
  note unf = ws_server_send_p_def ws_server_send_def W(1,3) emit_queue
  consider "\<not> ws_httpd (ws sp) \<or> g_current_req sp = Some fd \<or> \<not> sd_arg env"
    | "ws_httpd (ws sp)" "g_current_req sp \<noteq> Some fd" "sd_arg env" by blast
  then show ?thesis
  proof cases
    case 1
    with send W(2) show ?thesis by (auto simp: unf split: if_splits intro!: queue_fitsI)
  next
    case 2
    obtain a m1 where a: "mem_new Unset_Cell m = (a, m1)" by force
    note o1 = owns_new [OF W(2) a]
    from owns_free [OF o1] obtain m1' where f1: "mem_free a m1 = Some m1'" "owns F (work_cells W) m1'" by blast
    obtain d m2 where d: "mem_new (Frame_Cell data) m1 = (d, m2)" by force
    have "owns F (add_mset (a, Unset_Cell) (add_mset (d, Frame_Cell data) (work_cells W))) m2"
      using owns_new [OF o1 d] by (simp add: add_mset_commute)
    from owns_write [OF this] obtain m3 where w: "mem_write a (Arg_Cell fd d) m2 = Some m3"
      "owns F (add_mset (a, Arg_Cell fd d) (add_mset (d, Frame_Cell data) (work_cells W))) m3" by blast
    then have "owns F (add_mset (d, Frame_Cell data) (add_mset (a, Arg_Cell fd d) (work_cells W))) m3"
      by (simp add: add_mset_commute)
    from owns_free [OF this] obtain m4 where f4: "mem_free d m3 = Some m4" "owns F (add_mset (a, Arg_Cell fd d) (work_cells W)) m4"
      by blast
    from owns_free [OF this(2)] obtain m5 where f5: "mem_free a m4 = Some m5" "owns F (work_cells W) m5" by blast
    have r: "read_arg a m3 = Some (fd, d)" using owns_read [OF w(2)] by (simp add: read_arg_def)
    let ?W = "W @ [(a, d, fd, data)]"
    have "owns F (work_cells ?W) m3" using w(2) by (simp add: work_cells_append)
    from queue_fitsI [OF this refl] have new: "queue_fits F (sp'\<lparr>ws_queue := map (snd \<circ> snd) ?W\<rparr>) sp' (map fst W @ [a]) m3" for sp'
      by simp
    show ?thesis
    proof (cases "sd_data env \<and> sd_queue env = ESP_OK")
      case True
      with 2 send a d w(1) new [of "emit (Out_Queued fd data) sp"] show ?thesis by (auto simp: unf)
    next
      case False
      with 2 send a f1 d w(1) r f4(1) f5 show ?thesis by (auto simp: unf intro!: queue_fitsI)
    qed
  qed
qed

lemma work_fits:
  assumes "queue_fits F st sp q m"
  shows "\<exists>sp' q' m'. ws_async_send_p sp q m = Some (sp', q', m') \<and> queue_fits F (ws_async_send st) sp' q' m'"
proof -
  from assms obtain W where W: "q = map fst W" "owns F (work_cells W) m" "st = sp\<lparr>ws_queue := map (snd \<circ> snd) W\<rparr>"
    by (rule queue_fitsE)
  show ?thesis
  proof (cases W)
    case Nil
    with assms W show ?thesis by (auto simp: ws_async_send_p_def ws_async_send_def)
  next
    case (Cons w V)
    obtain a d fd s where w: "w = (a, d, fd, s)" by (rule prod_cases4)
    have o: "owns F (add_mset (a, Arg_Cell fd d) (add_mset (d, Frame_Cell s) (work_cells V))) m" using W(2) Cons w by simp
    then have o': "owns F (add_mset (d, Frame_Cell s) (add_mset (a, Arg_Cell fd d) (work_cells V))) m"
      by (simp add: add_mset_commute)
    from owns_free [OF o'] obtain m1 where m1: "mem_free d m = Some m1" "owns F (add_mset (a, Arg_Cell fd d) (work_cells V)) m1"
      by blast
    from owns_free [OF m1(2)] obtain m2 where m2: "mem_free a m1 = Some m2" "owns F (work_cells V) m2" by blast
    from queue_fitsI [OF m2(2) refl] m1(1) m2(1) owns_read [OF o] owns_read [OF o'] W Cons w show ?thesis
      by (auto simp: ws_async_send_p_def ws_async_send_def read_arg_def read_frame_def emit_queue)
  qed
qed

lemma run_fits:
  "queue_fits F st sp q m \<Longrightarrow> send_run xs st = (es, st') \<Longrightarrow>
    \<exists>sp' q' m'. send_run_p xs sp q m = Some (es, sp', q', m') \<and> queue_fits F st' sp' q' m'"
proof (induction xs st arbitrary: sp q m es rule: send_run.induct)
  case (2 r xs st)
  from 2(2) obtain W where W: "q = map fst W" "owns F (work_cells W) m" "st = sp\<lparr>ws_queue := map (snd \<circ> snd) W\<rparr>"
    by (rule queue_fitsE)
  have "queue_fits F (st\<lparr>g_current_req := r\<rparr>) (sp\<lparr>g_current_req := r\<rparr>) (map fst W) m"
    by (rule queue_fitsI [OF W(2)]) (simp add: W(3))
  with 2(1,3) W(1) show ?case by simp
next
  case (3 env fd data xs st)
  obtain e st1 where s: "ws_server_send env fd data st = (e, st1)" by force
  from send_fits [OF 3(2) s] obtain sp1 q1 m1 where
    "ws_server_send_p env fd data sp q m = Some (e, sp1, q1, m1)" "queue_fits F st1 sp1 q1 m1" by blast
  with 3(1) [OF s [symmetric] refl] 3(3) s show ?case by (fastforce split: prod.splits)
next
  case (4 xs st)
  from work_fits [OF 4(2)] obtain sp1 q1 m1 where
    "ws_async_send_p sp q m = Some (sp1, q1, m1)" "queue_fits F (ws_async_send st) sp1 q1 m1" by blast
  with 4(1) 4(3) show ?case by fastforce
qed simp

section \<open>Properties\<close>

text \<open>
  Property C22. Sending is safe in memory and leaks nothing, whichever calls fail: any run of
  sends and work items on pointers gives the results and the output of the model on values and
  never uses or releases a block it may not; at any time exactly two blocks are held for each
  frame that waits, and none when no frame waits.
\<close>

theorem sends_memory_safe:
  assumes "mem_ok m" and "ws_queue st = []" and "send_run xs st = (es, st')"
  shows "\<exists>sp q m'. send_run_p xs st [] m = Some (es, sp, q, m') \<and> st' = sp\<lparr>ws_queue := ws_queue st'\<rparr> \<and>
    card (dom (cells m') - dom (cells m)) = 2 * length (ws_queue st') \<and>
    (ws_queue st' = [] \<longrightarrow> cells m' = cells m)"
proof -
  have "queue_fits (cells m) st st [] m" using assms(1,2) queue_fitsI [of "cells m" "[]" m st st] by (simp add: owns_none)
  from run_fits [OF this assms(3)] obtain sp q m' where
    r: "send_run_p xs st [] m = Some (es, sp, q, m')" and f: "queue_fits (cells m) st' sp q m'" by blast
  from f obtain W where W: "ws_queue st' = map (snd \<circ> snd) W" "owns (cells m) (work_cells W) m'"
    and st: "st' = sp\<lparr>ws_queue := ws_queue st'\<rparr>" by (auto simp: queue_fits_def)
  have "card (dom (cells m') - dom (cells m)) = 2 * length (ws_queue st')"
    using owns_card [OF W(2)] W(1) by (simp add: size_work_cells)
  moreover have "ws_queue st' = [] \<Longrightarrow> cells m' = cells m" using W by (simp add: owns_none)
  ultimately show ?thesis using r st by blast
qed

text \<open>
  A frame for the client whose request is handled, one that waits, one without a buffer, one the
  queue refuses, and after the request one that waits behind; then the first work item runs.
\<close>

definition demo_sends :: "send_step list" where
  "demo_sends = [Request (Some 54), Send good_send 54 ''a'', Send good_send 55 ''b'',
     Send (good_send\<lparr>sd_data := False\<rparr>) 55 ''c'', Send (good_send\<lparr>sd_queue := ESP_FAIL\<rparr>) 55 ''d'', Request None,
     Send good_send 54 ''e'', Work]"

definition demo_server :: ws_state where
  "demo_server = \<lparr>ws = \<lparr>ws_httpd = True, connections = [], ws_lock = True, connection_count = 0\<rparr>,
     g_server = True, g_message_callback = True, g_disconnect_callback = True, g_current_req = None,
     ws_queue = [], outbox = [], send_tick = 0\<rparr>"

lemma demo_sends_run:
  "send_run demo_sends demo_server = ([ESP_OK, ESP_OK, ESP_ERR_NO_MEM, ESP_FAIL, ESP_OK],
     demo_server\<lparr>ws_queue := [(54, ''e'')],
       outbox := [Out_Frame 54 WS_TEXT ''a'', Out_Queued 55 ''b'', Out_Queued 54 ''e'', Out_Async 55 ''b'']\<rparr>)"
  by (simp add: demo_sends_def demo_server_def good_send_def ws_server_send_def ws_async_send_def emit_def)

theorem sends_memory_safe_witness:
  "\<exists>sp q m'. send_run_p demo_sends demo_server [] \<lparr>cells = [3 \<mapsto> Unset_Cell], next_addr = 8\<rparr> =
       Some ([ESP_OK, ESP_OK, ESP_ERR_NO_MEM, ESP_FAIL, ESP_OK], sp, q, m') \<and>
     outbox sp = [Out_Frame 54 WS_TEXT ''a'', Out_Queued 55 ''b'', Out_Queued 54 ''e'', Out_Async 55 ''b''] \<and>
     card (dom (cells m') - {3}) = 2"
proof -
  have m: "mem_ok \<lparr>cells = [3 \<mapsto> Unset_Cell], next_addr = 8\<rparr>" by (simp add: mem_ok_def)
  have q: "ws_queue demo_server = []" by (simp add: demo_server_def)
  from sends_memory_safe [OF m q demo_sends_run] obtain sp q' m' where
    r: "send_run_p demo_sends demo_server [] \<lparr>cells = [3 \<mapsto> Unset_Cell], next_addr = 8\<rparr> =
       Some ([ESP_OK, ESP_OK, ESP_ERR_NO_MEM, ESP_FAIL, ESP_OK], sp, q', m')"
    and st: "demo_server\<lparr>ws_queue := [(54, ''e'')],
       outbox := [Out_Frame 54 WS_TEXT ''a'', Out_Queued 55 ''b'', Out_Queued 54 ''e'', Out_Async 55 ''b'']\<rparr> =
       sp\<lparr>ws_queue := [(54, ''e'')]\<rparr>"
    and c: "card (dom (cells m') - {3}) = 2" by (auto simp del: One_nat_def)
  from arg_cong [OF st, of outbox] have "outbox sp =
      [Out_Frame 54 WS_TEXT ''a'', Out_Queued 55 ''b'', Out_Queued 54 ''e'', Out_Async 55 ''b'']" by simp
  with r c show ?thesis by blast
qed

end
